(* ===== verification/Bitmigo_Prelude.thy ===== *)
theory Bitmigo_Prelude
  imports Main "HOL-Library.Word"
begin

text \<open>
  The vocabulary every component shares: the Rust integer widths, byte strings, and the
  three-valued outcome of a function that may return a value, return an error or abort.

  The workspace is built with \<^verbatim>\<open>panic = "abort"\<close> and \<^verbatim>\<open>overflow-checks = true\<close>
  (\<^verbatim>\<open>src/Cargo.toml\<close>), so every failed \<^verbatim>\<open>assert!\<close>, every \<^verbatim>\<open>expect\<close> on
  \<^verbatim>\<open>None\<close> and every arithmetic overflow ends the node. The constructor \<open>Panic\<close> is that
  outcome. It is kept apart from \<open>Err\<close>, which is a verdict about the input, so that
  ``the node survives this input'' is a statement about the model.
\<close>

unbundle bit_operations_syntax

type_synonym u8 = "8 word"
type_synonym u32 = "32 word"
type_synonym u64 = "64 word"
type_synonym u128 = "128 word"
type_synonym bytes = "u8 list"

section \<open>Outcomes\<close>

datatype (dead 'e, 'a) res = Ok 'a | Err 'e | Panic

primrec and_then :: "('e, 'a) res \<Rightarrow> ('a \<Rightarrow> ('e, 'b) res) \<Rightarrow> ('e, 'b) res" where
  "and_then (Ok a) f = f a"
| "and_then (Err e) f = Err e"
| "and_then Panic f = Panic"

text \<open>\<^verbatim>\<open>assert!(b)\<close> followed by the rest of the body.\<close>

definition ensure :: "bool \<Rightarrow> ('e, 'a) res \<Rightarrow> ('e, 'a) res" where
  "ensure b k = (if b then k else Panic)"

text \<open>\<^verbatim>\<open>Option::expect\<close>.\<close>

primrec expect :: "'a option \<Rightarrow> ('e, 'a) res" where
  "expect None = Panic"
| "expect (Some a) = Ok a"

text \<open>\<^verbatim>\<open>Result::expect\<close> and \<^verbatim>\<open>Result::is_ok\<close>.\<close>

primrec expect_ok :: "('f, 'a) res \<Rightarrow> ('e, 'a) res" where
  "expect_ok (Ok a) = Ok a"
| "expect_ok (Err e) = Panic"
| "expect_ok Panic = Panic"

primrec is_ok :: "('f, 'a) res \<Rightarrow> ('e, bool) res" where
  "is_ok (Ok a) = Ok True"
| "is_ok (Err e) = Ok False"
| "is_ok Panic = Panic"

text \<open>\<^verbatim>\<open>Result::map_err\<close>.\<close>

primrec map_err :: "('e \<Rightarrow> 'f) \<Rightarrow> ('e, 'a) res \<Rightarrow> ('f, 'a) res" where
  "map_err g (Ok a) = Ok a"
| "map_err g (Err e) = Err (g e)"
| "map_err g Panic = Panic"

text \<open>
  \<open>holds r P\<close>: the computation does not abort, and if it returns a value, \<open>P\<close> is true of
  it. An error return satisfies it. Its equations compute the weakest precondition of a
  body by rewriting; they are the collection \<open>outcome\<close>.
\<close>

named_theorems outcome "weakest preconditions of the outcome combinators"

primrec holds :: "('e, 'a) res \<Rightarrow> ('a \<Rightarrow> bool) \<Rightarrow> bool" where
  "holds (Ok a) P = P a"
| "holds (Err e) P = True"
| "holds Panic P = False"

lemma holds_and_then [outcome]: "holds (and_then r f) P = holds r (\<lambda>a. holds (f a) P)"
  by (cases r) simp_all

lemma holds_ensure [outcome]: "holds (ensure b k) P \<longleftrightarrow> b \<and> holds k P"
  by (simp add: ensure_def)

lemma holds_expect [outcome]: "holds (expect x) P \<longleftrightarrow> (\<exists>a. x = Some a \<and> P a)"
  by (cases x) simp_all

lemma holds_map_err [outcome]: "holds (map_err g r) P = holds r P"
  by (cases r) simp_all

lemma holds_if [outcome]:
  "holds (if b then r else s) P \<longleftrightarrow> (b \<longrightarrow> holds r P) \<and> (\<not> b \<longrightarrow> holds s P)"
  by simp

lemma holds_mono: "holds r P \<Longrightarrow> (\<And>a. P a \<Longrightarrow> Q a) \<Longrightarrow> holds r Q"
  by (cases r) simp_all

lemma holds_no_panic: "holds r P \<Longrightarrow> r \<noteq> Panic"
  by (cases r) simp_all

lemma no_panic_iff: "r \<noteq> Panic \<longleftrightarrow> holds r (\<lambda>_. True)"
  by (cases r) simp_all

lemma holds_Ok_D: "holds r P \<Longrightarrow> r = Ok a \<Longrightarrow> P a"
  by simp

lemma holds_conj: "holds r (\<lambda>a. P a \<and> Q a) \<longleftrightarrow> holds r P \<and> holds r Q"
  by (cases r) simp_all

lemma holds_triv: "r = Ok a \<Longrightarrow> P a \<Longrightarrow> holds r P"
  by simp

lemma and_then_eq_Ok [simp]:
  "and_then r f = Ok b \<longleftrightarrow> (\<exists>a. r = Ok a \<and> f a = Ok b)"
  by (cases r) auto

lemma and_then_eq_Err:
  "and_then r f = Err e \<longleftrightarrow> r = Err e \<or> (\<exists>a. r = Ok a \<and> f a = Err e)"
  by (cases r) auto

lemma and_then_eq_Panic:
  "and_then r f = Panic \<longleftrightarrow> r = Panic \<or> (\<exists>a. r = Ok a \<and> f a = Panic)"
  by (cases r) auto

lemma ensure_eq_Ok [simp]: "ensure b k = Ok a \<longleftrightarrow> b \<and> k = Ok a"
  by (simp add: ensure_def)

lemma ensure_eq_Err [simp]: "ensure b k = Err e \<longleftrightarrow> b \<and> k = Err e"
  by (simp add: ensure_def)

lemma ensure_True [simp]: "ensure True k = k"
  by (simp add: ensure_def)

lemma ensure_False [simp]: "ensure False k = Panic"
  by (simp add: ensure_def)

lemma expect_eq_Ok [simp]: "expect x = Ok a \<longleftrightarrow> x = Some a"
  by (cases x) simp_all

lemma expect_ok_eq_Ok [simp]: "expect_ok r = Ok a \<longleftrightarrow> r = Ok a"
  by (cases r) simp_all

lemma map_err_eq_Ok [simp]: "map_err g r = Ok a \<longleftrightarrow> r = Ok a"
  by (cases r) simp_all

lemma map_err_eq_Err [simp]: "map_err g r = Err e \<longleftrightarrow> (\<exists>d. r = Err d \<and> e = g d)"
  by (cases r) auto

lemma map_err_eq_Panic [simp]: "map_err g r = Panic \<longleftrightarrow> r = Panic"
  by (cases r) simp_all

section \<open>Signed integers\<close>

text \<open>
  Signed values are mathematical integers; each operation the build would check carries its
  range check, so an overflow is \<open>Panic\<close> here as well.
\<close>

definition in_i64 :: "int \<Rightarrow> bool" where
  "in_i64 n \<longleftrightarrow> - (2 ^ 63) \<le> n \<and> n < 2 ^ 63"

definition in_i32 :: "int \<Rightarrow> bool" where
  "in_i32 n \<longleftrightarrow> - (2 ^ 31) \<le> n \<and> n < 2 ^ 31"

definition i64_mul :: "int \<Rightarrow> int \<Rightarrow> ('e, int) res" where
  "i64_mul a b = ensure (in_i64 (a * b)) (Ok (a * b))"

text \<open>Division and remainder of signed integers truncate towards zero.\<close>

definition i_div :: "int \<Rightarrow> int \<Rightarrow> int" where
  "i_div a b = sgn a * sgn b * (\<bar>a\<bar> div \<bar>b\<bar>)"

definition i_rem :: "int \<Rightarrow> int \<Rightarrow> int" where
  "i_rem a b = a - b * i_div a b"

lemma i_div_nonneg [simp]: "0 \<le> a \<Longrightarrow> 0 < b \<Longrightarrow> i_div a b = a div b"
  by (cases "a = 0") (simp_all add: i_div_def)

lemma i_rem_nonneg [simp]: "0 \<le> a \<Longrightarrow> 0 < b \<Longrightarrow> i_rem a b = a mod b"
  by (simp add: i_rem_def minus_mult_div_eq_mod)

section \<open>Slices\<close>

text \<open>\<^verbatim>\<open>slice.get(i)\<close> and \<^verbatim>\<open>slice.get(a..b)\<close>: \<open>None\<close> out of range, as in Rust.\<close>

definition get :: "'a list \<Rightarrow> nat \<Rightarrow> 'a option" where
  "get xs i = (if i < length xs then Some (xs ! i) else None)"

definition get_range :: "'a list \<Rightarrow> nat \<Rightarrow> nat \<Rightarrow> 'a list option" where
  "get_range xs a b = (if a \<le> b \<and> b \<le> length xs then Some (take (b - a) (drop a xs)) else None)"

lemma get_Some_iff [simp]: "get xs i = Some x \<longleftrightarrow> i < length xs \<and> x = xs ! i"
  by (auto simp: get_def)

lemma get_None_iff [simp]: "get xs i = None \<longleftrightarrow> length xs \<le> i"
  by (auto simp: get_def)

lemma get_range_Some_iff [simp]:
  "get_range xs a b = Some ys \<longleftrightarrow> a \<le> b \<and> b \<le> length xs \<and> ys = take (b - a) (drop a xs)"
  by (auto simp: get_range_def)

lemma get_range_None_iff [simp]:
  "get_range xs a b = None \<longleftrightarrow> \<not> (a \<le> b \<and> b \<le> length xs)"
  by (auto simp: get_range_def)

end
