(* ===== verification/Bitcoin_Types.thy ===== *)
theory Bitcoin_Types
  imports Bitmigo_Prelude
begin

text \<open>
  The data of the \<open>bitcoin\<close> crate the consensus code reads: headers, transactions and blocks,
  as records of their public fields. Scripts and witness items are byte strings, hashes are
  the 32 bytes \<open>to_byte_array\<close> gives. The crate's functions on these types (identifiers,
  serialized sizes, hashing) are not part of this repository; the definitions that call one
  take it as an argument.
\<close>

type_synonym hash = bytes

type_synonym script = bytes

record header =
  hdr_version :: int
  prev_blockhash :: hash
  merkle_root :: hash
  hdr_time :: u32
  hdr_bits :: u32
  hdr_nonce :: u32

record outpoint =
  op_txid :: hash
  op_vout :: u32

record txin =
  previous_output :: outpoint
  script_sig :: script
  sequence_no :: u32
  witness :: "bytes list"

record txout =
  value_sat :: u64
  script_pubkey :: script

record transaction =
  tx_version :: int
  tx_lock_time :: u32
  tx_input :: "txin list"
  tx_output :: "txout list"

record block =
  block_header :: header
  txdata :: "transaction list"

end
