(* ===== verification/Uint256.thy ===== *)
theory Uint256
  imports Bitmigo_Prelude
begin

text \<open>
  \<^verbatim>\<open>crates/consensus/src/header/uint.rs\<close>: the 256-bit integer the target rules compute in,
  four 64-bit limbs with the most significant first. The operations are written limb by
  limb as the source writes them; \<open>limbs_val\<close> reads a limb list as a number, and the lemmas
  show that every operation is the arithmetic operation on that number, reports overflow
  exactly when it overflows, and passes its own assertions.
\<close>

section \<open>The model\<close>

type_synonym u256 = "u64 list"

abbreviation (input) LIMBS :: nat where "LIMBS \<equiv> 4"

abbreviation (input) LIMB_BITS :: nat where "LIMB_BITS \<equiv> 64"

abbreviation (input) U256_BITS :: nat where "U256_BITS \<equiv> 256"

definition wf_u256 :: "u256 \<Rightarrow> bool" where
  "wf_u256 x \<longleftrightarrow> length x = LIMBS"

definition U256_ZERO :: u256 where
  "U256_ZERO = [0, 0, 0, 0]"

definition U256_ONE :: u256 where
  "U256_ONE = [0, 0, 0, 1]"

definition from_u64 :: "u64 \<Rightarrow> u256" where
  "from_u64 v = [0, 0, 0, v]"

text \<open>The standard library's fixed-size chunks and big-endian conversions.\<close>

function as_chunks :: "nat \<Rightarrow> 'a list \<Rightarrow> 'a list list" where
  "as_chunks n xs = (if n = 0 \<or> length xs < n then [] else take n xs # as_chunks n (drop n xs))"
  by pat_completeness auto
termination
  by (relation "measure (\<lambda>(n, xs). length xs)") auto

declare as_chunks.simps [simp del]

primrec bytes_val :: "bytes \<Rightarrow> nat" where
  "bytes_val [] = 0"
| "bytes_val (b # bs) = unat b * 256 ^ length bs + bytes_val bs"

definition u64_from_be_bytes :: "bytes \<Rightarrow> u64" where
  "u64_from_be_bytes bs = word_of_nat (bytes_val bs)"

definition u64_to_be_bytes :: "u64 \<Rightarrow> bytes" where
  "u64_to_be_bytes w = map (\<lambda>i. ucast (drop_bit (8 * (7 - i)) w)) [0..<8]"

definition from_be_bytes :: "bytes \<Rightarrow> u256" where
  "from_be_bytes bs = map u64_from_be_bytes (as_chunks 8 bs)"

definition from_le_bytes :: "bytes \<Rightarrow> u256" where
  "from_le_bytes bs = from_be_bytes (rev bs)"

definition to_be_bytes :: "u256 \<Rightarrow> bytes" where
  "to_be_bytes x = concat (map u64_to_be_bytes x)"

definition is_zero :: "u256 \<Rightarrow> bool" where
  "is_zero x \<longleftrightarrow> x = U256_ZERO"

text \<open>The derived ordering of the limb array: lexicographic, most significant limb first.\<close>

fun u256_less :: "u256 \<Rightarrow> u256 \<Rightarrow> bool" where
  "u256_less [] [] = False"
| "u256_less [] (b # bs) = True"
| "u256_less (a # as) [] = False"
| "u256_less (a # as) (b # bs) = (a < b \<or> a = b \<and> u256_less as bs)"

definition u256_le :: "u256 \<Rightarrow> u256 \<Rightarrow> bool" where
  "u256_le x y \<longleftrightarrow> \<not> u256_less y x"

definition leading_zeros :: "u64 \<Rightarrow> nat" where
  "leading_zeros w = length (takeWhile (\<lambda>i. \<not> bit w i) (rev [0..<64]))"

fun bits_loop :: "nat \<Rightarrow> u64 list \<Rightarrow> nat" where
  "bits_loop index [] = 0"
| "bits_loop index (limb # rest) =
     (if limb \<noteq> 0 then (LIMBS - 1 - index) * LIMB_BITS + (LIMB_BITS - leading_zeros limb)
      else bits_loop (index + 1) rest)"

definition u256_bits :: "u256 \<Rightarrow> nat" where
  "u256_bits x = bits_loop 0 x"

definition low_u64 :: "u256 \<Rightarrow> u64" where
  "low_u64 x = x ! (LIMBS - 1)"

definition limb_or_zero :: "u256 \<Rightarrow> nat option \<Rightarrow> u64" where
  "limb_or_zero x index =
     (case index of None \<Rightarrow> 0 | Some i \<Rightarrow> (case get x i of None \<Rightarrow> 0 | Some w \<Rightarrow> w))"

definition u256_shl :: "u256 \<Rightarrow> nat \<Rightarrow> ('e, u256) res" where
  "u256_shl x shift = ensure (shift < U256_BITS)
     (let limb_shift = shift div LIMB_BITS; bit_shift = shift mod LIMB_BITS
      in Ok (map (\<lambda>index.
           let high = limb_or_zero x (Some (index + limb_shift));
               low = limb_or_zero x (Some (index + limb_shift + 1))
           in if bit_shift = 0 then high
              else push_bit bit_shift high OR drop_bit (LIMB_BITS - bit_shift) low)
         [0..<LIMBS]))"

definition checked_sub :: "nat \<Rightarrow> nat \<Rightarrow> nat option" where
  "checked_sub a b = (if b \<le> a then Some (a - b) else None)"

definition u256_shr :: "u256 \<Rightarrow> nat \<Rightarrow> ('e, u256) res" where
  "u256_shr x shift = ensure (shift < U256_BITS)
     (let limb_shift = shift div LIMB_BITS; bit_shift = shift mod LIMB_BITS
      in Ok (map (\<lambda>index.
           let low = limb_or_zero x (checked_sub index limb_shift);
               high = limb_or_zero x (checked_sub index (limb_shift + 1))
           in if bit_shift = 0 then low
              else drop_bit bit_shift low OR push_bit (LIMB_BITS - bit_shift) high)
         [0..<LIMBS]))"

definition u256_not :: "u256 \<Rightarrow> u256" where
  "u256_not x = map NOT x"

definition overflowing_add :: "u64 \<Rightarrow> u64 \<Rightarrow> u64 \<times> bool" where
  "overflowing_add a b = (a + b, 2 ^ 64 \<le> unat a + unat b)"

definition overflowing_sub :: "u64 \<Rightarrow> u64 \<Rightarrow> u64 \<times> bool" where
  "overflowing_sub a b = (a - b, a < b)"

text \<open>The carry loop runs from the last limb to the first; the recursion does the tail first.\<close>

fun add_loop :: "u64 list \<Rightarrow> u64 list \<Rightarrow> u64 list \<times> bool" where
  "add_loop (a # as) (b # bs) =
     (let (limbs, carry) = add_loop as bs;
          (sum, overflow_a) = overflowing_add a b;
          (sum, overflow_b) = overflowing_add sum (of_bool carry)
      in (sum # limbs, overflow_a \<or> overflow_b))"
| "add_loop _ _ = ([], False)"

definition u256_checked_add :: "u256 \<Rightarrow> u256 \<Rightarrow> u256 option" where
  "u256_checked_add x y = (let (limbs, carry) = add_loop x y in if carry then None else Some limbs)"

fun sub_loop :: "u64 list \<Rightarrow> u64 list \<Rightarrow> u64 list \<times> bool" where
  "sub_loop (a # as) (b # bs) =
     (let (limbs, borrow) = sub_loop as bs;
          (difference, underflow_a) = overflowing_sub a b;
          (difference, underflow_b) = overflowing_sub difference (of_bool borrow)
      in (difference # limbs, underflow_a \<or> underflow_b))"
| "sub_loop _ _ = ([], False)"

definition u256_sub :: "u256 \<Rightarrow> u256 \<Rightarrow> ('e, u256) res" where
  "u256_sub x y = ensure (u256_le y x)
     (let (limbs, borrow) = sub_loop x y in ensure (\<not> borrow) (Ok limbs))"

text \<open>Products and dividends are 128-bit; the build checks their overflow.\<close>

fun mul_loop :: "u64 \<Rightarrow> u64 list \<Rightarrow> ('e, u64 list \<times> u128) res" where
  "mul_loop factor [] = Ok ([], 0)"
| "mul_loop factor (a # as) =
     and_then (mul_loop factor as) (\<lambda>(limbs, carry).
       ensure (unat a * unat factor + unat carry < 2 ^ 128)
         (let product = ucast a * ucast factor + carry
          in Ok (ucast (product AND mask 64) # limbs, drop_bit LIMB_BITS product)))"

definition checked_mul_u64 :: "u256 \<Rightarrow> u64 \<Rightarrow> ('e, u256 option) res" where
  "checked_mul_u64 x factor =
     and_then (mul_loop factor x) (\<lambda>(limbs, carry). Ok (if carry \<noteq> 0 then None else Some limbs))"

fun div_u64_loop :: "u64 \<Rightarrow> u128 \<Rightarrow> u64 list \<Rightarrow> ('e, u64 list) res" where
  "div_u64_loop divisor remainder [] = Ok []"
| "div_u64_loop divisor remainder (a # as) =
     (let current = push_bit LIMB_BITS remainder OR ucast a;
          quot = current div ucast divisor
      in ensure (unat quot < 2 ^ 64)
           (and_then (div_u64_loop divisor (current mod ucast divisor) as)
              (\<lambda>limbs. Ok (ucast quot # limbs))))"

definition div_u64 :: "u256 \<Rightarrow> u64 \<Rightarrow> ('e, u256) res" where
  "div_u64 x divisor = ensure (0 < divisor) (div_u64_loop divisor 0 x)"

definition set_bit_u256 :: "u256 \<Rightarrow> nat \<Rightarrow> ('e, u256) res" where
  "set_bit_u256 x b = ensure (b < U256_BITS)
     (let index = LIMBS - 1 - b div LIMB_BITS
      in and_then (expect (get x index))
           (\<lambda>limb. Ok (x[index := limb OR push_bit (b mod LIMB_BITS) 1])))"

text \<open>\<open>div_loop n\<close> runs the shift positions \<open>n - 1, \<dots>, 0\<close> of the long division.\<close>

fun div_loop :: "nat \<Rightarrow> u256 \<Rightarrow> u256 \<Rightarrow> u256 \<Rightarrow> ('e, u256 \<times> u256) res" where
  "div_loop 0 divisor remainder quot = Ok (remainder, quot)"
| "div_loop (Suc shift) divisor remainder quot =
     and_then (u256_shl divisor shift) (\<lambda>shifted.
       if u256_le shifted remainder then
         and_then (u256_sub remainder shifted) (\<lambda>remainder'.
         and_then (set_bit_u256 quot shift) (\<lambda>quot'.
           div_loop shift divisor remainder' quot'))
       else div_loop shift divisor remainder quot)"

definition u256_div :: "u256 \<Rightarrow> u256 \<Rightarrow> ('e, u256) res" where
  "u256_div x divisor = ensure (\<not> is_zero divisor)
     (let dividend_bits = u256_bits x; divisor_bits = u256_bits divisor
      in if dividend_bits < divisor_bits then Ok U256_ZERO
         else and_then (div_loop (dividend_bits - divisor_bits + 1) divisor x U256_ZERO)
           (\<lambda>(remainder, quot). ensure (u256_less remainder divisor) (Ok quot)))"

section \<open>Limb lists as numbers\<close>

primrec limbs_val :: "u64 list \<Rightarrow> nat" where
  "limbs_val [] = 0"
| "limbs_val (w # ws) = unat w * 2 ^ (64 * length ws) + limbs_val ws"

lemma unat_u64_less [simp]: "unat (w :: u64) < 2 ^ 64"
  using unsigned_less [of w] by simp

lemma limbs_val_less: "limbs_val xs < 2 ^ (64 * length xs)"
proof (induction xs)
  case Nil
  then show ?case by simp
next
  case (Cons w ws)
  have "unat w + 1 \<le> 2 ^ 64"
    using unat_u64_less [of w] by (simp only: Suc_eq_plus1 [symmetric] Suc_le_eq)
  then have "(unat w + 1) * 2 ^ (64 * length ws) \<le> 2 ^ 64 * 2 ^ (64 * length ws)"
    by (rule mult_le_mono1)
  then have "unat w * 2 ^ (64 * length ws) + 2 ^ (64 * length ws) \<le> 2 ^ (64 * length (w # ws))"
    by (simp add: power_add)
  with Cons.IH show ?case
    by (simp del: One_nat_def)
qed

lemma limbs_val_inj:
  "length xs = length ys \<Longrightarrow> limbs_val xs = limbs_val ys \<Longrightarrow> xs = ys"
proof (induction xs ys rule: list_induct2)
  case Nil
  then show ?case by simp
next
  case (Cons x xs y ys)
  let ?B = "2 ^ (64 * length xs) :: nat"
  have bx: "limbs_val xs < ?B" and yb: "limbs_val ys < ?B"
    using limbs_val_less [of xs] limbs_val_less [of ys] Cons.hyps by simp_all
  have eq: "unat x * ?B + limbs_val xs = unat y * ?B + limbs_val ys"
    using Cons.prems Cons.hyps by simp
  have "unat x = (unat x * ?B + limbs_val xs) div ?B"
    using bx by simp
  also have "\<dots> = unat y"
    unfolding eq using yb by simp
  finally have xy: "x = y"
    by (simp only: word_unat_eq_iff)
  with eq have "limbs_val xs = limbs_val ys"
    by simp
  with Cons.IH xy show ?case by simp
qed

lemma u256_less_val:
  "length xs = length ys \<Longrightarrow> u256_less xs ys \<longleftrightarrow> limbs_val xs < limbs_val ys"
proof (induction xs ys rule: list_induct2)
  case Nil
  then show ?case by simp
next
  case (Cons x xs y ys)
  let ?B = "2 ^ (64 * length xs) :: nat"
  have bx: "limbs_val xs < ?B" and yb: "limbs_val ys < ?B"
    using limbs_val_less [of xs] limbs_val_less [of ys] Cons.hyps by simp_all
  have head_less: "unat a * ?B + m < unat b * ?B + n" if "unat a < unat b" "m < ?B" for a b :: u64 and m n
  proof -
    have "(unat a + 1) * ?B \<le> unat b * ?B"
      using that(1) by (intro mult_le_mono1) simp
    with that(2) show ?thesis by simp
  qed
  show ?case
  proof (cases x y rule: linorder_cases)
    case less
    then have "unat x < unat y" by (simp add: word_less_nat_alt)
    from head_less [OF this bx] less Cons.hyps show ?thesis by simp
  next
    case equal
    with Cons show ?thesis by simp
  next
    case greater
    then have "unat y < unat x" by (simp add: word_less_nat_alt)
    from head_less [OF this yb, of "limbs_val xs"] greater Cons.hyps show ?thesis
      by (auto simp: not_less less_imp_le)
  qed
qed

lemma u256_le_val:
  "length xs = length ys \<Longrightarrow> u256_le xs ys \<longleftrightarrow> limbs_val xs \<le> limbs_val ys"
  by (simp add: u256_le_def u256_less_val not_less)

lemma bit_nat_mult_add:
  fixes a b :: nat
  assumes "b < 2 ^ k"
  shows "bit (a * 2 ^ k + b) n \<longleftrightarrow> (if n < k then bit b n else bit a (n - k))"
proof -
  have "int b mod 2 ^ k = int b"
    using assms by simp
  then have "int (a * 2 ^ k + b) = concat_bit k (int b) (int a)"
    by (simp add: concat_bit_eq push_bit_eq_mult take_bit_eq_mod)
  then have "bit (int (a * 2 ^ k + b)) n \<longleftrightarrow> bit (concat_bit k (int b) (int a)) n"
    by simp
  then show ?thesis
    by (simp only: bit_concat_bit_iff bit_of_nat_iff_bit not_less) auto
qed

lemma bit_limbs_val:
  "bit (limbs_val xs) n \<longleftrightarrow>
     n < 64 * length xs \<and> bit (xs ! (length xs - 1 - n div 64)) (n mod 64)"
proof (induction xs)
  case Nil
  then show ?case by simp
next
  case (Cons w ws)
  show ?case
  proof (cases "n < 64 * length ws")
    case True
    then have "n div 64 < length ws" by (simp add: less_mult_imp_div_less mult.commute)
    then have "(w # ws) ! (length (w # ws) - 1 - n div 64) = ws ! (length ws - 1 - n div 64)"
      by (simp add: nth_Cons' diff_right_commute)
    with True Cons.IH limbs_val_less [of ws] show ?thesis
      by (simp add: bit_nat_mult_add)
  next
    case False
    then have ge: "64 * length ws \<le> n" by simp
    show ?thesis
    proof (cases "n < 64 * length (w # ws)")
      case True
      have "n - 64 * length ws < 64" using True ge by simp
      moreover have "n div 64 = length ws"
        using True ge by (intro div_nat_eqI) simp_all
      moreover have "n mod 64 = n - 64 * length ws"
        using \<open>n div 64 = length ws\<close> by (simp add: minus_mult_div_eq_mod [symmetric])
      ultimately show ?thesis
        using False True limbs_val_less [of ws]
        by (simp add: bit_nat_mult_add bit_unsigned_iff)
    next
      case False
      then have "64 \<le> n - 64 * length ws" by simp
      then have "\<not> bit (unat w) (n - 64 * length ws)"
        by (simp add: bit_unsigned_iff bit_imp_le_length leD) (auto dest: bit_imp_le_length)
      with False ge limbs_val_less [of ws] show ?thesis
        by (simp add: bit_nat_mult_add)
    qed
  qed
qed

lemma add_loop_spec:
  assumes "length xs = length ys" and "add_loop xs ys = (zs, carry)"
  shows "length zs = length xs \<and>
    limbs_val xs + limbs_val ys = limbs_val zs + of_bool carry * 2 ^ (64 * length xs)"
  using assms
proof (induction xs ys arbitrary: zs carry rule: list_induct2)
  case Nil
  then show ?case by simp
next
  case (Cons a as b bs)
  obtain limbs c where tl: "add_loop as bs = (limbs, c)" by fastforce
  from Cons.IH [OF tl] have len: "length limbs = length as"
    and IH: "limbs_val as + limbs_val bs = limbs_val limbs + of_bool c * 2 ^ (64 * length as)"
    by auto
  define s where "s = a + b + of_bool c"
  have zs: "zs = s # limbs"
    and carry: "carry \<longleftrightarrow> 2 ^ 64 \<le> unat a + unat b \<or> 2 ^ 64 \<le> unat (a + b) + of_bool c"
    using Cons.prems tl by (auto simp: overflowing_add_def s_def)
  have *: "unat a + unat b + of_bool c = unat s + of_bool carry * 2 ^ 64"
    unfolding s_def carry using unat_u64_less [of a] unat_u64_less [of b]
    by (cases c) (auto simp: unat_word_ariths mod_if)
  let ?B = "2 ^ (64 * length as) :: nat"
  have "limbs_val (a # as) + limbs_val (b # bs) = (unat a + unat b + of_bool c) * ?B + limbs_val limbs"
    using IH Cons.hyps by (simp add: algebra_simps)
  also have "\<dots> = limbs_val zs + of_bool carry * 2 ^ (64 * length (a # as))"
    unfolding * zs by (simp add: len algebra_simps power_add)
  finally show ?case
    using zs len by simp
qed

lemma sub_loop_spec:
  assumes "length xs = length ys" and "sub_loop xs ys = (zs, borrow)"
  shows "length zs = length xs \<and>
    limbs_val xs + of_bool borrow * 2 ^ (64 * length xs) = limbs_val zs + limbs_val ys"
  using assms
proof (induction xs ys arbitrary: zs borrow rule: list_induct2)
  case Nil
  then show ?case by simp
next
  case (Cons a as b bs)
  obtain limbs c where tl: "sub_loop as bs = (limbs, c)" by fastforce
  from Cons.IH [OF tl] have len: "length limbs = length as"
    and IH: "limbs_val as + of_bool c * 2 ^ (64 * length as) = limbs_val limbs + limbs_val bs"
    by auto
  define d where "d = a - b - of_bool c"
  have zs: "zs = d # limbs" and borrow: "borrow \<longleftrightarrow> a < b \<or> a - b < of_bool c"
    using Cons.prems tl by (auto simp: overflowing_sub_def d_def)
  have *: "unat a + of_bool borrow * 2 ^ 64 = unat d + unat b + of_bool c"
    unfolding d_def borrow using unat_u64_less [of a] unat_u64_less [of b]
    by (cases c) (auto simp: unat_word_ariths word_less_nat_alt unat_sub_if_size size_word_def)
  let ?B = "2 ^ (64 * length as) :: nat"
  have "limbs_val (a # as) + of_bool borrow * 2 ^ (64 * length (a # as))
      = (unat a + of_bool borrow * 2 ^ 64) * ?B + limbs_val as"
    by (simp add: algebra_simps power_add)
  also have "\<dots> = limbs_val zs + limbs_val (b # bs)"
    unfolding * zs using IH Cons.hyps by (simp add: len algebra_simps)
  finally show ?case
    using zs len by simp
qed

lemma u256_val_less: "wf_u256 x \<Longrightarrow> limbs_val x < 2 ^ 256"
  using limbs_val_less [of x] by (simp add: wf_u256_def)

lemma u256_checked_add_spec:
  assumes "wf_u256 x" and "wf_u256 y"
  shows "(case u256_checked_add x y of
            None \<Rightarrow> 2 ^ 256 \<le> limbs_val x + limbs_val y
          | Some z \<Rightarrow> wf_u256 z \<and> limbs_val z = limbs_val x + limbs_val y)"
proof -
  obtain zs carry where r: "add_loop x y = (zs, carry)" by fastforce
  show ?thesis
    using add_loop_spec [OF _ r] assms by (auto simp: u256_checked_add_def r wf_u256_def)
qed

lemma u256_sub_spec:
  assumes "wf_u256 x" and "wf_u256 y" and "limbs_val y \<le> limbs_val x"
  shows "\<exists>z. u256_sub x y = Ok z \<and> wf_u256 z \<and> limbs_val z = limbs_val x - limbs_val y"
proof -
  obtain zs borrow where r: "sub_loop x y = (zs, borrow)" by fastforce
  have spec: "length zs = 4" "limbs_val x + of_bool borrow * 2 ^ 256 = limbs_val zs + limbs_val y"
    using sub_loop_spec [OF _ r] assms by (simp_all add: wf_u256_def)
  have "\<not> borrow"
  proof
    assume borrow
    with spec(2) assms(3) limbs_val_less [of zs] spec(1) show False by simp
  qed
  with spec assms show ?thesis
    by (simp add: u256_sub_def r u256_le_val wf_u256_def)
qed

lemma or_nat_mult_add:
  fixes a b :: nat
  assumes "b < 2 ^ k"
  shows "a * 2 ^ k OR b = a * 2 ^ k + b"
proof (rule bit_eqI)
  fix n
  have "bit b n \<Longrightarrow> n < k"
    using assms by (metis bit_take_bit_iff take_bit_nat_eq_self)
  then show "bit (a * 2 ^ k OR b) n = bit (a * 2 ^ k + b) n"
    using bit_nat_mult_add [of 0 k a n] bit_nat_mult_add [OF assms, of a n]
    by (auto simp: bit_or_iff)
qed

lemma mul_loop_spec:
  "\<exists>limbs carry. mul_loop f xs = (Ok (limbs, carry) :: ('e, _) res) \<and> length limbs = length xs \<and>
     unat carry < 2 ^ 64 \<and>
     limbs_val xs * unat f = limbs_val limbs + unat carry * 2 ^ (64 * length xs)"
proof (induction xs)
  case Nil
  then show ?case by simp
next
  case (Cons a as)
  then obtain limbs c where tl: "mul_loop f as = (Ok (limbs, c) :: ('e, _) res)" "length limbs = length as"
    and c: "unat c < 2 ^ 64"
    and IH: "limbs_val as * unat f = limbs_val limbs + unat c * 2 ^ (64 * length as)"
    by blast
  define p where "p = ucast a * ucast f + c"
  have b: "unat a \<le> 2 ^ 64 - 1" "unat f \<le> 2 ^ 64 - 1"
    using unat_u64_less [of a] unat_u64_less [of f] by simp_all
  have "unat a * unat f \<le> (2 ^ 64 - 1) * (2 ^ 64 - 1)"
    using b by (rule mult_le_mono)
  with c have lt: "unat a * unat f + unat c < 2 ^ 128"
    by simp
  have p: "unat p = unat a * unat f + unat c"
    unfolding p_def using lt
    by (simp add: unat_word_ariths unsigned_ucast_eq take_bit_nat_eq_self less_le_trans [OF unat_u64_less])
  have lo: "unat (ucast (p AND mask 64) :: u64) = unat p mod 2 ^ 64"
    by (simp only: take_bit_eq_mask [symmetric] unsigned_ucast_eq unsigned_take_bit_eq)
      (simp add: take_bit_eq_mod)
  have hi: "unat (drop_bit 64 p) = unat p div 2 ^ 64"
    by (subst unat_drop_bit_eq) (simp add: drop_bit_eq_div)
  have hi_lt: "unat (drop_bit 64 p) < 2 ^ 64"
    unfolding hi using lt by (intro less_mult_imp_div_less) (simp add: p)
  let ?B = "2 ^ (64 * length as) :: nat"
  define h l where "h = unat p div 2 ^ 64" and "l = unat p mod 2 ^ 64"
  have hl: "unat p = h * 2 ^ 64 + l"
    unfolding h_def l_def by simp
  have "limbs_val (a # as) * unat f = unat p * ?B + limbs_val limbs"
    unfolding p using IH by (simp add: algebra_simps)
  also have "\<dots> = limbs_val (ucast (p AND mask 64) # limbs)
      + unat (drop_bit 64 p) * 2 ^ (64 * length (a # as))"
    using lo hi unfolding h_def [symmetric] l_def [symmetric]
    by (simp only: hl limbs_val.simps) (simp add: tl(2) algebra_simps power_add)
  finally have "limbs_val (a # as) * unat f = limbs_val (ucast (p AND mask 64) # limbs)
      + unat (drop_bit 64 p) * 2 ^ (64 * length (a # as))" .
  moreover have "mul_loop f (a # as) =
      (Ok (ucast (p AND mask 64) # limbs, drop_bit 64 p) :: ('e, _) res)"
    using tl lt by (simp add: p_def Let_def)
  moreover have "length (ucast (p AND mask 64) # limbs) = length (a # as)"
    by (simp add: tl(2))
  ultimately show ?case
    using hi_lt by blast
qed

lemma checked_mul_u64_spec:
  assumes "wf_u256 x"
  shows "\<exists>r. checked_mul_u64 x f = (Ok r :: ('e, _) res) \<and>
    (case r of None \<Rightarrow> 2 ^ 256 \<le> limbs_val x * unat f
     | Some z \<Rightarrow> wf_u256 z \<and> limbs_val z = limbs_val x * unat f)"
proof -
  obtain limbs carry where m: "mul_loop f x = (Ok (limbs, carry) :: ('e, _) res)" "length limbs = length x"
    "limbs_val x * unat f = limbs_val limbs + unat carry * 2 ^ (64 * length x)"
    using mul_loop_spec by blast
  show ?thesis
  proof (cases "carry = 0")
    case True
    with m assms show ?thesis
      by (intro exI [of _ "Some limbs"]) (simp add: checked_mul_u64_def wf_u256_def)
  next
    case False
    then have "1 \<le> unat carry" by (simp add: Suc_le_eq unat_gt_0)
    then have "2 ^ 256 \<le> unat carry * (2 ^ 256 :: nat)" by simp
    with m False assms show ?thesis
      by (intro exI [of _ None]) (simp add: checked_mul_u64_def wf_u256_def)
  qed
qed

lemma div_u64_loop_spec:
  assumes "0 < unat d" and "unat r < unat d"
  shows "\<exists>limbs. div_u64_loop d r xs = (Ok limbs :: ('e, _) res) \<and> length limbs = length xs \<and>
    limbs_val limbs = (unat r * 2 ^ (64 * length xs) + limbs_val xs) div unat d"
  using assms(2)
proof (induction xs arbitrary: r)
  case Nil
  then show ?case by simp
next
  case (Cons a as)
  define cur where "cur = push_bit 64 r OR ucast a"
  let ?B = "2 ^ (64 * length as) :: nat"
  have rb: "unat r < 2 ^ 64"
    using Cons.prems unat_u64_less [of d] by (rule less_trans)
  have "unat (push_bit 64 r) = unat r * 2 ^ 64"
    using rb by (simp only: push_bit_eq_mult unat_word_ariths) (simp add: mod_less)
  then have cur: "unat cur = unat r * 2 ^ 64 + unat a"
    unfolding cur_def using or_nat_mult_add [OF unat_u64_less]
    by (simp add: unsigned_or_eq unsigned_ucast_eq take_bit_nat_eq_self
          less_trans [OF unat_u64_less] del: unat_u64_less)
  have d: "unat (ucast d :: u128) = unat d"
    by (simp add: unsigned_ucast_eq take_bit_nat_eq_self less_trans [OF unat_u64_less])
  have q: "unat (cur div ucast d) = unat cur div unat d"
    by (simp add: unat_div d)
  have m: "unat (cur mod ucast d) = unat cur mod unat d"
    by (simp add: unat_mod d)
  have "unat cur < unat d * 2 ^ 64"
  proof -
    have "(unat r + 1) * 2 ^ 64 \<le> unat d * 2 ^ 64"
      using Cons.prems by (intro mult_le_mono1) simp
    with cur unat_u64_less [of a] show ?thesis by (simp del: unat_u64_less)
  qed
  then have ql: "unat (cur div ucast d) < 2 ^ 64"
    unfolding q by (simp add: less_mult_imp_div_less mult.commute)
  have "unat (cur mod ucast d) < unat d"
    using assms(1) by (simp add: m)
  from Cons.IH [OF this] obtain limbs where tl: "div_u64_loop d (cur mod ucast d) as = (Ok limbs :: ('e, _) res)"
    "length limbs = length as"
    "limbs_val limbs = (unat cur mod unat d * ?B + limbs_val as) div unat d"
    by (auto simp: m)
  have "unat (ucast (cur div ucast d) :: u64) = unat cur div unat d"
    using ql by (simp add: unsigned_ucast_eq take_bit_nat_eq_self q)
  moreover have "(unat r * 2 ^ (64 * length (a # as)) + limbs_val (a # as)) div unat d =
      unat cur div unat d * ?B + (unat cur mod unat d * ?B + limbs_val as) div unat d"
  proof -
    have "unat r * 2 ^ (64 * length (a # as)) + limbs_val (a # as) = unat cur * ?B + limbs_val as"
      by (simp add: cur algebra_simps power_add)
    also have "\<dots> = (unat cur div unat d * unat d + unat cur mod unat d) * ?B + limbs_val as"
      by simp
    also have "\<dots> = unat d * (unat cur div unat d * ?B) + (unat cur mod unat d * ?B + limbs_val as)"
      by (simp only: algebra_simps)
    finally show ?thesis
      using assms(1) by (simp only: div_mult_self4)
  qed
  ultimately show ?case
    using tl ql by (simp add: cur_def [symmetric] Let_def)
qed

lemma div_u64_spec:
  assumes "wf_u256 x" and "d \<noteq> 0"
  shows "\<exists>z. div_u64 x d = Ok z \<and> wf_u256 z \<and> limbs_val z = limbs_val x div unat d"
  using div_u64_loop_spec [of d 0 x] assms
  by (auto simp: div_u64_def wf_u256_def word_gt_0 unat_gt_0)

lemma bit_limb_or_zero:
  assumes "wf_u256 x" and "n < 64"
  shows "bit (limb_or_zero x (Some i)) n \<longleftrightarrow> i < 4 \<and> bit (limbs_val x) (64 * (3 - i) + n)"
proof (cases "i < 4")
  case True
  then have "(64 * (3 - i) + n) div 64 = 3 - i" and "(64 * (3 - i) + n) mod 64 = n"
    using assms(2) by simp_all
  with True assms show ?thesis
    by (auto simp: limb_or_zero_def get_def wf_u256_def bit_limbs_val)
next
  case False
  with assms show ?thesis by (simp add: limb_or_zero_def get_def wf_u256_def)
qed

lemma wf_map_upt [simp]: "wf_u256 (map f [0..<4])"
  by (simp add: wf_u256_def)

lemma u256_bit_eqI:
  assumes "wf_u256 x" and "\<And>n. n < 256 \<Longrightarrow> bit (limbs_val x) n \<longleftrightarrow> bit m n" and "m < 2 ^ 256"
  shows "limbs_val x = m"
proof (rule bit_eqI)
  fix n
  show "bit (limbs_val x) n \<longleftrightarrow> bit m n"
  proof (cases "n < 256")
    case True
    then show ?thesis by (rule assms(2))
  next
    case False
    have "\<not> bit k n" if "k < 2 ^ 256" for k :: nat
      using that False by (metis bit_take_bit_iff take_bit_nat_eq_self)
    with assms(3) u256_val_less [OF assms(1)] show ?thesis by blast
  qed
qed

lemma bit_map_upt:
  assumes "n < 256"
  shows "bit (limbs_val (map f [0..<4])) n \<longleftrightarrow> bit (f (3 - n div 64)) (n mod 64)"
  using assms by (simp add: bit_limbs_val)

lemma u256_shl_spec:
  assumes "wf_u256 x" and "s < 256"
  shows "\<exists>z. u256_shl x s = (Ok z :: ('e, _) res) \<and> wf_u256 z \<and>
    limbs_val z = (limbs_val x * 2 ^ s) mod 2 ^ 256"
proof -
  define ls bs where "ls = s div 64" and "bs = s mod 64"
  define f where "f = (\<lambda>i. if bs = 0 then limb_or_zero x (Some (i + ls))
      else push_bit bs (limb_or_zero x (Some (i + ls)))
        OR drop_bit (64 - bs) (limb_or_zero x (Some (i + ls + 1))))"
  have s: "s = 64 * ls + bs" "bs < 64" "ls < 4"
    using assms(2) by (auto simp: ls_def bs_def)
  have "limbs_val (map f [0..<4]) = (limbs_val x * 2 ^ s) mod 2 ^ 256"
  proof (rule u256_bit_eqI)
    fix n :: nat
    assume n: "n < 256"
    define q r where "q = n div 64" and "r = n mod 64"
    have nr: "n = 64 * q + r" "r < 64" "q < 4"
      using n by (auto simp: q_def r_def)
    have rhs: "bit ((limbs_val x * 2 ^ s) mod 2 ^ 256) n \<longleftrightarrow> s \<le> n \<and> bit (limbs_val x) (n - s)"
      using n by (simp only: take_bit_eq_mod [symmetric] push_bit_eq_mult [symmetric]
        bit_take_bit_iff bit_push_bit_iff) auto
    have "bit (f (3 - q)) r \<longleftrightarrow> s \<le> n \<and> bit (limbs_val x) (n - s)"
    proof (cases "bs \<le> r")
      case True
      have "bit (limb_or_zero x (Some (3 - q + ls))) (r - bs) \<longleftrightarrow> ls \<le> q \<and> bit (limbs_val x) (64 * (q - ls) + (r - bs))"
        using nr s by (auto simp: bit_limb_or_zero [OF assms(1)])
      moreover have "ls \<le> q \<Longrightarrow> n - s = 64 * (q - ls) + (r - bs)"
        using True s nr by (simp add: algebra_simps)
      moreover have "s \<le> n \<longleftrightarrow> ls \<le> q"
        using True s nr by linarith
      moreover have "\<not> bit (limb_or_zero x (Some (3 - q + ls + 1))) (64 - bs + r)" if "bs \<noteq> 0"
        using True by (auto dest: bit_imp_le_length)
      ultimately show ?thesis
        using True nr s by (auto simp: f_def bit_or_iff bit_push_bit_iff bit_drop_bit_eq ac_simps)
    next
      case False
      have "bit (limb_or_zero x (Some (3 - q + ls + 1))) (64 - bs + r) \<longleftrightarrow>
          ls + 1 \<le> q \<and> bit (limbs_val x) (64 * (q - (ls + 1)) + (64 - bs + r))"
        using nr s False by (auto simp: bit_limb_or_zero [OF assms(1)])
      moreover have "ls + 1 \<le> q \<Longrightarrow> n - s = 64 * (q - (ls + 1)) + (64 - bs + r)"
        using False s nr by (simp add: algebra_simps)
      moreover have "s \<le> n \<longleftrightarrow> ls + 1 \<le> q"
        using False s nr by linarith
      ultimately show ?thesis
        using False nr s by (auto simp: f_def bit_or_iff bit_push_bit_iff bit_drop_bit_eq ac_simps)
    qed
    with rhs show "bit (limbs_val (map f [0..<4])) n \<longleftrightarrow> bit ((limbs_val x * 2 ^ s) mod 2 ^ 256) n"
      by (simp only: bit_map_upt [OF n] q_def r_def)
  qed simp_all
  moreover have "u256_shl x s = (Ok (map f [0..<4]) :: ('e, _) res)"
    using assms(2) by (simp add: u256_shl_def f_def ls_def bs_def Let_def del: upt_rec_numeral)
  ultimately show ?thesis
    using wf_map_upt by blast
qed


lemma u256_shr_spec:
  assumes "wf_u256 x" and "s < 256"
  shows "\<exists>z. u256_shr x s = (Ok z :: ('e, _) res) \<and> wf_u256 z \<and> limbs_val z = limbs_val x div 2 ^ s"
proof -
  define ls bs where "ls = s div 64" and "bs = s mod 64"
  define f where "f = (\<lambda>i. if bs = 0 then limb_or_zero x (checked_sub i ls)
      else drop_bit bs (limb_or_zero x (checked_sub i ls))
        OR push_bit (64 - bs) (limb_or_zero x (checked_sub i (ls + 1))))"
  have s: "s = 64 * ls + bs" "bs < 64" "ls < 4"
    using assms(2) by (auto simp: ls_def bs_def)
  have src: "bit (limb_or_zero x (checked_sub (3 - q) k)) n \<longleftrightarrow>
      q + k \<le> 3 \<and> bit (limbs_val x) (64 * (q + k) + n)" if "q < 4" "n < 64" for q k n
  proof (cases "k \<le> 3 - q")
    case True
    with that show ?thesis
      by (auto simp: checked_sub_def bit_limb_or_zero [OF assms(1)])
  next
    case False
    with that have "\<not> q + k \<le> 3" by linarith
    with False show ?thesis by (simp add: checked_sub_def limb_or_zero_def)
  qed
  have high: "\<not> bit (limbs_val x) n" if "256 \<le> n" for n
    using that assms(1) by (simp add: bit_limbs_val wf_u256_def)
  have "limbs_val (map f [0..<4]) = limbs_val x div 2 ^ s"
  proof (rule u256_bit_eqI)
    fix n :: nat
    assume n: "n < 256"
    define q r where "q = n div 64" and "r = n mod 64"
    have nr: "n = 64 * q + r" "r < 64" "q < 4"
      using n by (auto simp: q_def r_def)
    have rhs: "bit (limbs_val x div 2 ^ s) n \<longleftrightarrow> bit (limbs_val x) (s + n)"
      by (simp add: bit_drop_bit_eq flip: drop_bit_eq_div)
    have "bit (f (3 - q)) r \<longleftrightarrow> bit (limbs_val x) (s + n)"
    proof (cases "bs + r < 64")
      case True
      have "s + n = 64 * (q + ls) + (bs + r)"
        using s nr by simp
      then have "bit (limb_or_zero x (checked_sub (3 - q) ls)) (bs + r) \<longleftrightarrow> bit (limbs_val x) (s + n)"
        using src [OF nr(3) True, of ls] high [of "s + n"] by fastforce
      with True show ?thesis
        by (auto simp: f_def bit_or_iff bit_push_bit_iff bit_drop_bit_eq)
    next
      case False
      then have lt: "r - (64 - bs) < 64" using nr by simp
      have "s + n = 64 * (q + (ls + 1)) + (r - (64 - bs))"
        using s nr False by simp
      then have "bit (limb_or_zero x (checked_sub (3 - q) (ls + 1))) (r - (64 - bs)) \<longleftrightarrow>
          bit (limbs_val x) (s + n)"
        using src [OF nr(3) lt, of "ls + 1"] high [of "s + n"] by fastforce
      moreover have "bs \<noteq> 0" using False nr by simp
      moreover have "\<not> bit (limb_or_zero x (checked_sub (3 - q) ls)) (bs + r)"
        using False by (auto dest: bit_imp_le_length)
      ultimately show ?thesis
        using False nr by (auto simp: f_def bit_or_iff bit_push_bit_iff bit_drop_bit_eq)
    qed
    with rhs show "bit (limbs_val (map f [0..<4])) n \<longleftrightarrow> bit (limbs_val x div 2 ^ s) n"
      by (simp only: bit_map_upt [OF n] q_def r_def)
  next
    show "limbs_val x div 2 ^ s < 2 ^ 256"
      using u256_val_less [OF assms(1)] div_le_dividend [of "limbs_val x" "2 ^ s"] by linarith
  qed simp
  moreover have "u256_shr x s = (Ok (map f [0..<4]) :: ('e, _) res)"
    using assms(2) by (simp add: u256_shr_def f_def ls_def bs_def Let_def del: upt_rec_numeral)
  ultimately show ?thesis
    using wf_map_upt by blast
qed

lemma u256_not_spec:
  assumes "wf_u256 x"
  shows "wf_u256 (u256_not x) \<and> limbs_val (u256_not x) = 2 ^ 256 - 1 - limbs_val x"
proof -
  have "limbs_val (map NOT xs) + limbs_val xs + 1 = 2 ^ (64 * length xs)" for xs
  proof (induction xs)
    case Nil
    then show ?case by simp
  next
    case (Cons w ws)
    have "unat (NOT w) + unat w + 1 = 2 ^ 64"
    proof -
      have "NOT w = - 1 - w" by (simp add: not_eq_complement)
      moreover have "unat (- 1 - w) = unat (- 1 :: u64) - unat w"
        by (rule unat_sub) simp
      ultimately show ?thesis
        using unat_u64_less [of w] by (simp add: unsigned_minus_1_eq_mask mask_eq_exp_minus_1)
    qed
    then have "(unat (NOT w) + unat w + 1) * 2 ^ (64 * length ws) = 2 ^ 64 * 2 ^ (64 * length ws)"
      by simp
    with Cons.IH show ?case
      by (simp add: algebra_simps power_add)
  qed
  from this [of x] assms show ?thesis
    by (simp add: u256_not_def wf_u256_def)
qed

lemma leading_zeros_spec:
  assumes "w \<noteq> 0"
  shows "leading_zeros w < 64 \<and> 2 ^ (63 - leading_zeros w) \<le> unat w \<and> unat w < 2 ^ (64 - leading_zeros w)"
proof -
  let ?P = "\<lambda>i. \<not> bit w i" and ?xs = "rev [0..<64]"
  let ?z = "length (takeWhile ?P ?xs)"
  obtain i where i: "bit w i"
    using assms bit_eqI [of w 0] by auto
  then have "i < 64" by (auto dest: bit_imp_le_length)
  have ex: "\<exists>x \<in> set ?xs. \<not> ?P x" using i \<open>i < 64\<close> by auto
  then have z: "?z < 64"
    using takeWhile_eq_all_conv [of ?P ?xs] length_takeWhile_le [of ?P ?xs]
    by (metis diff_zero length_rev length_upt nat_less_le takeWhile_eq_take take_all_iff order_refl)
  have nth: "?xs ! k = 63 - k" if "k < 64" for k
    using that by (simp add: rev_nth)
  have "bit w (63 - ?z)"
    using nth_length_takeWhile [of ?P ?xs] z nth [of ?z] by simp
  then have "bit (unat w) (63 - ?z)"
    by (simp add: bit_unsigned_iff)
  then have lo: "2 ^ (63 - ?z) \<le> unat w"
    by (metis bit_take_bit_iff leI nat_less_le take_bit_nat_eq_self)
  have no: "\<not> bit w (63 - k)" if "k < ?z" for k
    using that z takeWhile_nth [of k ?P ?xs] nth [of k] set_takeWhileD [of _ ?P ?xs]
    by (metis less_trans nth_mem)
  have "unat w < 2 ^ (64 - ?z)"
  proof -
    have "take_bit (64 - ?z) (unat w) = unat w"
    proof (rule bit_eqI)
      fix n
      have "n < 64 - ?z" if "bit (unat w) n"
      proof (rule ccontr)
        assume "\<not> n < 64 - ?z"
        moreover have "n < 64" "bit w n"
          using that by (auto simp: bit_unsigned_iff dest: bit_imp_le_length)
        ultimately have "63 - n < ?z" "63 - (63 - n) = n" by linarith+
        with no [of "63 - n"] \<open>bit w n\<close> show False by simp
      qed
      then show "bit (take_bit (64 - ?z) (unat w)) n = bit (unat w) n"
        by (auto simp: bit_take_bit_iff)
    qed
    then show ?thesis
      by (metis take_bit_nat_less_exp)
  qed
  with z lo show ?thesis by (simp add: leading_zeros_def)
qed

lemma bits_loop_spec:
  "length xs + index = 4 \<Longrightarrow>
    (if limbs_val xs = 0 then bits_loop index xs = 0
     else 0 < bits_loop index xs \<and>
       2 ^ (bits_loop index xs - 1) \<le> limbs_val xs \<and> limbs_val xs < 2 ^ bits_loop index xs)"
proof (induction xs arbitrary: index)
  case Nil
  then show ?case by simp
next
  case (Cons w ws)
  show ?case
  proof (cases "w = 0")
    case True
    with Cons.prems Cons.IH [of "index + 1"] show ?thesis by (auto split: if_splits)
  next
    case False
    define z where "z = leading_zeros w"
    define k where "k = 64 * length ws"
    have z: "z < 64" "2 ^ (63 - z) \<le> unat w" "unat w < 2 ^ (64 - z)"
      using leading_zeros_spec [OF False] by (simp_all add: z_def)
    have b: "bits_loop index (w # ws) = k + (64 - z)"
      using False Cons.prems by (simp add: z_def k_def)
    have "2 ^ (63 - z) * 2 ^ k \<le> unat w * 2 ^ k"
      using z by simp
    then have lo: "2 ^ (k + (64 - z) - 1) \<le> limbs_val (w # ws)"
      using z(1) by (simp add: k_def power_add [symmetric] add.commute)
    have "(unat w + 1) * 2 ^ k \<le> 2 ^ (64 - z) * 2 ^ k"
      using z by (intro mult_le_mono1) simp
    then have hi: "limbs_val (w # ws) < 2 ^ (k + (64 - z))"
      using limbs_val_less [of ws] by (simp add: k_def power_add algebra_simps)
    have "limbs_val (w # ws) \<noteq> 0"
      using lo by (metis le_zero_eq power_not_zero zero_neq_numeral)
    with lo hi b z(1) show ?thesis by simp
  qed
qed

lemma u256_bits_spec:
  assumes "wf_u256 x"
  shows "(limbs_val x = 0 \<longrightarrow> u256_bits x = 0) \<and>
    (limbs_val x \<noteq> 0 \<longrightarrow> 0 < u256_bits x \<and> 2 ^ (u256_bits x - 1) \<le> limbs_val x) \<and>
    limbs_val x < 2 ^ u256_bits x \<and> u256_bits x \<le> 256"
proof -
  have s: "if limbs_val x = 0 then u256_bits x = 0
     else 0 < u256_bits x \<and> 2 ^ (u256_bits x - 1) \<le> limbs_val x \<and> limbs_val x < 2 ^ u256_bits x"
    using bits_loop_spec [of x 0] assms by (simp add: u256_bits_def wf_u256_def split: if_splits)
  have "u256_bits x \<le> 256" if "limbs_val x \<noteq> 0"
  proof (rule ccontr)
    assume "\<not> u256_bits x \<le> 256"
    then have "(2::nat) ^ 256 \<le> 2 ^ (u256_bits x - 1)"
      by (intro power_increasing) simp_all
    with s that u256_val_less [OF assms] show False by auto
  qed
  with s show ?thesis by (auto split: if_splits)
qed

lemma limbs_val_append: "limbs_val (xs @ ys) = limbs_val xs * 2 ^ (64 * length ys) + limbs_val ys"
  by (induction xs) (simp_all add: algebra_simps power_add)

lemma limbs_val_update:
  assumes "i < length xs"
  shows "limbs_val (xs[i := w]) + unat (xs ! i) * 2 ^ (64 * (length xs - 1 - i))
       = limbs_val xs + unat w * 2 ^ (64 * (length xs - 1 - i))"
proof -
  have "limbs_val (take i xs @ v # drop (Suc i) xs)
      = limbs_val (take i xs) * 2 ^ (64 * (length xs - i)) + unat v * 2 ^ (64 * (length xs - 1 - i))
        + limbs_val (drop (Suc i) xs)" for v
    using assms by (simp add: limbs_val_append Suc_diff_Suc)
  from this [of w] this [of "xs ! i"] show ?thesis
    using assms by (simp add: upd_conv_take_nth_drop id_take_nth_drop [symmetric])
qed

lemma set_bit_u256_spec:
  assumes "wf_u256 x" and "b < 256" and "\<not> bit (limbs_val x) b"
  shows "\<exists>z. set_bit_u256 x b = (Ok z :: ('e, _) res) \<and> wf_u256 z \<and> limbs_val z = limbs_val x + 2 ^ b"
proof -
  define i where "i = 3 - b div 64"
  define p :: u64 where "p = push_bit (b mod 64) 1"
  define w where "w = x ! i OR p"
  have i: "i < length x" "length x - 1 - i = b div 64" "length x = 4"
    using assms(1,2) by (auto simp: i_def wf_u256_def)
  have "\<not> bit (x ! i) (b mod 64)"
    using assms i by (simp add: bit_limbs_val i_def)
  then have "x ! i AND p = 0"
    by (intro bit_eqI) (auto simp: p_def bit_and_iff bit_push_bit_iff bit_1_iff bit_exp_iff)
  then have "uint (x ! i) AND uint p = 0"
    by (simp flip: unsigned_and_eq)
  then have "uint w = uint (x ! i) + uint p"
    using plus_and_or [of "uint (x ! i)" "uint p"] by (simp add: w_def unsigned_or_eq)
  then have "unat w = unat (x ! i) + unat p"
    by (simp only: unat_eq_nat_uint nat_add_distrib uint_ge_0)
  moreover have "unat p = 2 ^ (b mod 64)"
    by (simp only: p_def unsigned_push_bit_eq) (simp add: take_bit_of_exp)
  ultimately have "unat w * 2 ^ (64 * (b div 64)) = unat (x ! i) * 2 ^ (64 * (b div 64)) + 2 ^ b"
    by (simp add: algebra_simps power_add [symmetric])
  with limbs_val_update [OF i(1), of w] i have "limbs_val (x[i := w]) = limbs_val x + 2 ^ b"
    by simp
  moreover have "set_bit_u256 x b = (Ok (x[i := w]) :: ('e, _) res)"
    using assms(2) i by (simp add: set_bit_u256_def i_def w_def p_def get_def Let_def)
  ultimately show ?thesis
    using i by (simp add: wf_u256_def)
qed

lemma not_bit_dvd:
  assumes "2 ^ Suc s dvd (q :: nat)"
  shows "\<not> bit q s"
proof -
  obtain k where "q = 2 ^ Suc s * k" using assms by blast
  then have "q = push_bit (Suc s) k" by (simp add: push_bit_eq_mult algebra_simps)
  then show ?thesis by (simp only: bit_push_bit_iff) simp
qed

lemma div_loop_spec:
  assumes d: "wf_u256 d" "0 < limbs_val d"
    and "wf_u256 r" and "wf_u256 q" and "0 < n \<longrightarrow> limbs_val d * 2 ^ (n - 1) < 2 ^ 256"
    and "limbs_val r < limbs_val d * 2 ^ n" and "2 ^ n dvd limbs_val q" and "n \<le> 256"
  shows "\<exists>r' q'. div_loop n d r q = (Ok (r', q') :: ('e, _) res) \<and> wf_u256 r' \<and> wf_u256 q' \<and>
    limbs_val r' < limbs_val d \<and>
    limbs_val q' * limbs_val d + limbs_val r' = limbs_val q * limbs_val d + limbs_val r"
  using assms(3-8)
proof (induction n arbitrary: r q)
  case 0
  then show ?case by simp
next
  case (Suc s)
  have s: "s < 256" and ds: "limbs_val d * 2 ^ s < 2 ^ 256" using Suc.prems by simp_all
  obtain z where z: "u256_shl d s = (Ok z :: ('e, _) res)" "wf_u256 z"
      "limbs_val z = (limbs_val d * 2 ^ s) mod 2 ^ 256"
    using u256_shl_spec [OF d(1) s] by blast
  have zv: "limbs_val z = limbs_val d * 2 ^ s" using z(3) ds by simp
  have le: "u256_le z r \<longleftrightarrow> limbs_val d * 2 ^ s \<le> limbs_val r"
    using u256_le_val [of z r] z(2) Suc.prems(1) zv by (simp add: wf_u256_def)
  have next_shift: "0 < s \<longrightarrow> limbs_val d * 2 ^ (s - 1) < 2 ^ 256"
    using ds by (cases s) simp_all
  show ?case
  proof (cases "limbs_val d * 2 ^ s \<le> limbs_val r")
    case True
    obtain r1 where r1: "u256_sub r z = (Ok r1 :: ('e, _) res)" "wf_u256 r1"
        "limbs_val r1 = limbs_val r - limbs_val d * 2 ^ s"
      using u256_sub_spec [OF Suc.prems(1) z(2)] True zv by auto
    obtain q1 where q1: "set_bit_u256 q s = (Ok q1 :: ('e, _) res)" "wf_u256 q1"
        "limbs_val q1 = limbs_val q + 2 ^ s"
      using set_bit_u256_spec [OF Suc.prems(2) s not_bit_dvd] Suc.prems(5) by blast
    have "2 ^ s dvd limbs_val q1"
      using Suc.prems(5) q1(3) by (simp add: power_Suc dvd_mult_right)
    moreover have "limbs_val r1 < limbs_val d * 2 ^ s"
      using Suc.prems(4) r1(3) True by simp
    ultimately obtain r' q' where "div_loop s d r1 q1 = (Ok (r', q') :: ('e, _) res)" "wf_u256 r'" "wf_u256 q'"
        "limbs_val r' < limbs_val d"
        "limbs_val q' * limbs_val d + limbs_val r' = limbs_val q1 * limbs_val d + limbs_val r1"
      using Suc.IH [OF r1(2) q1(2) next_shift] s by auto
    moreover have "limbs_val q1 * limbs_val d + limbs_val r1 = limbs_val q * limbs_val d + limbs_val r"
      using True by (simp add: q1(3) r1(3) algebra_simps)
    ultimately show ?thesis
      using True by (simp add: z(1) le r1(1) q1(1))
  next
    case False
    then have "\<exists>r' q'. div_loop s d r q = (Ok (r', q') :: ('e, _) res) \<and> wf_u256 r' \<and> wf_u256 q' \<and>
        limbs_val r' < limbs_val d \<and>
        limbs_val q' * limbs_val d + limbs_val r' = limbs_val q * limbs_val d + limbs_val r"
      using Suc.IH [OF Suc.prems(1,2) next_shift] Suc.prems(5) s by (simp add: dvd_mult_right)
    with False show ?thesis by (simp add: z(1) le)
  qed
qed

lemma U256_ZERO_spec [simp]: "wf_u256 U256_ZERO" "limbs_val U256_ZERO = 0"
  by (simp_all add: U256_ZERO_def wf_u256_def)

lemma U256_ONE_spec [simp]: "wf_u256 U256_ONE" "limbs_val U256_ONE = 1"
  by (simp_all add: U256_ONE_def wf_u256_def)

lemma from_u64_spec [simp]: "wf_u256 (from_u64 v)" "limbs_val (from_u64 v) = unat v"
  by (simp_all add: from_u64_def wf_u256_def)

lemma is_zero_val: "wf_u256 x \<Longrightarrow> is_zero x \<longleftrightarrow> limbs_val x = 0"
  using limbs_val_inj [of x U256_ZERO] by (auto simp: is_zero_def wf_u256_def U256_ZERO_def)

lemma u256_div_spec:
  assumes x: "wf_u256 x" and d: "wf_u256 d" "limbs_val d \<noteq> 0"
  shows "\<exists>z. u256_div x d = (Ok z :: ('e, _) res) \<and> wf_u256 z \<and> limbs_val z = limbs_val x div limbs_val d"
proof -
  let ?xb = "u256_bits x" and ?db = "u256_bits d"
  note bx = u256_bits_spec [OF x] and bd = u256_bits_spec [OF d(1)]
  show ?thesis
  proof (cases "?xb < ?db")
    case True
    have "limbs_val x < 2 ^ ?xb" using bx by simp
    also have "\<dots> \<le> 2 ^ (?db - 1)" using True by (intro power_increasing) auto
    also have "\<dots> \<le> limbs_val d" using bd d(2) by blast
    finally show ?thesis
      using True d by (simp add: u256_div_def is_zero_val)
  next
    case False
    define n where "n = ?xb - ?db + 1"
    have n: "0 < n" "n \<le> 256" "n - 1 + ?db = ?xb" using False bx bd d(2) by (auto simp: n_def)
    have "limbs_val d * 2 ^ (n - 1) < 2 ^ ?db * 2 ^ (n - 1)" using bd by simp
    also have "\<dots> \<le> 2 ^ 256"
      using bx n(3) by (metis add.commute one_le_numeral power_add power_increasing)
    finally have fits: "0 < n \<longrightarrow> limbs_val d * 2 ^ (n - 1) < 2 ^ 256" by simp
    have "limbs_val x < 2 ^ ?xb" using bx by simp
    also have "(2 :: nat) ^ ?xb = 2 ^ (?db - 1) * 2 ^ n"
    proof -
      have "?xb = ?db - 1 + n" using n bd d(2) by auto
      then show ?thesis by (simp add: power_add)
    qed
    also have "\<dots> \<le> limbs_val d * 2 ^ n" using bd d(2) by simp
    finally have "limbs_val x < limbs_val d * 2 ^ n" .
    then obtain r q where "div_loop n d x U256_ZERO = (Ok (r, q) :: ('e, _) res)" "wf_u256 r" "wf_u256 q"
        "limbs_val r < limbs_val d" "limbs_val q * limbs_val d + limbs_val r = limbs_val x"
      using div_loop_spec [OF d(1) _ x U256_ZERO_spec(1) fits] d(2) n(2) by auto
    moreover from this have "limbs_val x div limbs_val d = limbs_val q"
      using d(2) by (metis add.commute div_less div_mult_self3 add_0_right)
    moreover have "u256_div x d = and_then (div_loop n d x U256_ZERO)
        (\<lambda>(r, q). ensure (u256_less r d) (Ok q) :: ('e, _) res)"
      using False d by (simp del: div_loop.simps add: u256_div_def is_zero_val n_def Let_def)
    ultimately show ?thesis
      using d by (simp add: u256_less_val wf_u256_def)
  qed
qed

lemma low_u64_spec:
  assumes "wf_u256 x"
  shows "unat (low_u64 x) = limbs_val x mod 2 ^ 64"
proof -
  obtain a b c d where "x = [a, b, c, d]"
    using assms by (auto simp: wf_u256_def length_Suc_conv numeral_eq_Suc)
  then show ?thesis
    using unat_u64_less [of d] by (simp add: low_u64_def mod_add_eq [symmetric] mod_mult_self1)
qed

lemma bytes_val_less: "bytes_val bs < 256 ^ length bs"
proof (induction bs)
  case Nil
  then show ?case by simp
next
  case (Cons b bs)
  have "unat b < 256" using unsigned_less [of b] by simp
  then have "(unat b + 1) * 256 ^ length bs \<le> 256 * 256 ^ length bs"
    by (intro mult_le_mono1) linarith
  then have "unat b * 256 ^ length bs + 256 ^ length bs \<le> 256 * 256 ^ length bs"
    by (simp only: add_mult_distrib mult_1)
  then have "unat b * 256 ^ length bs + bytes_val bs < 256 * 256 ^ length bs"
    using Cons.IH by linarith
  then show ?case by simp
qed

lemma bytes_val_append: "bytes_val (xs @ ys) = bytes_val xs * 256 ^ length ys + bytes_val ys"
  by (induction xs) (simp_all add: algebra_simps power_add)

lemma unat_u64_from_be_bytes:
  assumes "length bs = 8"
  shows "unat (u64_from_be_bytes bs) = bytes_val bs"
  using bytes_val_less [of bs] assms
  by (simp add: u64_from_be_bytes_def unsigned_of_nat take_bit_nat_eq_self)

lemma as_chunks_spec:
  "length bs = 8 * n \<Longrightarrow> length (as_chunks 8 bs) = n \<and> (\<forall>c \<in> set (as_chunks 8 bs). length c = 8) \<and>
    concat (as_chunks 8 bs) = bs"
proof (induction n arbitrary: bs)
  case 0
  then show ?case by (simp add: as_chunks.simps [of 8])
next
  case (Suc n)
  from Suc.IH [of "drop 8 bs"] Suc.prems show ?case
    by (simp add: as_chunks.simps [of 8 bs])
qed

lemma limbs_val_chunks:
  "\<forall>c \<in> set cs. length c = 8 \<Longrightarrow> limbs_val (map u64_from_be_bytes cs) = bytes_val (concat cs)"
proof (induction cs)
  case Nil
  then show ?case by simp
next
  case (Cons c cs)
  have "length (concat cs) = 8 * length cs"
    using Cons.prems by (induction cs) auto
  then show ?case
    using Cons by (simp add: bytes_val_append unat_u64_from_be_bytes power_mult)
qed

lemma from_be_bytes_spec:
  assumes "length bs = 32"
  shows "wf_u256 (from_be_bytes bs) \<and> limbs_val (from_be_bytes bs) = bytes_val bs"
  using as_chunks_spec [of bs 4] assms
  by (simp add: from_be_bytes_def wf_u256_def limbs_val_chunks)

lemma unat_byte_of_u64: "unat (ucast (drop_bit k (w :: u64)) :: u8) = unat w div 2 ^ k mod 256"
  by (simp only: unsigned_ucast_eq unsigned_take_bit_eq unat_drop_bit_eq)
    (simp add: drop_bit_eq_div take_bit_eq_mod)

lemma bytes_val_be_bytes:
  "bytes_val (map (\<lambda>i. ucast (drop_bit (8 * (m - Suc i)) (w :: u64))) [0..<m]) = unat w mod 256 ^ m"
proof (induction m)
  case 0
  then show ?case by simp
next
  case (Suc m)
  have "[0..<Suc m] = 0 # map Suc [0..<m]"
    by (simp add: map_Suc_upt upt_conv_Cons del: upt_Suc)
  then have "bytes_val (map (\<lambda>i. ucast (drop_bit (8 * (Suc m - Suc i)) w)) [0..<Suc m])
      = unat w div 256 ^ m mod 256 * 256 ^ m + unat w mod 256 ^ m"
    using Suc.IH by (simp add: unat_byte_of_u64 comp_def power_mult del: upt_Suc)
  also have "\<dots> = unat w mod (256 ^ m * 256)"
    by (subst mod_mult2_eq) (rule arg_cong2 [OF mult.commute refl])
  finally show ?case by (simp only: power_Suc mult.commute)
qed

lemma length_u64_to_be_bytes [simp]: "length (u64_to_be_bytes w) = 8"
  by (simp add: u64_to_be_bytes_def)

lemma bytes_val_u64_to_be_bytes: "bytes_val (u64_to_be_bytes w) = unat w"
proof -
  have "u64_to_be_bytes w = map (\<lambda>i. ucast (drop_bit (8 * (8 - Suc i)) w)) [0..<8]"
    by (simp add: u64_to_be_bytes_def)
  then show ?thesis
    using bytes_val_be_bytes [of 8 w] unat_u64_less [of w] by (simp only:) simp
qed

lemma to_be_bytes_spec:
  assumes "wf_u256 x"
  shows "length (to_be_bytes x) = 32 \<and> bytes_val (to_be_bytes x) = limbs_val x"
proof -
  have "length (to_be_bytes ws) = 8 * length ws \<and> bytes_val (to_be_bytes ws) = limbs_val ws" for ws
    by (induction ws)
      (auto simp: to_be_bytes_def bytes_val_append bytes_val_u64_to_be_bytes power_mult)
  from this [of x] assms show ?thesis by (simp add: wf_u256_def)
qed

lemma from_to_be_bytes: "wf_u256 x \<Longrightarrow> from_be_bytes (to_be_bytes x) = x"
  using to_be_bytes_spec [of x] from_be_bytes_spec [of "to_be_bytes x"] limbs_val_inj
  by (auto simp: wf_u256_def)

section \<open>Properties\<close>

text \<open>C21: long division on limbs is division: for a non-zero divisor the shift-and-subtract
  loop passes every assertion and returns the floor of the quotient of the two numbers.\<close>

theorem u256_div_exact:
  assumes "wf_u256 x" and "wf_u256 d" and "limbs_val d \<noteq> 0"
  shows "\<exists>z. u256_div x d = (Ok z :: ('e, _) res) \<and> wf_u256 z \<and> limbs_val z = limbs_val x div limbs_val d"
  using u256_div_spec [OF assms] .

theorem u256_div_exact_witness:
  "\<exists>z. u256_div [0, 7, 0, 0] [0, 0, 2, 1] = (Ok z :: (unit, _) res) \<and> wf_u256 z \<and>
     limbs_val z = limbs_val [0, 7, 0, 0] div limbs_val [0, 0, 2, 1]"
  by (rule u256_div_exact) (simp_all add: wf_u256_def)

end
