(* ===== verification/Compact_Target.thy ===== *)
theory Compact_Target
  imports Uint256
begin

text \<open>
  \<^verbatim>\<open>crates/consensus/src/header/target.rs\<close>: the compact \<open>nBits\<close> encoding of a target, the work a
  target proves, and the comparison of a block hash with it. \<open>Target\<close> and \<open>Work\<close> are the
  \<open>bitcoin\<close> crate's interchange types; the source only moves them through their 32 big-endian
  bytes and compares them as numbers, so they are modelled as those bytes.

  The lemmas state each rule over natural numbers: \<open>compact_value\<close> is the number Core's
  \<open>SetCompact\<close> documents, mantissa times a power of 256, and the limb computation decides it
  exactly, overflow included; the encoder writes the largest such number below its argument.
\<close>

section \<open>The model\<close>

type_synonym target_bytes = bytes

type_synonym work_bytes = bytes

type_synonym compact_target = u32

datatype target_error = Negative | Overflow | Zero | AbovePowLimit

abbreviation (input) SIGN_BIT :: "'a :: len word" where "SIGN_BIT \<equiv> 0x00800000"

abbreviation (input) MANTISSA_MASK :: "'a :: len word" where "MANTISSA_MASK \<equiv> 0x007fffff"

record compact =
  csize :: nat
  cword :: u32
  cnegative :: bool
  coverflow :: bool

definition split_compact :: "compact_target \<Rightarrow> compact" where
  "split_compact bits =
     (let size = unat (drop_bit 24 bits);
          word = bits AND MANTISSA_MASK;
          word = (if size \<le> 3 then drop_bit (8 * (3 - size)) word else word)
      in \<lparr> csize = size, cword = word,
           cnegative = (word \<noteq> 0 \<and> bits AND SIGN_BIT \<noteq> 0),
           coverflow = (word \<noteq> 0 \<and> (34 < size \<or> 0xff < word \<and> 33 < size \<or> 0xffff < word \<and> 32 < size)) \<rparr>)"

definition expand :: "compact \<Rightarrow> ('e, u256) res" where
  "expand c = ensure (\<not> coverflow c)
     (if cword c = 0 then Ok U256_ZERO
      else if csize c \<le> 3 then Ok (from_u64 (ucast (cword c)))
      else let shift = 8 * (csize c - 3)
           in ensure (shift \<le> 248) (u256_shl (from_u64 (ucast (cword c))) shift))"

definition div_ceil :: "nat \<Rightarrow> nat \<Rightarrow> nat" where
  "div_ceil a b = (a + b - 1) div b"

definition compress :: "u256 \<Rightarrow> ('e, u32) res" where
  "compress v =
     (let size = div_ceil (u256_bits v) 8
      in and_then
           (if size \<le> 3 then Ok (push_bit (8 * (3 - size)) (low_u64 v))
            else and_then (u256_shr v (8 * (size - 3))) (\<lambda>shifted. Ok (low_u64 shifted)))
         (\<lambda>compact. ensure (compact \<le> 0x00ffffff)
           (let (compact, size) =
                  (if compact AND SIGN_BIT \<noteq> 0 then (drop_bit 8 compact, size + 1) else (compact, size))
            in ensure (compact AND NOT MANTISSA_MASK = 0)
                 (ensure (size < 256)
                   (ensure (unat compact < 2 ^ 32)
                     (Ok (ucast compact OR push_bit 24 (word_of_nat size))))))))"

definition target_to_uint :: "target_bytes \<Rightarrow> u256" where
  "target_to_uint t = from_be_bytes t"

definition uint_to_target :: "u256 \<Rightarrow> target_bytes" where
  "uint_to_target v = to_be_bytes v"

definition decode_target :: "compact_target \<Rightarrow> target_bytes \<Rightarrow> (target_error, target_bytes) res" where
  "decode_target bits pow_limit =
     (let c = split_compact bits
      in if cnegative c then Err Negative
         else if coverflow c then Err Overflow
         else and_then (expand c) (\<lambda>v.
           if is_zero v then Err Zero
           else if u256_less (target_to_uint pow_limit) v then Err AbovePowLimit
           else let target = uint_to_target v
                in ensure (0 < bytes_val target)
                     (ensure (bytes_val target \<le> bytes_val pow_limit) (Ok target))))"

definition encode_target :: "target_bytes \<Rightarrow> ('e, compact_target) res" where
  "encode_target target =
     and_then (compress (target_to_uint target)) (\<lambda>encoded.
       ensure (cword (split_compact encoded) \<le> MANTISSA_MASK) (Ok encoded))"

definition block_work :: "compact_target \<Rightarrow> ('e, work_bytes) res" where
  "block_work bits =
     (let c = split_compact bits
      in if cnegative c \<or> coverflow c then Ok (replicate 32 0)
         else and_then (expand c) (\<lambda>target.
           if is_zero target then Ok (replicate 32 0)
           else and_then (expect (u256_checked_add target U256_ONE)) (\<lambda>plus_one.
                and_then (u256_div (u256_not target) plus_one) (\<lambda>quot.
                and_then (expect (u256_checked_add quot U256_ONE)) (\<lambda>work.
                  ensure (\<not> is_zero work) (Ok (to_be_bytes work)))))))"

definition hash_meets_target :: "bytes \<Rightarrow> target_bytes \<Rightarrow> bool" where
  "hash_meets_target hash target \<longleftrightarrow> u256_le (from_le_bytes hash) (target_to_uint target)"

section \<open>The number a compact target names\<close>

text \<open>Core's description of the encoding: a sign-less 23-bit mantissa scaled by the size byte.\<close>

definition compact_size :: "compact_target \<Rightarrow> nat" where
  "compact_size bits = unat bits div 2 ^ 24"

definition compact_mantissa :: "compact_target \<Rightarrow> nat" where
  "compact_mantissa bits = unat bits mod 2 ^ 23"

definition compact_value :: "compact_target \<Rightarrow> nat" where
  "compact_value bits =
     (if compact_size bits \<le> 3 then compact_mantissa bits div 256 ^ (3 - compact_size bits)
      else compact_mantissa bits * 256 ^ (compact_size bits - 3))"

definition compact_negative :: "compact_target \<Rightarrow> bool" where
  "compact_negative bits \<longleftrightarrow> bit bits 23 \<and> compact_value bits \<noteq> 0"

lemma and_mask_word_mod:
  fixes w :: "'a :: len word"
  shows "unat (w AND mask n) = unat w mod 2 ^ n"
  by (simp only: take_bit_eq_mask [symmetric] unsigned_take_bit_eq) (rule take_bit_eq_mod)

lemma and_sign_bit: "(w :: 'a :: len word) AND 2 ^ n \<noteq> 0 \<longleftrightarrow> bit w n"
  by (metis and_exp_eq_0_iff_not_bit)

lemma unat_drop_24: "unat (drop_bit 24 bits) = compact_size bits"
  by (subst unat_drop_bit_eq) (simp add: compact_size_def drop_bit_eq_div)

lemma csize_split [simp]: "csize (split_compact bits) = compact_size bits"
  by (simp add: split_compact_def Let_def unat_drop_24)

lemma compact_size_less: "compact_size bits < 256"
  using unsigned_less [of bits, where 'a = nat] by (simp add: compact_size_def less_mult_imp_div_less)

lemma compact_mantissa_less: "compact_mantissa bits < 2 ^ 23"
  by (simp add: compact_mantissa_def)

lemma unat_cword:
  "unat (cword (split_compact bits)) =
     (if compact_size bits \<le> 3 then compact_mantissa bits div 256 ^ (3 - compact_size bits)
      else compact_mantissa bits)"
proof -
  have m: "unat (bits AND 0x7fffff) = compact_mantissa bits"
    using and_mask_word_mod [of bits 23] by (simp add: compact_mantissa_def mask_eq_exp_minus_1)
  have "unat (drop_bit (8 * k) (bits AND 0x7fffff)) = compact_mantissa bits div 256 ^ k" for k
    by (subst unat_drop_bit_eq) (simp only: m drop_bit_eq_div power_mult, simp)
  then show ?thesis
    unfolding split_compact_def Let_def unat_drop_24 by (simp add: m)
qed

lemma cnegative_split: "cnegative (split_compact bits) = compact_negative bits"
proof -
  have "cnegative (split_compact bits) \<longleftrightarrow> cword (split_compact bits) \<noteq> 0 \<and> bit bits 23"
    using and_sign_bit [of bits 23] by (simp add: split_compact_def Let_def)
  moreover have "cword (split_compact bits) \<noteq> 0 \<longleftrightarrow> compact_value bits \<noteq> 0"
    by (simp add: compact_value_def flip: unat_eq_0) (simp add: unat_cword)
  ultimately show ?thesis
    by (auto simp: compact_negative_def)
qed

lemma mult_power_256_ge:
  fixes m :: nat
  assumes "m < 2 ^ 23"
  shows "2 ^ 256 \<le> m * 256 ^ k \<longleftrightarrow> m \<noteq> 0 \<and> (31 < k \<or> 255 < m \<and> 30 < k \<or> 65535 < m \<and> 29 < k)"
proof -
  have "2 ^ 256 \<le> m * 256 ^ k" if "m \<noteq> 0" "32 \<le> k"
    using that power_increasing [of 32 k "256 :: nat"] mult_le_mono [of 1 m "256 ^ 32" "256 ^ k"] by simp
  moreover have "m * 256 ^ k < 2 ^ 256" if "k \<le> 29"
    using that assms power_increasing [of k 29 "256 :: nat"]
      mult_less_le_imp_less [of m "2 ^ 23" "256 ^ k" "256 ^ 29"] by simp
  moreover have "k \<le> 29 \<or> k = 30 \<or> k = 31 \<or> 32 \<le> k" by linarith
  ultimately show ?thesis
    by (cases "m = 0"; elim disjE) (use assms in \<open>auto simp: not_le\<close>)
qed

lemma coverflow_split: "coverflow (split_compact bits) \<longleftrightarrow> 2 ^ 256 \<le> compact_value bits"
proof -
  let ?w = "cword (split_compact bits)"
  have "coverflow (split_compact bits) \<longleftrightarrow> unat ?w \<noteq> 0 \<and>
     (34 < compact_size bits \<or> 0xff < unat ?w \<and> 33 < compact_size bits \<or> 0xffff < unat ?w \<and> 32 < compact_size bits)"
    unfolding unat_eq_0 split_compact_def Let_def unat_drop_24 word_less_nat_alt by simp
  moreover have "compact_mantissa bits div 256 ^ (3 - compact_size bits) < 2 ^ 256"
    using compact_mantissa_less [of bits] by (intro le_less_trans [OF div_le_dividend]) simp
  ultimately show ?thesis
    using mult_power_256_ge [OF compact_mantissa_less, of bits "compact_size bits - 3"]
    by (cases "compact_size bits \<le> 3") (auto simp: compact_value_def unat_cword)
qed

lemma expand_spec:
  assumes "compact_value bits < 2 ^ 256"
  shows "\<exists>v. expand (split_compact bits) = (Ok v :: ('e, _) res) \<and> wf_u256 v \<and> limbs_val v = compact_value bits"
proof -
  let ?c = "split_compact bits"
  have unc: "unat (ucast (cword ?c) :: u64) = unat (cword ?c)"
    by (simp add: unsigned_ucast_eq take_bit_nat_eq_self less_le_trans [OF unsigned_less])
  have no: "\<not> coverflow ?c" using assms by (simp add: coverflow_split)
  consider "cword ?c = 0" | "cword ?c \<noteq> 0" "compact_size bits \<le> 3" | "cword ?c \<noteq> 0" "3 < compact_size bits"
    by linarith
  then show ?thesis
  proof cases
    case 1
    then have "compact_value bits = 0"
      using unat_cword [of bits] by (simp add: compact_value_def split: if_splits)
    with 1 no show ?thesis by (simp add: expand_def)
  next
    case 2
    with no show ?thesis
      by (simp add: expand_def unc unat_cword compact_value_def)
  next
    case 3
    define k where "k = compact_size bits - 3"
    have val: "compact_value bits = unat (cword ?c) * 256 ^ k"
      using 3 by (simp add: compact_value_def unat_cword k_def)
    have "unat (cword ?c) \<noteq> 0" using 3 by (simp add: unat_eq_0)
    then have k: "k \<le> 31"
      using assms mult_power_256_ge [of "unat (cword ?c)" k] compact_mantissa_less [of bits] 3
      by (auto simp: val unat_cword)
    from u256_shl_spec [of "from_u64 (ucast (cword ?c))" "8 * k"] k obtain z :: u256
      where "u256_shl (from_u64 (ucast (cword ?c))) (8 * k) = (Ok z :: ('e, _) res)" "wf_u256 z"
        "limbs_val z = (unat (cword ?c) * 2 ^ (8 * k)) mod 2 ^ 256"
      by (auto simp: unc)
    with 3 no k assms show ?thesis
      by (simp add: expand_def k_def [symmetric] val power_mult)
  qed
qed

lemma target_to_uint_spec:
  "length t = 32 \<Longrightarrow> wf_u256 (target_to_uint t) \<and> limbs_val (target_to_uint t) = bytes_val t"
  by (simp add: target_to_uint_def from_be_bytes_spec)

text \<open>The verdict and the decoded value, over numbers; on success the target is 32 bytes long.\<close>

definition decode_rel :: "compact_target \<Rightarrow> nat \<Rightarrow> (target_error, target_bytes) res \<Rightarrow> bool" where
  "decode_rel bits limit r \<longleftrightarrow>
     (if compact_negative bits then r = Err Negative
      else if 2 ^ 256 \<le> compact_value bits then r = Err Overflow
      else if compact_value bits = 0 then r = Err Zero
      else if limit < compact_value bits then r = Err AbovePowLimit
      else \<exists>t. r = Ok t \<and> length t = 32 \<and> bytes_val t = compact_value bits)"

lemma decode_target_rel:
  assumes "length pow_limit = 32"
  shows "decode_rel bits (bytes_val pow_limit) (decode_target bits pow_limit)"
proof (cases "2 ^ 256 \<le> compact_value bits")
  case True
  then show ?thesis
    by (simp add: decode_rel_def decode_target_def Let_def cnegative_split coverflow_split)
next
  case False
  then obtain v where v: "expand (split_compact bits) = (Ok v :: (target_error, _) res)"
      "wf_u256 v" "limbs_val v = compact_value bits"
    using expand_spec [of bits] by (auto simp: not_le)
  note p = target_to_uint_spec [OF assms]
  have less: "u256_less (target_to_uint pow_limit) v \<longleftrightarrow> bytes_val pow_limit < compact_value bits"
    using p v by (simp add: u256_less_val wf_u256_def)
  have t: "length (uint_to_target v) = 32" "bytes_val (uint_to_target v) = compact_value bits"
    using to_be_bytes_spec [OF v(2)] v(3) by (simp_all add: uint_to_target_def)
  show ?thesis
    using False t
    by (auto simp: decode_rel_def decode_target_def Let_def cnegative_split coverflow_split v(1)
        is_zero_val [OF v(2)] v(3) less)
qed

lemma bytes_val_inj:
  "length xs = length ys \<Longrightarrow> bytes_val xs = bytes_val ys \<Longrightarrow> xs = ys"
proof (induction xs ys rule: list_induct2)
  case Nil
  then show ?case by simp
next
  case (Cons x xs y ys)
  let ?B = "256 ^ length xs :: nat"
  have "bytes_val xs < ?B" "bytes_val ys < ?B"
    using bytes_val_less [of xs] bytes_val_less [of ys] Cons.hyps by simp_all
  then have "(unat x * ?B + bytes_val xs) div ?B = unat x" "(unat y * ?B + bytes_val ys) div ?B = unat y"
    by (simp_all add: div_add1_eq)
  then have "unat x = unat y"
    using Cons.prems Cons.hyps by (metis bytes_val.simps(2))
  with Cons show ?case by (simp add: word_unat_eq_iff)
qed

lemma bytes_val_replicate_0 [simp]: "bytes_val (replicate n 0) = 0"
  by (induction n) simp_all

lemma div_ceil_pred:
  fixes t :: nat
  assumes "t < 2 ^ 256"
  shows "(2 ^ 256 - 1 - t) div (t + 1) + 1 = 2 ^ 256 div (t + 1)"
proof -
  have "2 ^ 256 div (t + 1) = ((2 ^ 256 - 1 - t) + (t + 1)) div (t + 1)"
    using assms by simp
  also have "\<dots> = (2 ^ 256 - 1 - t) div (t + 1) + 1"
    by (subst div_add_self2) simp_all
  finally show ?thesis by simp
qed

lemma compact_value_bound:
  assumes "compact_value bits < 2 ^ 256"
  shows "compact_value bits + 1 < 2 ^ 256"
proof (cases "compact_size bits \<le> 3")
  case True
  then show ?thesis
    using compact_mantissa_less [of bits] by (simp add: compact_value_def le_less_trans [OF div_le_dividend])
next
  case False
  then obtain k where k: "compact_value bits = 256 * k"
    using dvd_power [of "compact_size bits - 3" "256 :: nat"]
    by (auto simp: compact_value_def dvd_def)
  with assms have "k + 1 \<le> 2 ^ 248" by simp
  with k show ?thesis by simp
qed

lemma block_work_spec:
  "\<exists>w. block_work bits = (Ok w :: ('e, _) res) \<and> length w = 32 \<and>
     bytes_val w = (if compact_negative bits \<or> compact_value bits = 0 \<or> 2 ^ 256 \<le> compact_value bits then 0
                    else 2 ^ 256 div (compact_value bits + 1))"
proof (cases "compact_negative bits \<or> 2 ^ 256 \<le> compact_value bits")
  case True
  then show ?thesis
    by (auto simp: block_work_def Let_def cnegative_split coverflow_split)
next
  case False
  let ?t = "compact_value bits"
  from False obtain v where v: "expand (split_compact bits) = (Ok v :: ('e, _) res)"
      "wf_u256 v" "limbs_val v = ?t"
    using expand_spec [of bits] by (auto simp: not_le)
  show ?thesis
  proof (cases "?t = 0")
    case True
    with False v show ?thesis
      by (auto simp: block_work_def Let_def cnegative_split coverflow_split is_zero_val)
  next
    case nz: False
    have lt: "?t + 1 < 2 ^ 256" using compact_value_bound False by simp
    obtain p where p: "u256_checked_add v U256_ONE = Some p" "wf_u256 p" "limbs_val p = ?t + 1"
      using u256_checked_add_spec [OF v(2) U256_ONE_spec(1)] lt v(3) by (auto split: option.splits)
    obtain q where q: "u256_div (u256_not v) p = (Ok q :: ('e, _) res)" "wf_u256 q"
        "limbs_val q = (2 ^ 256 - 1 - ?t) div (?t + 1)"
      using u256_div_spec [OF conjunct1 [OF u256_not_spec [OF v(2)]] p(2)] u256_not_spec [OF v(2)] p(3) v(3)
      by auto
    have sum: "limbs_val q + 1 = 2 ^ 256 div (?t + 1)"
      using div_ceil_pred [of ?t] lt q(3) by simp
    have "2 ^ 256 div (?t + 1) \<le> 2 ^ 256 div 2"
      using nz by (intro div_le_mono2) simp_all
    then obtain w where w: "u256_checked_add q U256_ONE = Some w" "wf_u256 w"
        "limbs_val w = 2 ^ 256 div (?t + 1)"
      using u256_checked_add_spec [OF q(2) U256_ONE_spec(1)] sum by (auto split: option.splits)
    have "0 < 2 ^ 256 div (?t + 1)"
      using sum by linarith
    with False nz v p q w to_be_bytes_spec [OF w(2)] show ?thesis
      by (auto simp: block_work_def Let_def cnegative_split coverflow_split is_zero_val)
  qed
qed

lemma hash_meets_target_spec:
  assumes "length hash = 32" and "length target = 32"
  shows "hash_meets_target hash target \<longleftrightarrow> bytes_val (rev hash) \<le> bytes_val target"
  using from_be_bytes_spec [of "rev hash"] target_to_uint_spec [of target] assms
  by (simp add: hash_meets_target_def from_le_bytes_def u256_le_val wf_u256_def)

text \<open>The scaled mantissa both branches of \<open>compress\<close> compute, before the sign-bit step.\<close>

definition scaled :: "nat \<Rightarrow> nat \<Rightarrow> nat" where
  "scaled v sz = v * 256 ^ 3 div 256 ^ sz"

lemma scaled_small:
  assumes "sz \<le> 3"
  shows "scaled v sz = v * 256 ^ (3 - sz)"
proof -
  have "(256 :: nat) ^ 3 = 256 ^ (3 - sz) * 256 ^ sz"
    using assms by (simp flip: power_add)
  then show ?thesis by (simp only: scaled_def mult.assoc [symmetric]) simp
qed

lemma scaled_large: "3 \<le> sz \<Longrightarrow> scaled v sz = v div 256 ^ (sz - 3)"
  using power_add [of "256 :: nat" 3 "sz - 3"] by (simp add: scaled_def div_mult2_eq)

lemma scaled_Suc: "scaled v sz div 256 = scaled v (Suc sz)"
  by (simp add: scaled_def div_mult2_eq [symmetric] mult.commute)

lemma byte_size_spec:
  assumes "wf_u256 x"
  defines "sz \<equiv> div_ceil (u256_bits x) 8"
  shows "sz \<le> 32" and "limbs_val x < 256 ^ sz"
    and "limbs_val x \<noteq> 0 \<Longrightarrow> 0 < sz \<and> 256 ^ (sz - 1) \<le> limbs_val x"
proof -
  note b = u256_bits_spec [OF assms(1)]
  show "sz \<le> 32" using b unfolding sz_def div_ceil_def by linarith
  have "limbs_val x < 2 ^ u256_bits x" using b by simp
  also have "\<dots> \<le> 2 ^ (8 * sz)"
    by (intro power_increasing) (simp_all add: sz_def div_ceil_def)
  finally show "limbs_val x < 256 ^ sz" by (simp add: power_mult)
  assume nz: "limbs_val x \<noteq> 0"
  then have pos: "0 < u256_bits x" "2 ^ (u256_bits x - 1) \<le> limbs_val x" using b by simp_all
  have "(256 :: nat) ^ (sz - 1) = 2 ^ (8 * (sz - 1))" by (simp add: power_mult)
  also have "\<dots> \<le> 2 ^ (u256_bits x - 1)"
    using pos by (intro power_increasing) (auto simp: sz_def div_ceil_def)
  finally show "0 < sz \<and> 256 ^ (sz - 1) \<le> limbs_val x"
    using pos by (auto simp: sz_def div_ceil_def)
qed

lemma compress_mantissa:
  assumes "wf_u256 x"
  defines "sz \<equiv> div_ceil (u256_bits x) 8"
  shows "\<exists>c. (if sz \<le> 3 then Ok (push_bit (8 * (3 - sz)) (low_u64 x))
      else and_then (u256_shr x (8 * (sz - 3))) (\<lambda>shifted. Ok (low_u64 shifted))) = (Ok c :: ('e, _) res)
    \<and> unat c = scaled (limbs_val x) sz"
    and "scaled (limbs_val x) sz < 2 ^ 24"
    and "limbs_val x \<noteq> 0 \<Longrightarrow> 2 ^ 16 \<le> scaled (limbs_val x) sz"
proof -
  note s = byte_size_spec [OF assms(1), folded sz_def]
  have "limbs_val x * 256 ^ 3 < 256 ^ 3 * 256 ^ sz" using s(2) by simp
  then show small: "scaled (limbs_val x) sz < 2 ^ 24"
    by (simp add: scaled_def less_mult_imp_div_less)
  show "2 ^ 16 \<le> scaled (limbs_val x) sz" if "limbs_val x \<noteq> 0"
  proof -
    from s(3) [OF that] have "256 ^ 2 * 256 ^ sz \<le> limbs_val x * 256 ^ 3"
      by (cases sz) simp_all
    then have "256 ^ 2 * 256 ^ sz div 256 ^ sz \<le> scaled (limbs_val x) sz"
      unfolding scaled_def by (rule div_le_mono)
    then show ?thesis by simp
  qed
  show "\<exists>c. (if sz \<le> 3 then Ok (push_bit (8 * (3 - sz)) (low_u64 x))
      else and_then (u256_shr x (8 * (sz - 3))) (\<lambda>shifted. Ok (low_u64 shifted))) = (Ok c :: ('e, _) res)
    \<and> unat c = scaled (limbs_val x) sz"
  proof (cases "sz \<le> 3")
    case True
    have "limbs_val x < 2 ^ 64"
      using s(2) power_increasing [OF True, of "256 :: nat"] by simp
    then have "unat (low_u64 x) = limbs_val x"
      using low_u64_spec [OF assms(1)] by simp
    then have "unat (push_bit (8 * (3 - sz)) (low_u64 x)) = scaled (limbs_val x) sz"
      using small True
      by (simp only: unsigned_push_bit_eq) (simp add: push_bit_eq_mult power_mult scaled_small take_bit_nat_eq_self)
    with True show ?thesis by simp
  next
    case False
    have "8 * (sz - 3) < 256" using s(1) by simp
    then obtain z where z: "u256_shr x (8 * (sz - 3)) = (Ok z :: ('e, _) res)" "wf_u256 z"
        "limbs_val z = limbs_val x div 2 ^ (8 * (sz - 3))"
      using u256_shr_spec [OF assms(1), of "8 * (sz - 3)"] by blast
    have "unat (low_u64 z) = scaled (limbs_val x) sz"
      using low_u64_spec [OF z(2)] z(3) small False by (simp add: scaled_large power_mult)
    with False z show ?thesis by simp
  qed
qed

lemma unat_sign_bit:
  assumes "unat (c :: u64) < 2 ^ 24"
  shows "c AND 0x800000 \<noteq> 0 \<longleftrightarrow> 2 ^ 23 \<le> unat c"
proof -
  have "c AND 0x800000 \<noteq> 0 \<longleftrightarrow> bit (unat c) 23"
    using and_sign_bit [of c 23] by (simp add: bit_unsigned_iff)
  also have "\<dots> \<longleftrightarrow> odd (unat c div 2 ^ 23)"
    by (simp add: bit_iff_odd)
  also have "\<dots> \<longleftrightarrow> 2 ^ 23 \<le> unat c"
    using assms by (cases "2 ^ 23 \<le> unat c") (simp_all add: le_div_geq)
  finally show ?thesis .
qed

lemma compact_fields:
  assumes "unat (c :: u64) < 2 ^ 23" and "sz < 256"
  defines "bits \<equiv> ucast c OR push_bit 24 (word_of_nat sz) :: u32"
  shows "compact_size bits = sz" and "compact_mantissa bits = unat c" and "\<not> bit bits 23"
proof -
  have c: "unat (ucast c :: u32) = unat c"
    using assms(1) by (simp add: unsigned_ucast_eq take_bit_nat_eq_self)
  have "unat (word_of_nat sz :: u32) = sz"
    using assms(2) by (simp add: unsigned_of_nat take_bit_nat_eq_self)
  then have "unat (push_bit 24 (word_of_nat sz :: u32)) = sz * 2 ^ 24"
    using assms(2) by (simp only: unsigned_push_bit_eq) (simp add: push_bit_eq_mult take_bit_nat_eq_self)
  then have val: "unat bits = sz * 2 ^ 24 + unat c"
    unfolding bits_def unsigned_or_eq c using or_nat_mult_add [of "unat c" 24 sz] assms(1)
    by (simp add: or.commute)
  show "compact_size bits = sz" "compact_mantissa bits = unat c"
    using assms(1) by (simp_all add: compact_size_def compact_mantissa_def val mod_add_eq [symmetric])
  have "\<not> bit (unat bits) 23"
    using assms(1) unfolding val by (subst bit_nat_mult_add) (simp_all add: bit_iff_odd div_less)
  then show "\<not> bit bits 23" by (simp add: bit_unsigned_iff)
qed

lemma compress_spec:
  assumes "wf_u256 x"
  shows "\<exists>bits. compress x = (Ok bits :: ('e, _) res) \<and> \<not> bit bits 23 \<and>
    compact_mantissa bits = scaled (limbs_val x) (compact_size bits) \<and>
    (limbs_val x \<noteq> 0 \<longrightarrow> 2 ^ 15 \<le> compact_mantissa bits)"
proof -
  define sz where "sz = div_ceil (u256_bits x) 8"
  define v where "v = limbs_val x"
  obtain c where c: "(if sz \<le> 3 then Ok (push_bit (8 * (3 - sz)) (low_u64 x))
      else and_then (u256_shr x (8 * (sz - 3))) (\<lambda>shifted. Ok (low_u64 shifted))) = (Ok c :: ('e, _) res)"
      "unat c = scaled v sz"
    using compress_mantissa(1) [OF assms] unfolding sz_def v_def by blast
  have lt: "scaled v sz < 2 ^ 24" and ge: "v \<noteq> 0 \<Longrightarrow> 2 ^ 16 \<le> scaled v sz"
    using compress_mantissa(2,3) [OF assms] by (simp_all add: sz_def v_def)
  have sz: "sz \<le> 32" using byte_size_spec(1) [OF assms] by (simp add: sz_def)
  define d where "d = (if c AND 0x800000 \<noteq> 0 then (drop_bit 8 c, sz + 1) else (c, sz))"
  have sign: "c AND 0x800000 \<noteq> 0 \<longleftrightarrow> 2 ^ 23 \<le> scaled v sz"
    using unat_sign_bit [of c] lt c(2) by simp
  have "unat (drop_bit 8 c) = scaled v (Suc sz)"
    by (subst unat_drop_bit_eq) (simp add: drop_bit_eq_div c(2) scaled_Suc)
  then have d: "unat (fst d) = scaled v (snd d)" "snd d \<le> 33"
    using c(2) sz by (auto simp: d_def)
  have "scaled v (Suc sz) < 2 ^ 16" using lt by (simp add: scaled_Suc [symmetric] less_mult_imp_div_less)
  then have d_lt: "unat (fst d) < 2 ^ 23" using sign d(1) by (auto simp: d_def split: if_splits)
  have "2 ^ 15 \<le> scaled v (Suc sz)" if "2 ^ 23 \<le> scaled v sz"
    using div_le_mono [OF that, of 256] by (simp add: scaled_Suc)
  then have d_ge: "v \<noteq> 0 \<longrightarrow> 2 ^ 15 \<le> unat (fst d)" using sign d(1) ge by (auto simp: d_def split: if_splits)
  have masked: "fst d AND NOT 0x7fffff = 0"
  proof -
    have "fst d = take_bit 23 (fst d)"
      using d_lt by (simp add: word_unat_eq_iff unsigned_take_bit_eq take_bit_nat_eq_self)
    then have "fst d AND NOT (mask 23) = 0"
      by (metis and.assoc and.right_neutral bit.conj_cancel_right bit.conj_zero_right take_bit_eq_mask)
    then show ?thesis by (simp add: mask_eq_exp_minus_1)
  qed
  define bits where "bits = (ucast (fst d) OR push_bit 24 (word_of_nat (snd d)) :: u32)"
  have "c \<le> 0xffffff" using lt c(2) by (simp add: word_le_nat_alt)
  then have "compress x = (Ok bits :: ('e, _) res)"
    using masked d_lt d(2)
    by (simp add: compress_def Let_def sz_def [symmetric] c(1) d_def [symmetric] split_beta bits_def)
  moreover note compact_fields [of "fst d" "snd d", folded bits_def]
  ultimately show ?thesis
    using d d_lt d_ge by (simp add: v_def)
qed

text \<open>What the canonical encoding keeps of a value: everything but the bytes below its mantissa.\<close>

definition compact_floor :: "nat \<Rightarrow> compact_target \<Rightarrow> bool" where
  "compact_floor v bits \<longleftrightarrow> \<not> bit bits 23 \<and> (v \<noteq> 0 \<longrightarrow> 2 ^ 15 \<le> compact_mantissa bits) \<and>
     compact_value bits = v div 256 ^ (compact_size bits - 3) * 256 ^ (compact_size bits - 3)"

lemma encode_target_floor:
  assumes "length t = 32"
  shows "\<exists>bits. encode_target t = (Ok bits :: ('e, _) res) \<and> compact_floor (bytes_val t) bits"
proof -
  obtain bits where b: "compress (target_to_uint t) = (Ok bits :: ('e, _) res)" "\<not> bit bits 23"
      "compact_mantissa bits = scaled (bytes_val t) (compact_size bits)"
      "bytes_val t \<noteq> 0 \<longrightarrow> 2 ^ 15 \<le> compact_mantissa bits"
    using compress_spec [of "target_to_uint t"] target_to_uint_spec [OF assms] by (metis (no_types))
  have "compact_value bits = bytes_val t div 256 ^ (compact_size bits - 3) * 256 ^ (compact_size bits - 3)"
    using b(3) by (auto simp: compact_value_def scaled_small scaled_large)
  moreover have "unat (cword (split_compact bits)) \<le> 0x7fffff"
    using compact_mantissa_less [of bits]
      div_le_dividend [of "compact_mantissa bits" "256 ^ (3 - compact_size bits)"]
    by (simp add: unat_cword del: div_le_dividend)
  ultimately show ?thesis
    using b by (auto simp: encode_target_def compact_floor_def word_le_nat_alt)
qed

lemma compact_floor_le: "compact_floor v bits \<Longrightarrow> compact_value bits \<le> v"
  by (simp add: compact_floor_def)

text \<open>The encoding loses less than one part in \<open>2 ^ 15\<close>.\<close>

lemma compact_floor_precise:
  assumes "compact_floor v bits"
  shows "(v - compact_value bits) * 2 ^ 15 \<le> compact_value bits"
proof (cases "v = 0 \<or> compact_size bits \<le> 3")
  case True
  with assms show ?thesis by (auto simp: compact_floor_def)
next
  case False
  let ?p = "256 ^ (compact_size bits - 3) :: nat"
  have "v - compact_value bits = v mod ?p"
    using assms minus_div_mult_eq_mod [of v ?p] by (simp add: compact_floor_def)
  also have "\<dots> < ?p" by simp
  finally have "(v - compact_value bits) * 2 ^ 15 \<le> ?p * 2 ^ 15" by simp
  also have "\<dots> \<le> ?p * compact_mantissa bits"
    using assms False by (simp add: compact_floor_def)
  finally show ?thesis
    using False by (simp add: compact_value_def mult.commute)
qed

lemma compact_floor_exact:
  assumes "compact_floor (compact_value b) bits"
  shows "compact_value bits = compact_value b"
proof (cases "compact_size bits \<le> 3 \<or> compact_value b = 0")
  case True
  with assms show ?thesis by (auto simp: compact_floor_def)
next
  case False
  define v where "v = compact_value b"
  define j where "j = compact_size bits - 3"
  obtain m k where v: "v = m * 256 ^ k" "m < 2 ^ 23"
  proof (cases "compact_size b \<le> 3")
    case True
    have "v < 2 ^ 23"
      using True compact_mantissa_less [of b] by (simp add: v_def compact_value_def le_less_trans [OF div_le_dividend])
    then show ?thesis using that [of v 0] by simp
  next
    case False
    then show ?thesis
      using that [of "compact_mantissa b" "compact_size b - 3"] compact_mantissa_less [of b]
      by (simp add: v_def compact_value_def)
  qed
  have val: "compact_value bits = v div 256 ^ j * 256 ^ j" and big: "2 ^ 15 \<le> compact_mantissa bits"
    using assms False by (simp_all add: compact_floor_def v_def j_def)
  have mant: "compact_mantissa bits = v div 256 ^ j"
    using val False by (simp add: compact_value_def j_def)
  have "j \<le> k"
  proof (rule ccontr)
    assume "\<not> j \<le> k"
    then obtain i where "j = Suc (k + i)"
      using less_imp_Suc_add [of k j] by auto
    then have "(256 :: nat) ^ j = 256 ^ k * 256 * 256 ^ i"
      by (simp add: power_add)
    then have "v div 256 ^ j \<le> m div 256"
      by (simp add: v(1) div_mult2_eq div_le_dividend)
    with v(2) mant big show False by simp
  qed
  then have "256 ^ j dvd v" by (simp add: v(1) le_imp_power_dvd dvd_mult)
  then show ?thesis by (simp add: val v_def [symmetric])
qed

section \<open>Properties\<close>

text \<open>C4: decoding \<open>nBits\<close> gives exactly the four verdicts of the compact encoding over
  unbounded numbers (negative, at least \<open>2 ^ 256\<close>, zero, above the limit) and otherwise the
  number it names.\<close>

theorem decode_target_exact:
  assumes "length limit = 32"
  shows "(compact_negative bits \<longrightarrow> decode_target bits limit = Err Negative) \<and>
    (\<not> compact_negative bits \<and> 2 ^ 256 \<le> compact_value bits \<longrightarrow> decode_target bits limit = Err Overflow) \<and>
    (\<not> compact_negative bits \<and> compact_value bits = 0 \<longrightarrow> decode_target bits limit = Err Zero) \<and>
    (\<not> compact_negative bits \<and> compact_value bits < 2 ^ 256 \<and> bytes_val limit < compact_value bits \<longrightarrow>
       decode_target bits limit = Err AbovePowLimit) \<and>
    (\<not> compact_negative bits \<and> 0 < compact_value bits \<and> compact_value bits \<le> bytes_val limit \<longrightarrow>
       (\<exists>t. decode_target bits limit = Ok t \<and> length t = 32 \<and> bytes_val t = compact_value bits))"
proof -
  have "bytes_val limit < 2 ^ 256"
    using bytes_val_less [of limit] assms by simp
  then show ?thesis
    using decode_target_rel [OF assms, of bits] by (auto simp: decode_rel_def split: if_splits)
qed

theorem decode_target_exact_witness:
  "\<exists>t. decode_target 0x1d00ffff ([0, 0, 0, 0, 255, 255] @ replicate 26 0) = Ok t \<and> length t = 32 \<and> bytes_val t = 0xffff * 2 ^ 208"
  using decode_target_exact [of "[0, 0, 0, 0, 255, 255] @ replicate 26 0" "0x1d00ffff"]
  by (simp add: compact_negative_def compact_value_def compact_size_def compact_mantissa_def bytes_val_append
      bit_iff_odd)

text \<open>C15: a target written as \<open>nBits\<close> and read back is never larger, loses less than one part
  in \<open>2 ^ 15\<close>, and is the same number when it came from \<open>nBits\<close> in the first place.\<close>

theorem encode_target_roundtrip:
  assumes "length t = 32"
  shows "\<exists>bits. encode_target t = (Ok bits :: ('e, _) res) \<and> \<not> compact_negative bits \<and>
    compact_value bits \<le> bytes_val t \<and>
    (bytes_val t - compact_value bits) * 2 ^ 15 \<le> compact_value bits \<and>
    (\<forall>b. compact_value b = bytes_val t \<longrightarrow> compact_value bits = compact_value b)"
proof -
  obtain bits where b: "encode_target t = (Ok bits :: ('e, _) res)" "compact_floor (bytes_val t) bits"
    using encode_target_floor [OF assms] by blast
  have "\<not> compact_negative bits"
    using b(2) by (simp add: compact_floor_def compact_negative_def)
  then show ?thesis
    using b compact_floor_le [OF b(2)] compact_floor_precise [OF b(2)] compact_floor_exact by metis
qed

theorem encode_target_roundtrip_witness:
  "\<exists>bits. encode_target (replicate 32 255) = (Ok bits :: (unit, _) res) \<and> \<not> compact_negative bits \<and>
    compact_value bits \<le> bytes_val (replicate 32 255) \<and>
    (bytes_val (replicate 32 255) - compact_value bits) * 2 ^ 15 \<le> compact_value bits"
  using encode_target_roundtrip [of "replicate 32 255", where 'e = unit] by auto

text \<open>C17: the work of a target is \<open>2 ^ 256\<close> divided by one more than the target, rounded down,
  and zero for an \<open>nBits\<close> that names no target.\<close>

theorem block_work_exact:
  "\<exists>w. block_work bits = (Ok w :: ('e, _) res) \<and> length w = 32 \<and>
     bytes_val w = (if compact_negative bits \<or> compact_value bits = 0 \<or> 2 ^ 256 \<le> compact_value bits then 0
                    else 2 ^ 256 div (compact_value bits + 1))"
  by (rule block_work_spec)

end
