(* ===== verification/Chain_Params.thy ===== *)
theory Chain_Params
  imports Bitcoin_Types Compact_Target
begin

text \<open>
  \<^verbatim>\<open>crates/consensus/src/params/\<close> and the flag set of
  \<^verbatim>\<open>crates/consensus/src/script/script_flags.rs\<close>: heights and times, the three chain tables
  with the invariants their constructors assert, the rules in force at a height, the
  subsidy, and the regtest command-line knobs. The genesis block and the block hash come
  from the \<open>bitcoin\<close> crate and are arguments.

  The locale \<open>chain_table\<close> is what the rule derivation needs of a table; it is interpreted on
  all three tables, so that \<open>rules_at\<close> passing its own assertions is proved once.
\<close>

section \<open>Script flags\<close>

type_synonym script_flags = u32

definition FLAG_NONE :: script_flags where "FLAG_NONE = 0"
definition FLAG_P2SH :: script_flags where "FLAG_P2SH = 0x1"
definition FLAG_DERSIG :: script_flags where "FLAG_DERSIG = 0x4"
definition FLAG_NULLDUMMY :: script_flags where "FLAG_NULLDUMMY = 0x10"
definition FLAG_CHECKLOCKTIMEVERIFY :: script_flags where "FLAG_CHECKLOCKTIMEVERIFY = 0x200"
definition FLAG_CHECKSEQUENCEVERIFY :: script_flags where "FLAG_CHECKSEQUENCEVERIFY = 0x400"
definition FLAG_WITNESS :: script_flags where "FLAG_WITNESS = 0x800"
definition FLAG_TAPROOT :: script_flags where "FLAG_TAPROOT = 0x20000"

definition flags_union :: "script_flags \<Rightarrow> script_flags \<Rightarrow> script_flags" where
  "flags_union a b = a OR b"

definition flags_intersection :: "script_flags \<Rightarrow> script_flags \<Rightarrow> script_flags" where
  "flags_intersection a b = a AND b"

definition flags_difference :: "script_flags \<Rightarrow> script_flags \<Rightarrow> script_flags" where
  "flags_difference a b = a AND NOT b"

definition flags_contains :: "script_flags \<Rightarrow> script_flags \<Rightarrow> bool" where
  "flags_contains a b \<longleftrightarrow> a AND b = b"

definition is_subset_of :: "script_flags \<Rightarrow> script_flags \<Rightarrow> bool" where
  "is_subset_of a b \<longleftrightarrow> flags_contains b a"

definition MANDATORY :: script_flags where
  "MANDATORY = flags_union (flags_union (flags_union (flags_union (flags_union (flags_union
     FLAG_P2SH FLAG_DERSIG) FLAG_NULLDUMMY) FLAG_CHECKLOCKTIMEVERIFY) FLAG_CHECKSEQUENCEVERIFY)
     FLAG_WITNESS) FLAG_TAPROOT"

section \<open>Heights and times\<close>

type_synonym height = nat

abbreviation (input) HEIGHT_MAX :: height where "HEIGHT_MAX \<equiv> 0x7fffffff"

definition height_new :: "nat \<Rightarrow> ('e, height) res" where
  "height_new h = ensure (h \<le> HEIGHT_MAX) (Ok h)"

definition height_next :: "height \<Rightarrow> ('e, height) res" where
  "height_next h = ensure (h < HEIGHT_MAX) (let n = h + 1 in ensure (h < n) (Ok n))"

definition is_retarget_boundary :: "height \<Rightarrow> nat \<Rightarrow> ('e, bool) res" where
  "is_retarget_boundary h interval = ensure (0 < interval) (Ok (h mod interval = 0))"

definition timespan_since :: "u32 \<Rightarrow> u32 \<Rightarrow> ('e, int) res" where
  "timespan_since later earlier =
     (let timespan = uint later - uint earlier in ensure (\<bar>timespan\<bar> < 2 ^ 32) (Ok timespan))"

section \<open>The chain tables\<close>

datatype chain = Mainnet | Signet | Regtest

datatype block_challenge = NoChallenge | SignetChallenge script

record bip34_entry =
  bip34_height_of :: height
  bip34_hash_of :: "hash option"

record buried_heights =
  bip34 :: bip34_entry
  bip66 :: height
  bip65 :: height
  csv :: height
  segwit :: height

record script_flag_exception =
  exception_hash :: hash
  exception_flags :: script_flags

record bip30_repeat_exception =
  repeat_height :: height
  repeat_hash :: hash

record chain_params =
  cp_chain :: chain
  genesis :: block
  pow_limit :: target_bytes
  pow_target_timespan :: int
  pow_target_spacing :: int
  no_retargeting :: bool
  allow_min_difficulty :: bool
  enforce_bip94 :: bool
  halving_interval :: nat
  buried :: buried_heights
  script_flag_exceptions :: "script_flag_exception list"
  bip30_repeat_exceptions :: "bip30_repeat_exception list"
  cp_block_challenge :: block_challenge

text \<open>The hex constants are parsed at compile time; a failed parse is a failed build.\<close>

definition hex_digit :: "nat \<Rightarrow> ('e, u8) res" where
  "hex_digit d =
     (if 48 \<le> d \<and> d \<le> 57 then Ok (word_of_nat (d - 48))
      else if 97 \<le> d \<and> d \<le> 102 then Ok (word_of_nat (d - 97 + 10))
      else Panic)"

fun hex_pairs :: "string \<Rightarrow> ('e, bytes) res" where
  "hex_pairs (h # l # rest) =
     and_then (hex_digit (of_char h)) (\<lambda>high.
     and_then (hex_digit (of_char l)) (\<lambda>low.
     and_then (hex_pairs rest) (\<lambda>bs. Ok ((push_bit 4 high OR low) # bs))))"
| "hex_pairs _ = Ok []"

definition hex_bytes :: "nat \<Rightarrow> string \<Rightarrow> ('e, bytes) res" where
  "hex_bytes n hex = ensure (length hex = 2 * n) (hex_pairs hex)"

definition hash_bytes :: "string \<Rightarrow> ('e, hash) res" where
  "hash_bytes hex = and_then (hex_bytes 32 hex) (\<lambda>displayed. Ok (rev displayed))"

primrec const_bytes :: "(unit, bytes) res \<Rightarrow> bytes" where
  "const_bytes (Ok bs) = bs"
| "const_bytes (Err e) = []"
| "const_bytes Panic = []"

definition MAINNET_GENESIS_HASH :: hash where
  "MAINNET_GENESIS_HASH =
     const_bytes (hash_bytes ''000000000019d6689c085ae165831e934ff763ae46a2a6c172b3f1b60a8ce26f'')"

definition SIGNET_GENESIS_HASH :: hash where
  "SIGNET_GENESIS_HASH =
     const_bytes (hash_bytes ''00000008819873e925422c1ff0f99f7cc9bbb232af63a077a480a3633bee1ef6'')"

definition REGTEST_GENESIS_HASH :: hash where
  "REGTEST_GENESIS_HASH =
     const_bytes (hash_bytes ''0f9188f13cb7b2c71f2a335e3a4fc328bf5beb436012afca590b1a11466e2206'')"

definition MAINNET_BIP34_HASH :: hash where
  "MAINNET_BIP34_HASH =
     const_bytes (hash_bytes ''000000000000024b89b42a942fe0d9fea3bb44ab7bd1b19115dd6a759c0808b8'')"

definition MAINNET_POW_LIMIT :: target_bytes where
  "MAINNET_POW_LIMIT =
     const_bytes (hex_bytes 32 ''00000000ffff0000000000000000000000000000000000000000000000000000'')"

definition SIGNET_POW_LIMIT :: target_bytes where
  "SIGNET_POW_LIMIT =
     const_bytes (hex_bytes 32 ''00000377ae000000000000000000000000000000000000000000000000000000'')"

definition REGTEST_POW_LIMIT :: target_bytes where
  "REGTEST_POW_LIMIT =
     const_bytes (hex_bytes 32 ''7fffffffffffffffffffffffffffffffffffffffffffffffffffffffffffffff'')"

definition MAINNET_SCRIPT_FLAG_EXCEPTIONS :: "script_flag_exception list" where
  "MAINNET_SCRIPT_FLAG_EXCEPTIONS =
     [\<lparr> exception_hash =
          const_bytes (hash_bytes ''00000000000002dc756eebf4f49723ed8d30cc28a5f108eb94b1ba88ac4f9c22''),
        exception_flags = FLAG_NONE \<rparr>,
      \<lparr> exception_hash =
          const_bytes (hash_bytes ''0000000000000000000f14c35b2d841e986ab5441de8c585d5ffe55ea1e395ad''),
        exception_flags = flags_union FLAG_P2SH FLAG_WITNESS \<rparr>]"

definition MAINNET_BIP30_REPEAT_EXCEPTIONS :: "bip30_repeat_exception list" where
  "MAINNET_BIP30_REPEAT_EXCEPTIONS =
     [\<lparr> repeat_height = 91842,
        repeat_hash =
          const_bytes (hash_bytes ''00000000000a4d0a398161ffc163c503763b1f4360639393e0e4c8e300e0caec'') \<rparr>,
      \<lparr> repeat_height = 91880,
        repeat_hash =
          const_bytes (hash_bytes ''00000000000743f190a18c5577a3c2d2a1f610ae9601ac046a38084ccb7cd721'') \<rparr>]"

definition ALWAYS_ON_SCRIPT_FLAGS :: script_flags where
  "ALWAYS_ON_SCRIPT_FLAGS = flags_union (flags_union FLAG_P2SH FLAG_WITNESS) FLAG_TAPROOT"

abbreviation (input) SCRIPT_FLAG_EXCEPTIONS_MAX :: nat where "SCRIPT_FLAG_EXCEPTIONS_MAX \<equiv> 2"
abbreviation (input) BIP30_REPEAT_EXCEPTIONS_MAX :: nat where "BIP30_REPEAT_EXCEPTIONS_MAX \<equiv> 2"

definition assert_invariants :: "(header \<Rightarrow> hash) \<Rightarrow> chain_params \<Rightarrow> hash \<Rightarrow> bool" where
  "assert_invariants block_hash p genesis_hash \<longleftrightarrow>
     block_hash (block_header (genesis p)) = genesis_hash \<and>
     length (txdata (genesis p)) = 1 \<and>
     0 < bytes_val (pow_limit p) \<and>
     0 < pow_target_spacing p \<and>
     pow_target_spacing p \<le> pow_target_timespan p \<and>
     i_rem (pow_target_timespan p) (pow_target_spacing p) = 0 \<and>
     0 < halving_interval p \<and>
     length (script_flag_exceptions p) \<le> SCRIPT_FLAG_EXCEPTIONS_MAX \<and>
     list_all (\<lambda>e. is_subset_of (exception_flags e) ALWAYS_ON_SCRIPT_FLAGS) (script_flag_exceptions p) \<and>
     length (bip30_repeat_exceptions p) \<le> BIP30_REPEAT_EXCEPTIONS_MAX \<and>
     (cp_chain p \<noteq> Mainnet \<longrightarrow> bip34_hash_of (bip34 (buried p)) = None) \<and>
     (case cp_block_challenge p of
        NoChallenge \<Rightarrow> cp_chain p \<noteq> Signet
      | SignetChallenge challenge \<Rightarrow> cp_chain p = Signet \<and> challenge \<noteq> [])"

definition mainnet_table :: "(chain \<Rightarrow> block) \<Rightarrow> chain_params" where
  "mainnet_table genesis_block =
     \<lparr>
        cp_chain = Mainnet,
        genesis = genesis_block Mainnet,
        pow_limit = MAINNET_POW_LIMIT,
        pow_target_timespan = 14 * 24 * 60 * 60,
        pow_target_spacing = 10 * 60,
        no_retargeting = False,
        allow_min_difficulty = False,
        enforce_bip94 = False,
        halving_interval = 210000,
        buried = \<lparr>
          bip34 = \<lparr> bip34_height_of = 227931, bip34_hash_of = Some MAINNET_BIP34_HASH \<rparr>,
          bip66 = 363725, bip65 = 388381, csv = 419328, segwit = 481824 \<rparr>,
        script_flag_exceptions = MAINNET_SCRIPT_FLAG_EXCEPTIONS,
        bip30_repeat_exceptions = MAINNET_BIP30_REPEAT_EXCEPTIONS,
        cp_block_challenge = NoChallenge \<rparr>"

definition mainnet :: "(header \<Rightarrow> hash) \<Rightarrow> (chain \<Rightarrow> block) \<Rightarrow> ('e, chain_params) res" where
  "mainnet block_hash genesis_block =
     (let params = mainnet_table genesis_block
      in ensure (assert_invariants block_hash params MAINNET_GENESIS_HASH) (Ok params))"

definition signet_table :: "(chain \<Rightarrow> block) \<Rightarrow> script \<Rightarrow> chain_params" where
  "signet_table genesis_block challenge =
     \<lparr>
        cp_chain = Signet,
        genesis = genesis_block Signet,
        pow_limit = SIGNET_POW_LIMIT,
        pow_target_timespan = 14 * 24 * 60 * 60,
        pow_target_spacing = 10 * 60,
        no_retargeting = False,
        allow_min_difficulty = False,
        enforce_bip94 = False,
        halving_interval = 210000,
        buried = \<lparr>
          bip34 = \<lparr> bip34_height_of = 1, bip34_hash_of = None \<rparr>,
          bip66 = 1, bip65 = 1, csv = 1, segwit = 1 \<rparr>,
        script_flag_exceptions = [],
        bip30_repeat_exceptions = [],
        cp_block_challenge = SignetChallenge challenge \<rparr>"

definition signet :: "(header \<Rightarrow> hash) \<Rightarrow> (chain \<Rightarrow> block) \<Rightarrow> script \<Rightarrow> ('e, chain_params) res" where
  "signet block_hash genesis_block challenge =
     (let params = signet_table genesis_block challenge
      in ensure (assert_invariants block_hash params SIGNET_GENESIS_HASH) (Ok params))"

record regtest_overrides =
  ov_bip34 :: "height option"
  ov_bip66 :: "height option"
  ov_bip65 :: "height option"
  ov_csv :: "height option"
  ov_segwit :: "height option"
  ov_bip94 :: bool

definition unwrap_or :: "'a option \<Rightarrow> 'a \<Rightarrow> 'a" where
  "unwrap_or x d = (case x of None \<Rightarrow> d | Some a \<Rightarrow> a)"

definition regtest_table :: "(chain \<Rightarrow> block) \<Rightarrow> regtest_overrides \<Rightarrow> chain_params" where
  "regtest_table genesis_block ov =
     \<lparr>
        cp_chain = Regtest,
        genesis = genesis_block Regtest,
        pow_limit = REGTEST_POW_LIMIT,
        pow_target_timespan = 24 * 60 * 60,
        pow_target_spacing = 10 * 60,
        no_retargeting = True,
        allow_min_difficulty = True,
        enforce_bip94 = ov_bip94 ov,
        halving_interval = 150,
        buried = \<lparr>
          bip34 = \<lparr> bip34_height_of = unwrap_or (ov_bip34 ov) 1, bip34_hash_of = None \<rparr>,
          bip66 = unwrap_or (ov_bip66 ov) 1,
          bip65 = unwrap_or (ov_bip65 ov) 1,
          csv = unwrap_or (ov_csv ov) 1,
          segwit = unwrap_or (ov_segwit ov) 0 \<rparr>,
        script_flag_exceptions = [],
        bip30_repeat_exceptions = [],
        cp_block_challenge = NoChallenge \<rparr>"

definition regtest :: "(header \<Rightarrow> hash) \<Rightarrow> (chain \<Rightarrow> block) \<Rightarrow> regtest_overrides \<Rightarrow> ('e, chain_params) res" where
  "regtest block_hash genesis_block ov =
     (let params = regtest_table genesis_block ov
      in ensure (assert_invariants block_hash params REGTEST_GENESIS_HASH) (Ok params))"

definition difficulty_adjustment_interval :: "chain_params \<Rightarrow> ('e, nat) res" where
  "difficulty_adjustment_interval p =
     (let interval = i_div (pow_target_timespan p) (pow_target_spacing p)
      in ensure (0 \<le> interval \<and> interval < 2 ^ 32)
           (let interval = nat interval in ensure (0 < interval) (Ok interval)))"

section \<open>The rules at a height\<close>

abbreviation (input) BIP34_IMPLIES_BIP30_LIMIT :: height where "BIP34_IMPLIES_BIP30_LIMIT \<equiv> 1983702"
abbreviation (input) COIN :: nat where "COIN \<equiv> 100000000"
abbreviation (input) HALVINGS_MAX :: nat where "HALVINGS_MAX \<equiv> 64"

datatype bip30 = Enforce | Skip | Overwrite

record rules =
  rl_script_flags :: script_flags
  version_floor :: int
  bip34_active :: bool
  csv_active :: bool
  segwit_active :: bool
  rl_bip30 :: bip30
  subsidy :: nat

definition bip30_check_required :: "rules \<Rightarrow> bool" where
  "bip30_check_required r \<longleftrightarrow> rl_bip30 r = Enforce"

definition block_subsidy :: "height \<Rightarrow> nat \<Rightarrow> ('e, nat) res" where
  "block_subsidy h interval = ensure (0 < interval)
     (let halvings = h div interval
      in if HALVINGS_MAX \<le> halvings then Ok 0
         else let s = drop_bit halvings (50 * COIN) in ensure (s \<le> 50 * COIN) (Ok s))"

fun flags_base_loop ::
    "hash \<Rightarrow> script_flag_exception list \<Rightarrow> script_flags \<Rightarrow> nat \<Rightarrow> script_flags \<times> nat" where
  "flags_base_loop h [] base matched = (base, matched)"
| "flags_base_loop h (e # es) base matched =
     (if exception_hash e = h then flags_base_loop h es (exception_flags e) (matched + 1)
      else flags_base_loop h es base matched)"

definition script_flags_base :: "chain_params \<Rightarrow> hash \<Rightarrow> ('e, script_flags) res" where
  "script_flags_base p h =
     (let (base, matched) = flags_base_loop h (script_flag_exceptions p) ALWAYS_ON_SCRIPT_FLAGS 0
      in ensure (matched \<le> 1) (Ok base))"

definition version_floor_at :: "chain_params \<Rightarrow> height \<Rightarrow> ('e, int) res" where
  "version_floor_at p h =
     (let floor = 1;
          floor = (if bip34_height_of (bip34 (buried p)) \<le> h then 2 else floor);
          floor = (if bip66 (buried p) \<le> h then 3 else floor);
          floor = (if bip65 (buried p) \<le> h then 4 else floor)
      in ensure (1 \<le> floor) (ensure (floor \<le> 4) (Ok floor)))"

definition bip30_at :: "chain_params \<Rightarrow> height \<Rightarrow> hash \<Rightarrow> hash option \<Rightarrow> ('e, bip30) res" where
  "bip30_at p h block_id bip34_ancestor =
     (let is_repeat_exception =
            list_ex (\<lambda>e. repeat_height e = h \<and> repeat_hash e = block_id) (bip30_repeat_exceptions p);
          bip34_block_is_ancestor =
            (case (bip34_hash_of (bip34 (buried p)), bip34_ancestor) of
               (Some expected, Some actual) \<Rightarrow> expected = actual | _ \<Rightarrow> False)
      in ensure (bip34_block_is_ancestor \<longrightarrow> bip34_height_of (bip34 (buried p)) < h)
           (if is_repeat_exception then
              ensure (\<not> bip34_block_is_ancestor) (ensure (h < BIP34_IMPLIES_BIP30_LIMIT) (Ok Overwrite))
            else if bip34_block_is_ancestor \<and> h < BIP34_IMPLIES_BIP30_LIMIT then Ok Skip
            else Ok Enforce))"

definition rules_at :: "chain_params \<Rightarrow> height \<Rightarrow> hash \<Rightarrow> hash option \<Rightarrow> ('e, rules) res" where
  "rules_at p h block_id bip34_ancestor =
     ensure (bip34_ancestor \<noteq> None \<longrightarrow> bip34_height_of (bip34 (buried p)) < h)
       (and_then (script_flags_base p block_id) (\<lambda>flags.
        let flags = (if bip66 (buried p) \<le> h then flags_union flags FLAG_DERSIG else flags);
            flags = (if bip65 (buried p) \<le> h then flags_union flags FLAG_CHECKLOCKTIMEVERIFY else flags);
            flags = (if csv (buried p) \<le> h then flags_union flags FLAG_CHECKSEQUENCEVERIFY else flags);
            flags = (if segwit (buried p) \<le> h then flags_union flags FLAG_NULLDUMMY else flags)
        in and_then (version_floor_at p h) (\<lambda>floor.
           and_then (bip30_at p h block_id bip34_ancestor) (\<lambda>bip30.
           and_then (block_subsidy h (halving_interval p)) (\<lambda>sub.
             let r = \<lparr> rl_script_flags = flags, version_floor = floor,
                       bip34_active = (bip34_height_of (bip34 (buried p)) \<le> h),
                       csv_active = (csv (buried p) \<le> h),
                       segwit_active = (segwit (buried p) \<le> h),
                       rl_bip30 = bip30, subsidy = sub \<rparr>
             in ensure (flags_contains (rl_script_flags r) FLAG_NULLDUMMY = segwit_active r)
                  (ensure (flags_contains (rl_script_flags r) FLAG_CHECKSEQUENCEVERIFY = csv_active r)
                    (ensure (bip34_active r \<longrightarrow> 2 \<le> version_floor r)
                      (ensure (is_subset_of (rl_script_flags r) MANDATORY) (Ok r)))))))))"

section \<open>Regtest knobs\<close>

datatype regtest_arg_error =
    InvalidFormat string
  | InvalidHeightValue string
  | InvalidName string
  | UnrecognisedTestOption string

text \<open>The standard library's \<open>str::split_once\<close> and \<open>str::parse::<u32>\<close>.\<close>

fun split_once :: "char \<Rightarrow> string \<Rightarrow> (string \<times> string) option" where
  "split_once c [] = None"
| "split_once c (x # xs) =
     (if x = c then Some ([], xs)
      else map_option (\<lambda>(a, b). (x # a, b)) (split_once c xs))"

fun digits_val :: "nat \<Rightarrow> string \<Rightarrow> nat option" where
  "digits_val acc [] = Some acc"
| "digits_val acc (c # cs) =
     (let d = of_char c
      in if 48 \<le> d \<and> d \<le> (57 :: nat) \<and> acc * 10 + (d - 48) < 2 ^ 32
         then digits_val (acc * 10 + (d - 48)) cs else None)"

definition parse_u32 :: "string \<Rightarrow> nat option" where
  "parse_u32 text =
     (let digits = (case text of CHR ''+'' # rest \<Rightarrow> rest | _ \<Rightarrow> text)
      in if digits = [] then None else digits_val 0 digits)"

definition parse_height :: "string \<Rightarrow> height option" where
  "parse_height text =
     (case parse_u32 text of
        None \<Rightarrow> None
      | Some h \<Rightarrow> if HEIGHT_MAX \<le> h then None else Some h)"

abbreviation (input) VALUE_LENGTH_MAX :: nat where "VALUE_LENGTH_MAX \<equiv> 256"

definition apply_test_activation_height ::
    "regtest_overrides \<Rightarrow> string \<Rightarrow> (regtest_arg_error, regtest_overrides) res" where
  "apply_test_activation_height ov value =
     (if VALUE_LENGTH_MAX < length value then Err (InvalidFormat value)
      else case split_once CHR ''@'' value of
        None \<Rightarrow> Err (InvalidFormat value)
      | Some (name, height_text) \<Rightarrow>
          (case parse_height height_text of
             None \<Rightarrow> Err (InvalidHeightValue value)
           | Some h \<Rightarrow>
               if name = ''segwit'' then Ok (ov\<lparr>ov_segwit := Some h\<rparr>)
               else if name = ''bip34'' then Ok (ov\<lparr>ov_bip34 := Some h\<rparr>)
               else if name = ''dersig'' then Ok (ov\<lparr>ov_bip66 := Some h\<rparr>)
               else if name = ''cltv'' then Ok (ov\<lparr>ov_bip65 := Some h\<rparr>)
               else if name = ''csv'' then Ok (ov\<lparr>ov_csv := Some h\<rparr>)
               else Err (InvalidName value)))"

definition apply_test_option ::
    "regtest_overrides \<Rightarrow> string \<Rightarrow> (regtest_arg_error, regtest_overrides) res" where
  "apply_test_option ov option =
     (if option = ''bip94'' then Ok (ov\<lparr>ov_bip94 := True\<rparr>) else Err (UnrecognisedTestOption option))"

section \<open>Flag sets as sets of bits\<close>

lemma bit_flag_values:
  "bit FLAG_P2SH n \<longleftrightarrow> n = 0" "bit FLAG_DERSIG n \<longleftrightarrow> n = 2" "bit FLAG_NULLDUMMY n \<longleftrightarrow> n = 4"
  "bit FLAG_CHECKLOCKTIMEVERIFY n \<longleftrightarrow> n = 9" "bit FLAG_CHECKSEQUENCEVERIFY n \<longleftrightarrow> n = 10"
  "bit FLAG_WITNESS n \<longleftrightarrow> n = 11" "bit FLAG_TAPROOT n \<longleftrightarrow> n = 17"
proof -
  have pow: "FLAG_P2SH = 2 ^ 0" "FLAG_DERSIG = 2 ^ 2" "FLAG_NULLDUMMY = 2 ^ 4" "FLAG_CHECKLOCKTIMEVERIFY = 2 ^ 9"
    "FLAG_CHECKSEQUENCEVERIFY = 2 ^ 10" "FLAG_WITNESS = 2 ^ 11" "FLAG_TAPROOT = 2 ^ 17"
    by (simp_all add: FLAG_P2SH_def FLAG_DERSIG_def FLAG_NULLDUMMY_def FLAG_CHECKLOCKTIMEVERIFY_def
        FLAG_CHECKSEQUENCEVERIFY_def FLAG_WITNESS_def FLAG_TAPROOT_def)
  show "bit FLAG_P2SH n \<longleftrightarrow> n = 0" "bit FLAG_DERSIG n \<longleftrightarrow> n = 2" "bit FLAG_NULLDUMMY n \<longleftrightarrow> n = 4"
    "bit FLAG_CHECKLOCKTIMEVERIFY n \<longleftrightarrow> n = 9" "bit FLAG_CHECKSEQUENCEVERIFY n \<longleftrightarrow> n = 10"
    "bit FLAG_WITNESS n \<longleftrightarrow> n = 11" "bit FLAG_TAPROOT n \<longleftrightarrow> n = 17"
    unfolding pow bit_exp_iff possible_bit_word by auto
qed

lemma flags_contains_bits: "flags_contains a b \<longleftrightarrow> (\<forall>n. bit b n \<longrightarrow> bit a n)"
  by (metis (no_types) flags_contains_def bit_and_iff bit_eqI)

lemma is_subset_of_bits: "is_subset_of a b \<longleftrightarrow> (\<forall>n. bit a n \<longrightarrow> bit b n)"
  by (simp add: is_subset_of_def flags_contains_bits)

lemma bit_flags_union [simp]: "bit (flags_union a b) n \<longleftrightarrow> bit a n \<or> bit b n"
  by (simp add: flags_union_def bit_or_iff)

lemma flags_contains_flag:
  "flags_contains f FLAG_P2SH \<longleftrightarrow> bit f 0" "flags_contains f FLAG_DERSIG \<longleftrightarrow> bit f 2"
  "flags_contains f FLAG_NULLDUMMY \<longleftrightarrow> bit f 4" "flags_contains f FLAG_CHECKLOCKTIMEVERIFY \<longleftrightarrow> bit f 9"
  "flags_contains f FLAG_CHECKSEQUENCEVERIFY \<longleftrightarrow> bit f 10" "flags_contains f FLAG_WITNESS \<longleftrightarrow> bit f 11"
  "flags_contains f FLAG_TAPROOT \<longleftrightarrow> bit f 17"
  by (simp_all add: flags_contains_bits bit_flag_values)

lemma subset_always_on:
  "is_subset_of f ALWAYS_ON_SCRIPT_FLAGS \<longleftrightarrow> (\<forall>n. bit f n \<longrightarrow> n = 0 \<or> n = 11 \<or> n = 17)"
  by (simp add: is_subset_of_bits ALWAYS_ON_SCRIPT_FLAGS_def bit_flag_values disj_assoc)

lemma subset_mandatory:
  "is_subset_of f MANDATORY \<longleftrightarrow>
     (\<forall>n. bit f n \<longrightarrow> n = 0 \<or> n = 2 \<or> n = 4 \<or> n = 9 \<or> n = 10 \<or> n = 11 \<or> n = 17)"
  by (simp add: is_subset_of_bits MANDATORY_def bit_flag_values disj_assoc)

text \<open>Each flag set the interpreter sees nests: taproot needs witness, witness needs P2SH.\<close>

definition flags_nested :: "script_flags \<Rightarrow> bool" where
  "flags_nested f \<longleftrightarrow>
     (flags_contains f FLAG_TAPROOT \<longrightarrow> flags_contains f FLAG_WITNESS) \<and>
     (flags_contains f FLAG_WITNESS \<longrightarrow> flags_contains f FLAG_P2SH)"

section \<open>What a chain table must promise\<close>

locale chain_table =
  fixes p :: chain_params
  assumes exceptions_relax:
      "e \<in> set (script_flag_exceptions p) \<Longrightarrow>
         is_subset_of (exception_flags e) ALWAYS_ON_SCRIPT_FLAGS \<and> flags_nested (exception_flags e)"
    and exceptions_distinct: "distinct (map exception_hash (script_flag_exceptions p))"
    and halving_pos: "0 < halving_interval p"
    and repeats_early:
      "d \<in> set (bip30_repeat_exceptions p) \<Longrightarrow>
         repeat_height d \<le> bip34_height_of (bip34 (buried p)) \<and> repeat_height d < BIP34_IMPLIES_BIP30_LIMIT"
begin

lemma flags_base_loop_unmatched:
  "h \<notin> exception_hash ` set es \<Longrightarrow> flags_base_loop h es base matched = (base, matched)"
  by (induction es arbitrary: base matched) auto

lemma flags_base_loop_table:
  assumes "distinct (map exception_hash es)"
  shows "\<exists>f n. flags_base_loop h es base m = (f, m + n) \<and> n \<le> 1 \<and>
     (f = base \<or> (\<exists>e \<in> set es. exception_hash e = h \<and> f = exception_flags e))"
  using assms by (induction es arbitrary: base m) (auto simp: flags_base_loop_unmatched)

lemma script_flags_base_ok:
  "\<exists>f. script_flags_base p h = (Ok f :: ('e, _) res) \<and> is_subset_of f ALWAYS_ON_SCRIPT_FLAGS \<and> flags_nested f"
proof -
  obtain f n where "flags_base_loop h (script_flag_exceptions p) ALWAYS_ON_SCRIPT_FLAGS 0 = (f, n)" "n \<le> 1"
      "f = ALWAYS_ON_SCRIPT_FLAGS \<or> (\<exists>e \<in> set (script_flag_exceptions p). f = exception_flags e)"
    using flags_base_loop_table [OF exceptions_distinct, of h ALWAYS_ON_SCRIPT_FLAGS 0] by auto
  moreover have "is_subset_of ALWAYS_ON_SCRIPT_FLAGS ALWAYS_ON_SCRIPT_FLAGS" "flags_nested ALWAYS_ON_SCRIPT_FLAGS"
    by (simp_all add: is_subset_of_bits flags_nested_def flags_contains_flag ALWAYS_ON_SCRIPT_FLAGS_def
        bit_flag_values)
  ultimately show ?thesis
    using exceptions_relax by (auto simp: script_flags_base_def)
qed

lemma bip30_at_ok:
  assumes "anc \<noteq> None \<longrightarrow> bip34_height_of (bip34 (buried p)) < h"
  shows "\<exists>b. bip30_at p h block_id anc = (Ok b :: ('e, _) res)"
  using assms repeats_early
  by (auto simp: bip30_at_def Let_def list_ex_iff split: option.splits; force)

lemma block_subsidy_ok: "\<exists>s \<le> 50 * COIN. block_subsidy h (halving_interval p) = (Ok s :: ('e, _) res)"
  using halving_pos by (simp add: block_subsidy_def Let_def drop_bit_eq_div)

lemma version_floor_at_ok:
  "\<exists>v. version_floor_at p h = (Ok v :: ('e, _) res) \<and> (bip34_height_of (bip34 (buried p)) \<le> h \<longrightarrow> 2 \<le> v)"
  by (simp add: version_floor_at_def Let_def)

lemma rules_at_ok:
  assumes "anc \<noteq> None \<longrightarrow> bip34_height_of (bip34 (buried p)) < h"
  shows "\<exists>r. rules_at p h block_id anc = (Ok r :: ('e, _) res) \<and> flags_nested (rl_script_flags r) \<and>
     is_subset_of (rl_script_flags r) MANDATORY \<and>
     (flags_contains (rl_script_flags r) FLAG_DERSIG \<longleftrightarrow> bip66 (buried p) \<le> h) \<and>
     (flags_contains (rl_script_flags r) FLAG_CHECKLOCKTIMEVERIFY \<longleftrightarrow> bip65 (buried p) \<le> h) \<and>
     (flags_contains (rl_script_flags r) FLAG_CHECKSEQUENCEVERIFY \<longleftrightarrow> csv (buried p) \<le> h) \<and>
     (flags_contains (rl_script_flags r) FLAG_NULLDUMMY \<longleftrightarrow> segwit (buried p) \<le> h)"
proof -
  obtain f where f: "script_flags_base p block_id = (Ok f :: ('e, _) res)" "is_subset_of f ALWAYS_ON_SCRIPT_FLAGS" "flags_nested f"
    using script_flags_base_ok by blast
  obtain v where v: "version_floor_at p h = (Ok v :: ('e, _) res)" "bip34_height_of (bip34 (buried p)) \<le> h \<longrightarrow> 2 \<le> v"
    using version_floor_at_ok by blast
  obtain b where b: "bip30_at p h block_id anc = (Ok b :: ('e, _) res)" using bip30_at_ok [OF assms] by blast
  obtain s where s: "block_subsidy h (halving_interval p) = (Ok s :: ('e, _) res)" using block_subsidy_ok by blast
  let ?fl = "\<lambda>c k g. if c \<le> h then flags_union g k else g"
  define g where "g = ?fl (segwit (buried p)) FLAG_NULLDUMMY (?fl (csv (buried p)) FLAG_CHECKSEQUENCEVERIFY
    (?fl (bip65 (buried p)) FLAG_CHECKLOCKTIMEVERIFY (?fl (bip66 (buried p)) FLAG_DERSIG f)))"
  have bits: "bit g n \<longleftrightarrow> bit f n \<or> n = 2 \<and> bip66 (buried p) \<le> h \<or> n = 9 \<and> bip65 (buried p) \<le> h
      \<or> n = 10 \<and> csv (buried p) \<le> h \<or> n = 4 \<and> segwit (buried p) \<le> h" for n
    by (auto simp: g_def bit_flag_values)
  have f_bits: "bit f n \<Longrightarrow> n = 0 \<or> n = 11 \<or> n = 17" for n
    using f(2) by (simp add: subset_always_on)
  have "flags_nested g" "is_subset_of g MANDATORY"
    using f(3) f_bits by (auto simp: flags_nested_def flags_contains_flag subset_mandatory bits)
  moreover have "flags_contains g FLAG_NULLDUMMY = (segwit (buried p) \<le> h)" "flags_contains g FLAG_CHECKSEQUENCEVERIFY = (csv (buried p) \<le> h)"
    "flags_contains g FLAG_DERSIG = (bip66 (buried p) \<le> h)"
    "flags_contains g FLAG_CHECKLOCKTIMEVERIFY = (bip65 (buried p) \<le> h)"
    using f_bits [of 4] f_bits [of 10] f_bits [of 2] f_bits [of 9] by (auto simp: flags_contains_flag bits)
  ultimately show ?thesis
    using assms v(2) unfolding rules_at_def Let_def f(1) v(1) b s and_then.simps g_def [symmetric] by simp
qed

end

section \<open>The three tables\<close>

lemma mainnet_exceptions_distinct: "distinct (map exception_hash MAINNET_SCRIPT_FLAG_EXCEPTIONS)"
  by code_simp

interpretation mainnet: chain_table "mainnet_table genesis_block" for genesis_block
  by unfold_locales
    (auto simp: mainnet_table_def mainnet_exceptions_distinct, auto simp: MAINNET_SCRIPT_FLAG_EXCEPTIONS_def
      MAINNET_BIP30_REPEAT_EXCEPTIONS_def FLAG_NONE_def subset_always_on flags_nested_def flags_contains_flag
      bit_flag_values)

interpretation signet: chain_table "signet_table genesis_block challenge" for genesis_block challenge
  by unfold_locales (auto simp: signet_table_def)

interpretation regtest: chain_table "regtest_table genesis_block ov" for genesis_block ov
  by unfold_locales (auto simp: regtest_table_def)

lemma pow_limit_lengths [simp]:
  "length MAINNET_POW_LIMIT = 32" "length SIGNET_POW_LIMIT = 32" "length REGTEST_POW_LIMIT = 32"
  by code_simp+

lemma pow_limit_bytes:
  "MAINNET_POW_LIMIT = [0, 0, 0, 0, 255, 255] @ replicate 26 0"
  "SIGNET_POW_LIMIT = [0, 0, 3, 0x77, 0xae] @ replicate 27 0"
  "REGTEST_POW_LIMIT = 0x7f # replicate 31 255"
  by code_simp+

lemma bytes_val_replicate_255: "bytes_val (replicate n 255) = 256 ^ n - 1"
proof (induction n)
  case (Suc n)
  have "1 \<le> (256 :: nat) ^ n" by simp
  with Suc show ?case by simp
qed simp

lemma pow_limit_values:
  "bytes_val MAINNET_POW_LIMIT = 0xffff * 2 ^ 208"
  "bytes_val SIGNET_POW_LIMIT = 0x377ae * 2 ^ 216"
  "bytes_val REGTEST_POW_LIMIT = 2 ^ 255 - 1"
  by (simp_all add: pow_limit_bytes bytes_val_append bytes_val_replicate_255)

lemma mainnet_ok:
  assumes "block_hash (block_header (genesis_block Mainnet)) = MAINNET_GENESIS_HASH"
    and "length (txdata (genesis_block Mainnet)) = 1"
  shows "mainnet block_hash genesis_block = Ok (mainnet_table genesis_block)"
proof -
  have "list_all (\<lambda>e. is_subset_of (exception_flags e) ALWAYS_ON_SCRIPT_FLAGS) MAINNET_SCRIPT_FLAG_EXCEPTIONS"
    using mainnet.exceptions_relax [of _ genesis_block] by (simp add: list_all_iff mainnet_table_def)
  then show ?thesis
    using assms
    by (simp add: mainnet_def assert_invariants_def mainnet_table_def pow_limit_values Let_def i_rem_def i_div_def
        MAINNET_SCRIPT_FLAG_EXCEPTIONS_def MAINNET_BIP30_REPEAT_EXCEPTIONS_def)
qed

lemma signet_ok:
  assumes "block_hash (block_header (genesis_block Signet)) = SIGNET_GENESIS_HASH"
    and "length (txdata (genesis_block Signet)) = 1" and "challenge \<noteq> []"
  shows "signet block_hash genesis_block challenge = Ok (signet_table genesis_block challenge)"
  using assms
  by (simp add: signet_def assert_invariants_def signet_table_def pow_limit_values Let_def i_rem_def i_div_def)

lemma regtest_ok:
  assumes "block_hash (block_header (genesis_block Regtest)) = REGTEST_GENESIS_HASH"
    and "length (txdata (genesis_block Regtest)) = 1"
  shows "regtest block_hash genesis_block ov = Ok (regtest_table genesis_block ov)"
  using assms
  by (simp add: regtest_def assert_invariants_def regtest_table_def pow_limit_values Let_def i_rem_def i_div_def)

section \<open>The subsidy schedule\<close>

definition subsidy_of :: "nat \<Rightarrow> height \<Rightarrow> nat" where
  "subsidy_of interval h = (if 64 \<le> h div interval then 0 else 5000000000 div 2 ^ (h div interval))"

lemma block_subsidy_eq: "0 < interval \<Longrightarrow> block_subsidy h interval = Ok (subsidy_of interval h)"
  by (simp add: block_subsidy_def subsidy_of_def Let_def drop_bit_eq_div)

lemma subsidy_of_period:
  assumes "h \<in> {k * i..<k * i + i}"
  shows "subsidy_of i h = (if 64 \<le> k then 0 else 5000000000 div 2 ^ k)"
proof -
  have "h div i = k"
    using assms by (intro div_nat_eqI) (auto simp: algebra_simps)
  then show ?thesis by (simp add: subsidy_of_def)
qed

lemma sum_subsidy_periods:
  "(\<Sum>h < n * i. subsidy_of i h) = i * (\<Sum>k < n. if 64 \<le> k then 0 else 5000000000 div 2 ^ k)"
proof -
  have "(\<Sum>h < n * i. subsidy_of i h) = (\<Sum>k < n. \<Sum>h = k * i..<k * i + i. subsidy_of i h)"
    by (simp add: sum.nat_group)
  also have "\<dots> = (\<Sum>k < n. i * (if 64 \<le> k then 0 else 5000000000 div 2 ^ k))"
    by (intro sum.cong refl) (simp add: subsidy_of_period)
  finally show ?thesis by (simp add: sum_distrib_left)
qed

lemma sum_halvings: "(\<Sum>k < n. if 64 \<le> k then 0 else 5000000000 div 2 ^ k) \<le> (9999999989 :: nat)"
proof -
  have "(\<Sum>k < n. if 64 \<le> k then 0 else 5000000000 div 2 ^ k)
      \<le> (\<Sum>k < n + 64. if 64 \<le> k then 0 else 5000000000 div 2 ^ k :: nat)"
    by (intro sum_mono2) auto
  also have "\<dots> = (\<Sum>k < 64. if 64 \<le> k then 0 else 5000000000 div 2 ^ k)"
    by (intro sum.mono_neutral_right) auto
  also have "\<dots> = (9999999989 :: nat)"
    by (simp add: lessThan_nat_numeral lessThan_Suc)
  finally show ?thesis .
qed

lemma total_subsidy:
  assumes "0 < i"
  shows "(\<Sum>h < n. subsidy_of i h) \<le> i * 9999999989"
proof -
  have "(\<Sum>h < n. subsidy_of i h) \<le> (\<Sum>h < n * i. subsidy_of i h)"
    using assms by (intro sum_mono2) auto
  also have "\<dots> \<le> i * 9999999989"
    unfolding sum_subsidy_periods by (intro mult_le_mono2 sum_halvings)
  finally show ?thesis .
qed

section \<open>Properties\<close>

text \<open>C11: on every chain table the derivation of a block's rules passes its own assertions, its
  flags nest (taproot needs witness, witness needs P2SH), stay inside the mandatory set, and
  switch on exactly at the table's heights.\<close>

theorem rules_at_tables:
  assumes "p = mainnet_table g \<or> p = signet_table g challenge \<or> p = regtest_table g ov"
    and "anc \<noteq> None \<Longrightarrow> bip34_height_of (bip34 (buried p)) < h"
  shows "\<exists>r. rules_at p h block_id anc = (Ok r :: ('e, _) res) \<and> flags_nested (rl_script_flags r) \<and>
     is_subset_of (rl_script_flags r) MANDATORY \<and>
     (flags_contains (rl_script_flags r) FLAG_DERSIG \<longleftrightarrow> bip66 (buried p) \<le> h) \<and>
     (flags_contains (rl_script_flags r) FLAG_CHECKLOCKTIMEVERIFY \<longleftrightarrow> bip65 (buried p) \<le> h) \<and>
     (flags_contains (rl_script_flags r) FLAG_CHECKSEQUENCEVERIFY \<longleftrightarrow> csv (buried p) \<le> h) \<and>
     (flags_contains (rl_script_flags r) FLAG_NULLDUMMY \<longleftrightarrow> segwit (buried p) \<le> h)"
proof -
  have anc: "anc \<noteq> None \<longrightarrow> bip34_height_of (bip34 (buried p)) < h" using assms(2) by blast
  from assms(1) consider "p = mainnet_table g" | "p = signet_table g challenge" | "p = regtest_table g ov" by blast
  then show ?thesis
    using mainnet.rules_at_ok [of anc g h block_id, where 'e = 'e] signet.rules_at_ok [of anc g challenge h block_id, where 'e = 'e]
      regtest.rules_at_ok [of anc g ov h block_id, where 'e = 'e] anc
    by cases simp_all
qed

theorem rules_at_tables_witness:
  "\<exists>r. rules_at (signet_table (\<lambda>_. \<lparr> block_header = \<lparr> hdr_version = 1, prev_blockhash = [], merkle_root = [],
       hdr_time = 0, hdr_bits = 0, hdr_nonce = 0 \<rparr>, txdata = [] \<rparr>) [0x51]) 1 [] None = (Ok r :: (unit, _) res) \<and>
     flags_contains (rl_script_flags r) FLAG_NULLDUMMY"
  using rules_at_tables [of "signet_table (\<lambda>_. \<lparr> block_header = \<lparr> hdr_version = 1, prev_blockhash = [],
      merkle_root = [], hdr_time = 0, hdr_bits = 0, hdr_nonce = 0 \<rparr>, txdata = [] \<rparr>) [0x51]"
      "\<lambda>_. \<lparr> block_header = \<lparr> hdr_version = 1, prev_blockhash = [],
      merkle_root = [], hdr_time = 0, hdr_bits = 0, hdr_nonce = 0 \<rparr>, txdata = [] \<rparr>" "[0x51]" _ None 1 "[]",
      where 'e = unit]
  by (auto simp: signet_table_def)

text \<open>C18: summed over any number of mainnet blocks the subsidies stay below 21 million coins.\<close>

theorem subsidy_below_max_money:
  "\<exists>s. (\<forall>h. block_subsidy h 210000 = (Ok (s h) :: ('e, _) res)) \<and>
     (\<forall>n. (\<Sum>h < n. s h) \<le> 21000000 * 100000000)"
proof (intro exI [of _ "subsidy_of 210000"] conjI allI)
  show "block_subsidy h 210000 = (Ok (subsidy_of 210000 h) :: ('e, _) res)" for h
    by (simp add: block_subsidy_eq)
  show "(\<Sum>h < n. subsidy_of 210000 h) \<le> 21000000 * 100000000" for n
    using total_subsidy [of 210000 n] by simp
qed

end
