(* ===== verification/Script_Num.thy ===== *)
theory Script_Num
  imports Script_Types
begin

text \<open>
  \<^verbatim>\<open>crates/consensus/src/script/num.rs\<close>: script numbers, little-endian sign-magnitude byte
  strings of at most four (five for lock times) bytes as operands, and the truth value of a
  byte string. The lemmas give the number a byte string denotes at any length, that decoding
  returns it and encoding writes its shortest string, and that a byte string is false exactly
  when the number is zero.
\<close>

section \<open>The model\<close>

abbreviation (input) SCRIPTNUM_SIZE_MAX :: nat where "SCRIPTNUM_SIZE_MAX \<equiv> 4"
abbreviation (input) SCRIPTNUM_LOCKTIME_SIZE_MAX :: nat where "SCRIPTNUM_LOCKTIME_SIZE_MAX \<equiv> 5"

type_synonym script_num = int

fun magnitude_loop :: "nat \<Rightarrow> bytes \<Rightarrow> int \<Rightarrow> int" where
  "magnitude_loop index [] magnitude = magnitude"
| "magnitude_loop index (b # bs) magnitude =
     magnitude_loop (index + 1) bs (magnitude OR push_bit (8 * index) (uint b))"

definition num_decode :: "bytes \<Rightarrow> nat \<Rightarrow> (script_error, script_num) res" where
  "num_decode bs size_max = ensure (size_max \<le> SCRIPTNUM_LOCKTIME_SIZE_MAX)
     (if size_max < length bs then Err Scriptnum
      else if bs = [] then Ok 0
      else let magnitude = magnitude_loop 0 bs 0;
               value = (if last bs AND 0x80 \<noteq> 0
                        then - (magnitude AND NOT (push_bit (8 * (length bs - 1)) 0x80))
                        else magnitude)
           in ensure (\<bar>value\<bar> < 2 ^ 39) (Ok value))"

definition num_from_i64 :: "int \<Rightarrow> ('e, script_num) res" where
  "num_from_i64 v = ensure (\<bar>v\<bar> < 2 ^ 40) (Ok v)"

definition num_from_usize :: "nat \<Rightarrow> ('e, script_num) res" where
  "num_from_usize v = ensure (v < 2 ^ 63) (Ok (int v))"

definition num_from_bool :: "bool \<Rightarrow> script_num" where
  "num_from_bool b = (if b then 1 else 0)"

definition to_clamped_i32 :: "script_num \<Rightarrow> int" where
  "to_clamped_i32 n = (if in_i32 n then n else if n < 0 then - (2 ^ 31) else 2 ^ 31 - 1)"

function encode_loop :: "nat \<Rightarrow> bytes" where
  "encode_loop magnitude =
     (if 0 < magnitude then word_of_nat (magnitude mod 256) # encode_loop (magnitude div 256) else [])"
  by pat_completeness auto
termination
  by (relation "measure id") auto

declare encode_loop.simps [simp del]

definition num_encode :: "script_num \<Rightarrow> ('e, bytes) res" where
  "num_encode n =
     (if n = 0 then Ok []
      else let negative = n < 0;
               bs = encode_loop (nat \<bar>n\<bar>)
           in ensure (bs \<noteq> [])
                (let last_byte = last bs;
                     bs = (if last_byte AND 0x80 \<noteq> 0 then bs @ [if negative then 0x80 else 0]
                           else if negative then butlast bs @ [last_byte OR 0x80]
                           else bs)
                 in ensure (length bs \<le> 9) (Ok bs)))"

definition num_add :: "script_num \<Rightarrow> script_num \<Rightarrow> ('e, script_num) res" where
  "num_add a b = ensure (in_i64 (a + b)) (Ok (a + b))"

definition num_sub :: "script_num \<Rightarrow> script_num \<Rightarrow> ('e, script_num) res" where
  "num_sub a b = ensure (in_i64 (a - b)) (Ok (a - b))"

definition num_neg :: "script_num \<Rightarrow> ('e, script_num) res" where
  "num_neg a = ensure (in_i64 (- a)) (Ok (- a))"

definition num_abs :: "script_num \<Rightarrow> ('e, script_num) res" where
  "num_abs a = (if a < 0 then num_neg a else Ok a)"

definition num_is_zero :: "script_num \<Rightarrow> bool" where
  "num_is_zero a \<longleftrightarrow> a = 0"

fun cast_loop :: "nat \<Rightarrow> nat \<Rightarrow> bytes \<Rightarrow> bool" where
  "cast_loop len index [] = False"
| "cast_loop len index (b # bs) =
     (if b \<noteq> 0 then (let is_last = (index = len - 1) in \<not> (is_last \<and> b = 0x80))
      else cast_loop len (index + 1) bs)"

definition cast_to_bool :: "bytes \<Rightarrow> bool" where
  "cast_to_bool bs = cast_loop (length bs) 0 bs"

section \<open>The number a byte string denotes\<close>

definition num_val :: "bytes \<Rightarrow> int" where
  "num_val bs =
     (if bs \<noteq> [] \<and> 128 \<le> unat (last bs)
      then - (int (le_val bs) - 128 * 256 ^ (length bs - 1))
      else int (le_val bs))"

lemma magnitude_loop_val:
  "a < 2 ^ (8 * i) \<Longrightarrow> magnitude_loop i bs (int a) = int (a + 2 ^ (8 * i) * le_val bs)"
proof (induction bs arbitrary: a i)
  case (Cons b bs)
  have "int a OR push_bit (8 * i) (uint b) = int (unat b * 2 ^ (8 * i) OR a)"
    by (simp only: of_nat_or_eq push_bit_eq_mult uint_nat of_nat_mult of_nat_power of_nat_numeral or.commute)
  also have "\<dots> = int (a + unat b * 2 ^ (8 * i))"
    using or_nat_mult_add [OF Cons.prems] by simp
  finally have step: "int a OR push_bit (8 * i) (uint b) = int (a + unat b * 2 ^ (8 * i))" .
  have "(unat b + 1) * 2 ^ (8 * i) \<le> 256 * 2 ^ (8 * i)"
    using unat_u8_less [of b] by (intro mult_le_mono1) linarith
  then have "a + unat b * 2 ^ (8 * i) < 2 ^ (8 * (i + 1))"
  proof -
    have "(2 :: nat) ^ (8 * (i + 1)) = 256 * 2 ^ (8 * i)" by (simp add: power_add)
    with \<open>(unat b + 1) * 2 ^ (8 * i) \<le> 256 * 2 ^ (8 * i)\<close> Cons.prems show ?thesis
      unfolding add_mult_distrib mult_1 by linarith
  qed
  from Cons.IH [OF this] show ?case
    by (simp only: magnitude_loop.simps step) (simp add: power_add algebra_simps)
qed simp

lemma le_val_last:
  assumes "bs \<noteq> []"
  shows "le_val bs = le_val (butlast bs) + 256 ^ (length bs - 1) * unat (last bs)"
  using le_val_append [of "butlast bs" "[last bs]"] assms by simp

lemma magnitude_clear_sign:
  assumes "bs \<noteq> []" and "128 \<le> unat (last bs)"
  shows "int (le_val bs) AND NOT (push_bit (8 * (length bs - 1)) 0x80) = int (le_val bs) - 128 * 256 ^ (length bs - 1)"
proof -
  define k where "k = 8 * (length bs - 1)"
  have p: "push_bit k 0x80 = push_bit (k + 7) (1 :: int)"
    by (simp add: push_bit_eq_mult power_add)
  have "le_val (butlast bs) < 2 ^ k"
    using le_val_less [of "butlast bs"] by (simp add: k_def power_mult)
  moreover have "le_val bs = unat (last bs) * 2 ^ k + le_val (butlast bs)"
    using le_val_last [OF assms(1)] by (simp add: k_def power_mult)
  ultimately have "bit (le_val bs) (k + 7) \<longleftrightarrow> bit (unat (last bs)) 7"
    by (simp add: bit_nat_mult_add)
  also have "\<dots> \<longleftrightarrow> 128 \<le> unat (last bs)"
    using u8_and_128 [of "last bs"] and_sign_bit [of "last bs" 7] by (simp add: bit_unsigned_iff)
  finally have "bit (int (le_val bs)) (k + 7)"
    using assms(2) by (simp add: bit_of_nat_iff)
  then have "unset_bit (k + 7) (int (le_val bs)) = int (le_val bs) - 2 ^ (k + 7)"
    by (simp add: unset_bit_eq)
  then have "int (le_val bs) AND NOT (push_bit k 0x80) = int (le_val bs) - 2 ^ (k + 7)"
    by (simp only: p unset_bit_eq_and_not)
  then show ?thesis by (simp add: k_def power_add power_mult)
qed

lemma num_val_bound:
  assumes "bs \<noteq> []"
  shows "\<bar>num_val bs\<bar> < 128 * 256 ^ (length bs - 1)"
proof -
  let ?p = "256 ^ (length bs - 1) :: nat"
  have "le_val (butlast bs) < ?p" using le_val_less [of "butlast bs"] by simp
  moreover have "le_val bs = le_val (butlast bs) + ?p * unat (last bs)" by (rule le_val_last [OF assms])
  ultimately have lo: "?p * unat (last bs) \<le> le_val bs" and hi: "le_val bs < ?p * (unat (last bs) + 1)"
    by simp_all
  show ?thesis
  proof (cases "128 \<le> unat (last bs)")
    case True
    have "?p * (unat (last bs) + 1) \<le> ?p * 256" using unat_u8_less [of "last bs"] by (intro mult_le_mono2) linarith
    moreover have "?p * 128 \<le> ?p * unat (last bs)" using True by simp
    ultimately have "128 * ?p \<le> le_val bs" "le_val bs < 256 * ?p"
      using lo hi by linarith+
    then have "128 * int ?p \<le> int (le_val bs)" "int (le_val bs) < 256 * int ?p"
      by (metis of_nat_le_iff of_nat_less_iff of_nat_mult of_nat_numeral)+
    then show ?thesis using True assms by (simp add: num_val_def)
  next
    case False
    have "?p * (unat (last bs) + 1) \<le> ?p * 128" using False by (intro mult_le_mono2) linarith
    with hi have "int (le_val bs) < int (128 * ?p)" by linarith
    then show ?thesis using False by (simp add: num_val_def)
  qed
qed

lemma num_decode_val:
  assumes "size_max \<le> 5"
  shows "num_decode bs size_max = (if length bs \<le> size_max then Ok (num_val bs) else Err Scriptnum)"
proof (cases "length bs \<le> size_max \<and> bs \<noteq> []")
  case True
  have mag: "magnitude_loop 0 bs 0 = int (le_val bs)"
    using magnitude_loop_val [of 0 0 bs] by simp
  have "128 * 256 ^ (length bs - 1) \<le> (2 :: int) ^ 39"
  proof -
    have "length bs - 1 \<le> 4" using True assms by linarith
    then have "(256 :: int) ^ (length bs - 1) \<le> 256 ^ 4" by (intro power_increasing) simp_all
    then show ?thesis by simp
  qed
  then have "\<bar>num_val bs\<bar> < 2 ^ 39" using num_val_bound True by force
  moreover have "(if last bs AND 0x80 \<noteq> 0 then - (magnitude_loop 0 bs 0 AND NOT (push_bit (8 * (length bs - 1)) 0x80))
      else magnitude_loop 0 bs 0) = num_val bs"
    using True magnitude_clear_sign [of bs] by (simp only: mag u8_and_128 num_val_def) simp
  ultimately show ?thesis
    using True assms by (simp add: num_decode_def Let_def)
qed (use assms in \<open>auto simp: num_decode_def num_val_def\<close>)

lemma encode_loop_0 [simp]: "encode_loop 0 = []"
  by (simp add: encode_loop.simps [of 0])

lemma encode_loop_pos: "0 < n \<Longrightarrow> encode_loop n = word_of_nat (n mod 256) # encode_loop (n div 256)"
  by (simp add: encode_loop.simps [of n])

lemma unat_byte_of_nat: "unat (word_of_nat (n mod 256) :: u8) = n mod 256"
  by (simp add: unsigned_of_nat take_bit_nat_eq_self)

lemma encode_loop_val: "le_val (encode_loop n) = n"
proof (induction n rule: encode_loop.induct)
  case (1 n)
  then show ?case
    by (cases "0 < n") (simp_all add: encode_loop_pos unat_byte_of_nat)
qed

lemma encode_loop_length: "0 < n \<Longrightarrow> encode_loop n \<noteq> [] \<and> 256 ^ (length (encode_loop n) - 1) \<le> n \<and>
    last (encode_loop n) \<noteq> 0"
proof (induction n rule: encode_loop.induct)
  case (1 n)
  show ?case
  proof (cases "n div 256 = 0")
    case True
    with 1 have "n < 256" by (simp add: div_eq_0_iff)
    with 1 True show ?thesis
      by (auto simp: encode_loop_pos unsigned_of_nat take_bit_nat_eq_self word_unat_eq_iff)
  next
    case False
    with 1 have IH: "encode_loop (n div 256) \<noteq> []" "256 ^ (length (encode_loop (n div 256)) - 1) \<le> n div 256"
      "last (encode_loop (n div 256)) \<noteq> 0"
      by auto
    then obtain k where k: "length (encode_loop (n div 256)) = Suc k"
      by (cases "encode_loop (n div 256)") auto
    have "256 * 256 ^ k \<le> 256 * (n div 256)" using IH(2) k by simp
    also have "\<dots> \<le> n" by simp
    finally show ?thesis
      using 1 IH k by (simp add: encode_loop_pos)
  qed
qed

lemma encode_loop_length_le: "n < 256 ^ k \<Longrightarrow> length (encode_loop n) \<le> k"
proof (rule ccontr)
  assume n: "n < 256 ^ k" and "\<not> length (encode_loop n) \<le> k"
  then have "0 < n" by (cases "n = 0") auto
  have "(256 :: nat) ^ k \<le> 256 ^ (length (encode_loop n) - 1)"
    using \<open>\<not> length (encode_loop n) \<le> k\<close> by (intro power_increasing) auto
  also have "\<dots> \<le> n" using encode_loop_length [OF \<open>0 < n\<close>] by blast
  finally show False using n by simp
qed

text \<open>The sign step: which string \<open>num_encode\<close> writes for a non-zero number.\<close>

definition sign_bytes :: "bool \<Rightarrow> bytes \<Rightarrow> bytes" where
  "sign_bytes negative bs =
     (if last bs AND 0x80 \<noteq> 0 then bs @ [if negative then 0x80 else 0]
      else if negative then butlast bs @ [last bs OR 0x80]
      else bs)"

lemma unat_or_128: "unat (b :: u8) < 128 \<Longrightarrow> unat (b OR 0x80) = unat b + 128"
  using or_nat_mult_add [of "unat b" 7 1] by (simp add: unsigned_or_eq or.commute)

lemma sign_bytes_val:
  assumes "bs \<noteq> []"
  shows "num_val (sign_bytes negative bs) = (if negative then - int (le_val bs) else int (le_val bs))"
proof (cases "128 \<le> unat (last bs)")
  case True
  then show ?thesis
    by (auto simp: sign_bytes_def u8_and_128 num_val_def le_val_append)
next
  case False
  then have "unat (last bs OR 0x80) = unat (last bs) + 128" by (simp add: unat_or_128)
  with False assms show ?thesis
    using le_val_last [OF assms]
    by (auto simp: sign_bytes_def u8_and_128 num_val_def le_val_append algebra_simps)
qed

lemma num_encode_eq:
  assumes "\<bar>n\<bar> \<le> 2 ^ 63"
  shows "num_encode n = (Ok (if n = 0 then [] else sign_bytes (n < 0) (encode_loop (nat \<bar>n\<bar>))) :: ('e, _) res)"
proof (cases "n = 0")
  case False
  have "nat \<bar>n\<bar> < 256 ^ 8" using assms by simp
  from encode_loop_length_le [OF this] have "length (sign_bytes (n < 0) (encode_loop (nat \<bar>n\<bar>))) \<le> 9"
    by (auto simp: sign_bytes_def)
  with False encode_loop_length [of "nat \<bar>n\<bar>"] show ?thesis
    by (auto simp: num_encode_def Let_def sign_bytes_def)
qed (simp add: num_encode_def)

lemma num_encode_ok:
  assumes "\<bar>n\<bar> \<le> 2 ^ 63"
  shows "\<exists>bs. num_encode n = (Ok bs :: ('e, _) res) \<and> num_val bs = n \<and>
    (n \<noteq> 0 \<longrightarrow> bs \<noteq> [] \<and> (2 \<le> length bs \<longrightarrow> 128 * 256 ^ (length bs - 2) \<le> \<bar>n\<bar>)) \<and> (n = 0 \<longrightarrow> bs = [])"
proof (cases "n = 0")
  case True
  then show ?thesis by (simp add: num_encode_eq num_val_def)
next
  case False
  define m where "m = nat \<bar>n\<bar>"
  have m: "0 < m" "int m = \<bar>n\<bar>" using False by (simp_all add: m_def)
  let ?bs = "encode_loop m"
  note l = encode_loop_length [OF m(1)]
  have "2 \<le> length (sign_bytes (n < 0) ?bs) \<longrightarrow> 128 * 256 ^ (length (sign_bytes (n < 0) ?bs) - 2) \<le> m"
  proof (cases "128 \<le> unat (last ?bs)")
    case True
    then have "256 ^ (length ?bs - 1) * 128 \<le> 256 ^ (length ?bs - 1) * unat (last ?bs)" by simp
    also have "\<dots> \<le> m" using le_val_last [of ?bs] l by (simp add: encode_loop_val)
    finally show ?thesis using True l by (simp add: sign_bytes_def u8_and_128 mult.commute)
  next
    case False
    then have len: "length (sign_bytes (n < 0) ?bs) = length ?bs"
      using l by (simp add: sign_bytes_def u8_and_128)
    have "128 * 256 ^ (length ?bs - 2) \<le> (256 :: nat) ^ (length ?bs - 1)" if "2 \<le> length ?bs"
    proof -
      have "length ?bs - 1 = Suc (length ?bs - 2)" using that by linarith
      then show ?thesis by simp
    qed
    with l show ?thesis unfolding len by (meson le_trans)
  qed
  then have "2 \<le> length (sign_bytes (n < 0) ?bs) \<longrightarrow>
      128 * 256 ^ (length (sign_bytes (n < 0) ?bs) - 2) \<le> int m"
    using of_nat_mono [where 'a = int] by fastforce
  moreover have "num_val (sign_bytes (n < 0) ?bs) = n"
    using sign_bytes_val [of ?bs "n < 0"] l m by (simp add: encode_loop_val)
  moreover have "sign_bytes (n < 0) ?bs \<noteq> []"
    using l by (auto simp: sign_bytes_def)
  ultimately show ?thesis
    using False m num_encode_eq [OF assms, where 'e = 'e] by (simp add: m_def)
qed

text \<open>No other string denoting the number is shorter.\<close>

lemma num_encode_shortest:
  assumes "\<bar>num_val cs\<bar> \<le> 2 ^ 63"
  shows "\<exists>bs. num_encode (num_val cs) = (Ok bs :: ('e, _) res) \<and> length bs \<le> length cs"
proof -
  let ?n = "num_val cs"
  obtain bs where bs: "num_encode ?n = (Ok bs :: ('e, _) res)"
      "?n \<noteq> 0 \<longrightarrow> bs \<noteq> [] \<and> (2 \<le> length bs \<longrightarrow> 128 * 256 ^ (length bs - 2) \<le> \<bar>?n\<bar>)" "?n = 0 \<longrightarrow> bs = []"
    using num_encode_ok [OF assms, where 'e = 'e] by blast
  have "length bs \<le> length cs"
  proof (rule ccontr)
    assume longer: "\<not> length bs \<le> length cs"
    have nz: "?n \<noteq> 0" and "cs \<noteq> []" using longer bs by (auto simp: num_val_def)
    from longer have "length cs \<le> length bs - 1" and "2 \<le> length bs"
      using \<open>cs \<noteq> []\<close> by (auto simp: Suc_le_eq neq_Nil_conv)
    then have "(256 :: int) ^ (length cs - 1) \<le> 256 ^ (length bs - 2)"
      by (intro power_increasing) auto
    moreover have "128 * 256 ^ (length bs - 2) \<le> \<bar>?n\<bar>"
      using bs(2) nz \<open>2 \<le> length bs\<close> by blast
    ultimately have "128 * 256 ^ (length cs - 1) \<le> \<bar>?n\<bar>" by linarith
    with num_val_bound [OF \<open>cs \<noteq> []\<close>] show False by simp
  qed
  with bs(1) show ?thesis by blast
qed

lemma num_val_Cons_0: "bs \<noteq> [] \<Longrightarrow> num_val (0 # bs) = 256 * num_val bs"
  by (cases bs) (simp_all add: num_val_def)

lemma num_val_Cons_nz:
  assumes "bs \<noteq> []" and "b \<noteq> 0"
  shows "num_val (b # bs) \<noteq> 0"
proof
  assume "num_val (b # bs) = 0"
  then have "int (le_val (b # bs)) = int (128 * 256 ^ length bs) \<or> int (le_val (b # bs)) = int 0"
    using assms(1) by (auto simp: num_val_def split: if_splits)
  then have "le_val (b # bs) = 128 * 256 ^ length bs \<or> le_val (b # bs) = 0"
    by (simp only: of_nat_eq_iff)
  then have "le_val (b # bs) mod 256 = 0"
    using assms(1) by (cases bs) auto
  moreover have "le_val (b # bs) mod 256 = unat b" by simp
  ultimately show False using assms(2) by (simp add: unat_eq_0)
qed

lemma cast_loop_val: "len = i + length bs \<Longrightarrow> cast_loop len i bs \<longleftrightarrow> num_val bs \<noteq> 0"
proof (induction bs arbitrary: i)
  case Nil
  then show ?case by (simp add: num_val_def)
next
  case (Cons b bs)
  show ?case
  proof (cases "bs = []")
    case True
    have "b = 0x80 \<longleftrightarrow> uint b = 128" "b = 0 \<longleftrightarrow> uint b = 0" by (simp_all add: word_uint_eq_iff)
    moreover have "128 \<le> unat b \<longleftrightarrow> 128 \<le> uint b" by (simp only: unat_eq_nat_uint) linarith
    ultimately show ?thesis
      using True Cons.prems by (auto simp: num_val_def)
  next
    case False
    with Cons.prems have "i \<noteq> len - 1" by (cases bs) auto
    with Cons False show ?thesis
      by (cases "b = 0") (simp_all add: num_val_Cons_0 num_val_Cons_nz)
  qed
qed

lemma cast_to_bool_val: "cast_to_bool bs \<longleftrightarrow> num_val bs \<noteq> 0"
  by (simp add: cast_to_bool_def cast_loop_val)

lemma num_encode_length: "num_encode n = Ok bs \<Longrightarrow> length bs \<le> 9"
  by (auto simp: num_encode_def Let_def split: if_splits)

lemma num_val_4: "length bs \<le> 4 \<Longrightarrow> \<bar>num_val bs\<bar> < 2 ^ 31"
proof (cases "bs = []")
  case False
  assume "length bs \<le> 4"
  then have "(256 :: int) ^ (length bs - 1) \<le> 256 ^ 3" by (intro power_increasing) simp_all
  with num_val_bound [OF False] show ?thesis by simp
qed (simp add: num_val_def)

section \<open>Properties\<close>

text \<open>C26: a number of at most 39 bits written by \<open>encode\<close> is read back by \<open>decode\<close>, no byte string
  denoting it is shorter, and a number below \<open>2 ^ 31\<close> fits the four bytes of an operand.\<close>

theorem script_num_roundtrip:
  assumes "\<bar>n\<bar> < 2 ^ 39"
  shows "\<exists>bs. num_encode n = (Ok bs :: ('e, _) res) \<and> num_decode bs 5 = Ok n \<and>
    (\<bar>n\<bar> < 2 ^ 31 \<longrightarrow> num_decode bs 4 = Ok n) \<and> (\<forall>cs. num_val cs = n \<longrightarrow> length bs \<le> length cs)"
proof -
  have b: "\<bar>n\<bar> \<le> 2 ^ 63" using assms by simp
  obtain bs where bs: "num_encode n = (Ok bs :: ('e, _) res)" "num_val bs = n"
    "n \<noteq> 0 \<longrightarrow> bs \<noteq> [] \<and> (2 \<le> length bs \<longrightarrow> 128 * 256 ^ (length bs - 2) \<le> \<bar>n\<bar>)" "n = 0 \<longrightarrow> bs = []"
    using num_encode_ok [OF b, where 'e = 'e] by blast
  have short: "length bs \<le> k" if "\<bar>n\<bar> < 128 * 256 ^ (k - 1)" "1 \<le> k" for k
  proof (rule ccontr)
    assume l: "\<not> length bs \<le> k"
    then have "(256 :: int) ^ (k - 1) \<le> 256 ^ (length bs - 2)" by (intro power_increasing) auto
    moreover have "128 * 256 ^ (length bs - 2) \<le> \<bar>n\<bar>" using bs l that(2) by force
    ultimately show False using that(1) by linarith
  qed
  have "length bs \<le> 5" "\<bar>n\<bar> < 2 ^ 31 \<longrightarrow> length bs \<le> 4"
    using short [of 5] short [of 4] assms by simp_all
  moreover have "length bs \<le> length cs" if "num_val cs = n" for cs
    using num_encode_shortest [of cs, where 'e = 'e] that b bs(1) by auto
  ultimately show ?thesis using bs by (auto simp: num_decode_val)
qed

theorem script_num_roundtrip_witness:
  "\<exists>bs. num_encode (- 255) = (Ok bs :: (unit, _) res) \<and> num_decode bs 5 = Ok (- 255) \<and> num_decode bs 4 = Ok (- 255)"
  using script_num_roundtrip [of "- 255", where 'e = unit] by auto


end
