(* ===== verification/Script_Stack.thy ===== *)
theory Script_Stack
  imports Script_Types
begin

text \<open>
  \<^verbatim>\<open>crates/consensus/src/script/stack.rs\<close>: the interpreter's data stack, a vector of byte strings
  with its top at the end, addressed by depth from the top. Every method asserts its depth
  and every push the 520-byte element limit; the equations in \<open>outcome\<close> state exactly when
  those assertions pass. The locale \<open>depth_stack\<close> is the contract over a stack read top
  first; the opcodes' stack effects are proved from it.
\<close>

section \<open>The model\<close>

abbreviation (input) MAX_SCRIPT_ELEMENT_SIZE :: nat where "MAX_SCRIPT_ELEMENT_SIZE \<equiv> 520"

type_synonym stack = "bytes list"

definition stack_from_items :: "bytes list \<Rightarrow> ('e, stack) res" where
  "stack_from_items items =
     ensure (list_all (\<lambda>item. length item \<le> MAX_SCRIPT_ELEMENT_SIZE) items) (Ok items)"

definition stack_require :: "nat \<Rightarrow> stack \<Rightarrow> (script_error, unit) res" where
  "stack_require count s = (if length s < count then Err InvalidStackOperation else Ok ())"

definition stack_push :: "bytes \<Rightarrow> stack \<Rightarrow> ('e, stack) res" where
  "stack_push item s = ensure (length item \<le> MAX_SCRIPT_ELEMENT_SIZE) (Ok (s @ [item]))"

definition stack_push_bool :: "bool \<Rightarrow> stack \<Rightarrow> ('e, stack) res" where
  "stack_push_bool v s = stack_push (if v then [1] else []) s"

definition stack_pop :: "stack \<Rightarrow> ('e, bytes \<times> stack) res" where
  "stack_pop s = (if s = [] then Panic else Ok (last s, butlast s))"

definition index_at_depth :: "nat \<Rightarrow> stack \<Rightarrow> ('e, nat) res" where
  "index_at_depth depth s =
     ensure (1 \<le> depth) (ensure (depth \<le> length s) (Ok (length s - depth)))"

definition stack_top :: "nat \<Rightarrow> stack \<Rightarrow> ('e, bytes) res" where
  "stack_top depth s = and_then (index_at_depth depth s) (\<lambda>i. expect (get s i))"

definition stack_swap :: "nat \<Rightarrow> nat \<Rightarrow> stack \<Rightarrow> ('e, stack) res" where
  "stack_swap a b s =
     and_then (index_at_depth a s) (\<lambda>ia. and_then (index_at_depth b s) (\<lambda>ib.
       Ok (s[ia := s ! ib, ib := s ! ia])))"

definition stack_remove :: "nat \<Rightarrow> stack \<Rightarrow> ('e, bytes \<times> stack) res" where
  "stack_remove depth s =
     and_then (index_at_depth depth s) (\<lambda>i. Ok (s ! i, take i s @ drop (i + 1) s))"

definition stack_insert :: "nat \<Rightarrow> bytes \<Rightarrow> stack \<Rightarrow> ('e, stack) res" where
  "stack_insert depth item s =
     ensure (length item \<le> MAX_SCRIPT_ELEMENT_SIZE)
       (and_then (index_at_depth depth s) (\<lambda>i. Ok (take i s @ item # drop i s)))"

section \<open>When the assertions pass\<close>

definition wf_stack :: "stack \<Rightarrow> bool" where
  "wf_stack s \<longleftrightarrow> (\<forall>x \<in> set s. length x \<le> 520)"

lemma holds_require [outcome]: "holds (stack_require n s) P \<longleftrightarrow> (n \<le> length s \<longrightarrow> P ())"
  by (auto simp: stack_require_def)

lemma holds_push [outcome]: "holds (stack_push x s) P \<longleftrightarrow> length x \<le> 520 \<and> P (s @ [x])"
  by (simp add: stack_push_def outcome)

lemma holds_push_bool [outcome]: "holds (stack_push_bool v s) P \<longleftrightarrow> P (s @ [if v then [1] else []])"
  by (simp add: stack_push_bool_def outcome)

lemma holds_pop [outcome]: "holds (stack_pop s) P \<longleftrightarrow> s \<noteq> [] \<and> P (last s, butlast s)"
  by (simp add: stack_pop_def)

lemma holds_index [outcome]:
  "holds (index_at_depth d s) P \<longleftrightarrow> 1 \<le> d \<and> d \<le> length s \<and> P (length s - d)"
  by (simp add: index_at_depth_def outcome)

lemma holds_top [outcome]:
  "holds (stack_top d s) P \<longleftrightarrow> 1 \<le> d \<and> d \<le> length s \<and> P (s ! (length s - d))"
  by (auto simp: stack_top_def outcome)

lemma holds_swap [outcome]:
  "holds (stack_swap a b s) P \<longleftrightarrow> 1 \<le> a \<and> a \<le> length s \<and> 1 \<le> b \<and> b \<le> length s \<and>
     P (s[length s - a := s ! (length s - b), length s - b := s ! (length s - a)])"
  by (auto simp: stack_swap_def outcome)

lemma holds_remove [outcome]:
  "holds (stack_remove d s) P \<longleftrightarrow> 1 \<le> d \<and> d \<le> length s \<and>
     P (s ! (length s - d), take (length s - d) s @ drop (length s - d + 1) s)"
  by (auto simp: stack_remove_def outcome)

lemma holds_insert [outcome]:
  "holds (stack_insert d x s) P \<longleftrightarrow> length x \<le> 520 \<and> 1 \<le> d \<and> d \<le> length s \<and>
     P (take (length s - d) s @ x # drop (length s - d) s)"
  by (auto simp: stack_insert_def outcome)

section \<open>The contract, read top first\<close>

locale depth_stack =
  fixes view :: "'s \<Rightarrow> bytes list"
    and push :: "bytes \<Rightarrow> 's \<Rightarrow> ('e, 's) res" and pop :: "'s \<Rightarrow> ('e, bytes \<times> 's) res"
    and top :: "nat \<Rightarrow> 's \<Rightarrow> ('e, bytes) res" and swap :: "nat \<Rightarrow> nat \<Rightarrow> 's \<Rightarrow> ('e, 's) res"
    and remove :: "nat \<Rightarrow> 's \<Rightarrow> ('e, bytes \<times> 's) res" and insert_at :: "nat \<Rightarrow> bytes \<Rightarrow> 's \<Rightarrow> ('e, 's) res"
  assumes push_view: "length x \<le> 520 \<Longrightarrow> \<exists>s'. push x s = Ok s' \<and> view s' = x # view s"
    and pop_view: "view s = x # xs \<Longrightarrow> \<exists>s'. pop s = Ok (x, s') \<and> view s' = xs"
    and top_view: "1 \<le> d \<Longrightarrow> d \<le> length (view s) \<Longrightarrow> top d s = Ok (view s ! (d - 1))"
    and swap_view: "1 \<le> a \<Longrightarrow> a \<le> length (view s) \<Longrightarrow> 1 \<le> b \<Longrightarrow> b \<le> length (view s) \<Longrightarrow>
      \<exists>s'. swap a b s = Ok s' \<and> view s' = (view s)[a - 1 := view s ! (b - 1), b - 1 := view s ! (a - 1)]"
    and remove_view: "1 \<le> d \<Longrightarrow> d \<le> length (view s) \<Longrightarrow>
      \<exists>s'. remove d s = Ok (view s ! (d - 1), s') \<and> view s' = take (d - 1) (view s) @ drop d (view s)"
    and insert_view: "length x \<le> 520 \<Longrightarrow> 1 \<le> d \<Longrightarrow> d \<le> length (view s) \<Longrightarrow>
      \<exists>s'. insert_at d x s = Ok s' \<and> view s' = take d (view s) @ x # drop d (view s)"
begin

lemma rot_effect:
  assumes "view s = x3 # x2 # x1 # xs"
  shows "\<exists>s'. and_then (swap 3 2 s) (swap 2 1) = Ok s' \<and> view s' = x1 # x3 # x2 # xs"
proof -
  obtain s1 where s1: "swap 3 2 s = Ok s1" "view s1 = x3 # x1 # x2 # xs"
    using swap_view [of 3 s 2] assms by auto
  then show ?thesis
    using swap_view [of 2 s1 1] by auto
qed

lemma two_swap_effect:
  assumes "view s = x4 # x3 # x2 # x1 # xs"
  shows "\<exists>s'. and_then (swap 4 2 s) (swap 3 1) = Ok s' \<and> view s' = x2 # x1 # x4 # x3 # xs"
proof -
  obtain s1 where s1: "swap 4 2 s = Ok s1" "view s1 = x4 # x1 # x2 # x3 # xs"
    using swap_view [of 4 s 2] assms by (auto simp: numeral_eq_Suc)
  then show ?thesis
    using swap_view [of 3 s1 1] by (auto simp: numeral_eq_Suc)
qed

lemma two_rot_effect:
  assumes "view s = x6 # x5 # x4 # x3 # x2 # x1 # xs" and "length x1 \<le> 520" and "length x2 \<le> 520"
  shows "\<exists>s'. and_then (remove 6 s) (\<lambda>(a, s). and_then (remove 5 s) (\<lambda>(b, s).
      and_then (push a s) (push b))) = Ok s' \<and> view s' = x2 # x1 # x6 # x5 # x4 # x3 # xs"
proof -
  obtain s1 where s1: "remove 6 s = Ok (x1, s1)" "view s1 = x6 # x5 # x4 # x3 # x2 # xs"
    using remove_view [of 6 s] assms(1) by (auto simp: numeral_eq_Suc)
  obtain s2 where s2: "remove 5 s1 = Ok (x2, s2)" "view s2 = x6 # x5 # x4 # x3 # xs"
    using remove_view [of 5 s1] s1(2) by (auto simp: numeral_eq_Suc)
  obtain s3 where s3: "push x1 s2 = Ok s3" "view s3 = x1 # view s2"
    using push_view [OF assms(2)] by blast
  obtain s4 where "push x2 s3 = Ok s4" "view s4 = x2 # view s3"
    using push_view [OF assms(3)] by blast
  with s1 s2 s3 show ?thesis by simp
qed

lemma tuck_effect:
  assumes "view s = x2 # x1 # xs" and "length x2 \<le> 520"
  shows "\<exists>s'. and_then (top 1 s) (\<lambda>x. insert_at 2 x s) = Ok s' \<and> view s' = x2 # x1 # x2 # xs"
  using assms top_view [of 1 s] insert_view [of x2 2 s] by auto

end

lemma nth_rev_depth: "1 \<le> d \<Longrightarrow> d \<le> length s \<Longrightarrow> rev s ! (d - 1) = s ! (length s - d)"
  by (simp add: rev_nth)

interpretation vec: depth_stack rev stack_push stack_pop stack_top stack_swap stack_remove stack_insert
proof
  fix x :: bytes and s :: stack and xs :: "bytes list" and a b d :: nat
  show "\<exists>s'. stack_push x s = Ok s' \<and> rev s' = x # rev s" if "length x \<le> 520"
    using that by (simp add: stack_push_def)
  show "\<exists>s'. stack_pop s = Ok (x, s') \<and> rev s' = xs" if "rev s = x # xs"
    using that by (auto simp: stack_pop_def rev_eq_Cons_iff)
  show "stack_top d s = Ok (rev s ! (d - 1))" if "1 \<le> d" "d \<le> length (rev s)"
    using that by (simp add: stack_top_def index_at_depth_def rev_nth)
  show "\<exists>s'. stack_swap a b s = Ok s' \<and> rev s' = (rev s)[a - 1 := rev s ! (b - 1), b - 1 := rev s ! (a - 1)]"
    if "1 \<le> a" "a \<le> length (rev s)" "1 \<le> b" "b \<le> length (rev s)"
    using that by (simp add: stack_swap_def index_at_depth_def rev_nth rev_update)
  show "\<exists>s'. stack_remove d s = Ok (rev s ! (d - 1), s') \<and> rev s' = take (d - 1) (rev s) @ drop d (rev s)"
    if "1 \<le> d" "d \<le> length (rev s)"
    using that by (simp add: stack_remove_def index_at_depth_def rev_nth take_rev drop_rev Suc_diff_le)
  show "\<exists>s'. stack_insert d x s = Ok s' \<and> rev s' = take d (rev s) @ x # drop d (rev s)"
    if "length x \<le> 520" "1 \<le> d" "d \<le> length (rev s)"
    using that by (simp add: stack_insert_def index_at_depth_def take_rev drop_rev)
qed

end
