(* ===== verification/Script_Reader.thy ===== *)
theory Script_Reader
  imports Script_Types
begin

text \<open>
  \<^verbatim>\<open>crates/consensus/src/script/reader.rs\<close>: reading a script one opcode at a time, with Core's
  cursor on a truncated push, and writing a push. The lemmas show that a read inside a script
  never aborts, always moves forward and never past the end, and that reading what
  \<open>push_encoding\<close> wrote gives the data back.
\<close>

section \<open>The model\<close>

datatype op_read = ReadOp u8 nat | Truncated nat

definition size_field_len :: "u8 \<Rightarrow> nat" where
  "size_field_len opcode =
     (if opcode = OP_PUSHDATA1 then 1 else if opcode = OP_PUSHDATA2 then 2
      else if opcode = OP_PUSHDATA4 then 4 else 0)"

fun data_len :: "u8 \<Rightarrow> bytes \<Rightarrow> ('e, nat) res" where
  "data_len opcode [] = Ok (unat opcode)"
| "data_len opcode [byte] = Ok (unat byte)"
| "data_len opcode [low, high] = Ok (le_val [low, high])"
| "data_len opcode [a, b, c, d] = Ok (le_val [a, b, c, d])"
| "data_len opcode _ = Panic"

definition read_op :: "script \<Rightarrow> nat \<Rightarrow> ('e, op_read) res" where
  "read_op script position =
     ensure (position < length script)
       (and_then (expect (get script position)) (\<lambda>opcode.
          let next = position + 1
          in if OP_PUSHDATA4 < opcode then Ok (ReadOp opcode next)
             else case get_range script next (next + size_field_len opcode) of
               None \<Rightarrow> Ok (Truncated next)
             | Some size_field \<Rightarrow>
                 and_then (data_len opcode size_field) (\<lambda>n.
                   let next = next + size_field_len opcode
                   in ensure (next \<le> length script)
                        (if length script - next < n then Ok (Truncated next)
                         else let next = next + n
                              in ensure (next \<le> length script) (Ok (ReadOp opcode next))))))"

record op =
  op_opcode :: u8
  op_push :: bytes
  op_end :: nat

record reader =
  rd_script :: script
  rd_position :: nat
  rd_ops_read :: nat

definition reader_new :: "script \<Rightarrow> reader" where
  "reader_new script = \<lparr> rd_script = script, rd_position = 0, rd_ops_read = 0 \<rparr>"

definition push_data :: "script \<Rightarrow> nat \<Rightarrow> nat \<Rightarrow> ('e, bytes) res" where
  "push_data script start next =
     and_then (expect (get script start)) (\<lambda>opcode.
       let data_start = start + 1 + size_field_len opcode
       in ensure (data_start \<le> next) (expect (get_range script data_start next)))"

text \<open>
  One step of the cursor: \<open>None\<close> at the end, the opcode, or the error of a truncated push, with
  the cursor after it. The counter is 32 bits wide and its overflow is checked.
\<close>

definition next_op :: "reader \<Rightarrow> ('e, ((script_error + op) \<times> reader) option) res" where
  "next_op r =
     (if length (rd_script r) \<le> rd_position r
      then ensure (rd_position r = length (rd_script r)) (Ok None)
      else let start = rd_position r
           in and_then (read_op (rd_script r) start) (\<lambda>res.
                case res of
                  ReadOp opcode next \<Rightarrow>
                    ensure (start < next)
                      (ensure (next \<le> length (rd_script r))
                        (ensure (rd_ops_read r + 1 < 2 ^ 32)
                          (and_then (if is_push opcode then push_data (rd_script r) start next else Ok [])
                            (\<lambda>push. Ok (Some (Inr \<lparr> op_opcode = opcode, op_push = push, op_end = next \<rparr>,
                               r\<lparr>rd_position := next, rd_ops_read := rd_ops_read r + 1\<rparr>))))))
                | Truncated next \<Rightarrow> Ok (Some (Inl BadOpcode, r\<lparr>rd_position := next\<rparr>))))"

definition opcode_index :: "reader \<Rightarrow> ('e, nat) res" where
  "opcode_index r = ensure (0 < rd_ops_read r) (Ok (rd_ops_read r - 1))"

definition le_bytes :: "nat \<Rightarrow> nat \<Rightarrow> bytes" where
  "le_bytes k n = map (\<lambda>i. word_of_nat (n div 256 ^ i)) [0..<k]"

definition push_encoding :: "bytes \<Rightarrow> ('e, script) res" where
  "push_encoding data =
     and_then
       (if length data < unat OP_PUSHDATA1 then Ok [word_of_nat (length data)]
        else if length data < 2 ^ 8 then Ok [OP_PUSHDATA1, word_of_nat (length data)]
        else if length data < 2 ^ 16 then Ok (OP_PUSHDATA2 # le_bytes 2 (length data))
        else ensure (length data < 2 ^ 32) (Ok (OP_PUSHDATA4 # le_bytes 4 (length data))))
       (\<lambda>prefix. let script = prefix @ data in ensure (length data < length script) (Ok script))"

section \<open>Reading\<close>

lemma data_len_ok:
  assumes "length bs = size_field_len opcode"
  shows "\<exists>n. data_len opcode bs = (Ok n :: ('e, _) res)"
proof -
  have "length bs = 0 \<or> length bs = Suc 0 \<or> length bs = Suc (Suc 0) \<or> length bs = Suc (Suc (Suc (Suc 0)))"
    using assms by (simp add: size_field_len_def split: if_splits)
  then show ?thesis
    by (auto simp: length_Suc_conv)
qed

text \<open>Where a read leaves the cursor.\<close>

primrec read_next :: "op_read \<Rightarrow> nat" where
  "read_next (ReadOp opcode next) = next"
| "read_next (Truncated next) = next"

lemma read_op_ok:
  assumes "position < length script"
  shows "\<exists>r. read_op script position = (Ok r :: ('e, _) res) \<and>
    position < read_next r \<and> read_next r \<le> length script \<and>
    (\<forall>opcode next. r = ReadOp opcode next \<longrightarrow> opcode = script ! position \<and>
       (opcode \<le> OP_PUSHDATA4 \<longrightarrow> position + 1 + size_field_len opcode \<le> next))"
proof -
  let ?op = "script ! position"
  let ?s = "size_field_len ?op"
  show ?thesis
  proof (cases "OP_PUSHDATA4 < ?op")
    case True
    then show ?thesis
      using assms by (simp add: read_op_def get_def not_le [symmetric])
  next
    case small: False
    show ?thesis
    proof (cases "position + 1 + ?s \<le> length script")
      case True
      have "length (take ?s (drop (Suc position) script)) = ?s" using True by simp
      then obtain n where "data_len ?op (take ?s (drop (Suc position) script)) = (Ok n :: ('e, _) res)"
        using data_len_ok by blast
      with small True assms show ?thesis
        by (auto simp: read_op_def get_def get_range_def Let_def)
    next
      case False
      then show ?thesis
        using small assms by (simp add: read_op_def get_def get_range_def Let_def)
    qed
  qed
qed

text \<open>The cursor invariant, and what a step of it gives.\<close>

definition wf_reader :: "reader \<Rightarrow> bool" where
  "wf_reader r \<longleftrightarrow> rd_position r \<le> length (rd_script r) \<and> rd_ops_read r \<le> rd_position r \<and>
     length (rd_script r) < 2 ^ 32"

lemma wf_reader_new [simp]: "length script < 2 ^ 32 \<Longrightarrow> wf_reader (reader_new script)"
  by (simp add: wf_reader_def reader_new_def)

definition op_of_step :: "script_error + op \<Rightarrow> op option" where
  "op_of_step s = (case s of Inl e \<Rightarrow> None | Inr op \<Rightarrow> Some op)"

lemma next_op_ok:
  assumes "wf_reader r"
  shows "\<exists>x. next_op r = (Ok x :: ('e, _) res) \<and>
    (case x of
       None \<Rightarrow> rd_position r = length (rd_script r)
     | Some (Inl e, r') \<Rightarrow> e = BadOpcode \<and> rd_position r < length (rd_script r)
     | Some (Inr op, r') \<Rightarrow> wf_reader r' \<and> rd_script r' = rd_script r \<and> rd_position r < rd_position r' \<and>
         op_end op = rd_position r' \<and> rd_ops_read r' = rd_ops_read r + 1 \<and>
         op_opcode op = rd_script r ! rd_position r \<and> length (op_push op) \<le> length (rd_script r))"
proof (cases "rd_position r = length (rd_script r)")
  case True
  then show ?thesis by (simp add: next_op_def)
next
  case False
  with assms have lt: "rd_position r < length (rd_script r)" by (simp add: wf_reader_def)
  obtain q where q: "read_op (rd_script r) (rd_position r) = (Ok q :: ('e, _) res)"
      "rd_position r < read_next q" "read_next q \<le> length (rd_script r)"
      "\<forall>opcode next. q = ReadOp opcode next \<longrightarrow> opcode = rd_script r ! rd_position r \<and>
         (opcode \<le> OP_PUSHDATA4 \<longrightarrow> rd_position r + 1 + size_field_len opcode \<le> next)"
    using read_op_ok [OF lt] by blast
  show ?thesis
  proof (cases q)
    case (ReadOp opcode nx)
    define push where "push = (if is_push opcode
      then take (nx - (rd_position r + 1 + size_field_len opcode)) (drop (rd_position r + 1 + size_field_len opcode) (rd_script r))
      else [])"
    have "(if is_push opcode then push_data (rd_script r) (rd_position r) nx else Ok []) = (Ok push :: ('e, _) res)"
      using q ReadOp lt by (auto simp: push_data_def is_push_def push_def get_def get_range_def Let_def)
    moreover have "length push \<le> length (rd_script r)" by (auto simp: push_def)
    ultimately show ?thesis
      using q ReadOp assms lt by (auto simp: next_op_def wf_reader_def Let_def)
  next
    case (Truncated nx)
    then show ?thesis using q lt by (simp add: next_op_def)
  qed
qed

section \<open>Writing a push\<close>

lemma length_le_bytes [simp]: "length (le_bytes k n) = k"
  by (simp add: le_bytes_def)

lemma le_val_le_bytes: "le_val (le_bytes k n) = n mod 256 ^ k"
proof (induction k arbitrary: n)
  case (Suc k)
  have "le_bytes (Suc k) n = word_of_nat n # le_bytes k (n div 256)"
    by (simp add: le_bytes_def upt_conv_Cons map_Suc_upt [symmetric] div_mult2_eq comp_def del: upt_Suc)
  moreover have "unat (word_of_nat n :: u8) = n mod 256"
    by (simp add: unsigned_of_nat take_bit_eq_mod)
  ultimately show ?case
    using Suc.IH [of "n div 256"] by (simp add: mod_mult2_eq)
qed (simp add: le_bytes_def)

lemma length_2_4D:
  "length xs = 2 \<Longrightarrow> \<exists>a b. xs = [a, b]"
  "length xs = 4 \<Longrightarrow> \<exists>a b c d. xs = [a, b, c, d]"
  by (auto simp: length_Suc_conv numeral_eq_Suc)

text \<open>The shape of a push: an opcode, its size field, the data.\<close>

lemma push_encoding_shape:
  assumes "length data < 2 ^ 32"
  shows "\<exists>opcode field. push_encoding data = (Ok (opcode # field @ data) :: ('e, _) res) \<and>
    opcode \<le> OP_PUSHDATA4 \<and> length field = size_field_len opcode \<and>
    data_len opcode field = (Ok (length data) :: ('f, _) res)"
proof -
  consider "length data < 76" | "76 \<le> length data" "length data < 2 ^ 8"
    | "2 ^ 8 \<le> length data" "length data < 2 ^ 16" | "2 ^ 16 \<le> length data" by linarith
  then show ?thesis
  proof cases
    case 1
    then have "unat (word_of_nat (length data) :: u8) = length data"
      by (simp add: unsigned_of_nat take_bit_nat_eq_self)
    with 1 show ?thesis
      by (intro exI [of _ "word_of_nat (length data)"] exI [of _ "[]"])
        (simp add: push_encoding_def size_field_len_def word_le_nat_alt word_unat_eq_iff)
  next
    case 2
    then have "unat (word_of_nat (length data) :: u8) = length data"
      by (simp add: unsigned_of_nat take_bit_nat_eq_self)
    with 2 show ?thesis
      by (intro exI [of _ "OP_PUSHDATA1"] exI [of _ "[word_of_nat (length data)]"])
        (simp add: push_encoding_def size_field_len_def)
  next
    case 3
    obtain a b where ab: "le_bytes 2 (length data) = [a, b]"
      using length_2_4D(1) [OF length_le_bytes] by blast
    from ab have "le_val [a, b] = length data"
      using le_val_le_bytes [of 2 "length data"] 3 by simp
    with 3 ab show ?thesis
      by (intro exI [of _ "OP_PUSHDATA2"] exI [of _ "le_bytes 2 (length data)"])
        (simp add: push_encoding_def size_field_len_def)
  next
    case 4
    obtain a b c d where ab: "le_bytes 4 (length data) = [a, b, c, d]"
      using length_2_4D(2) [OF length_le_bytes] by blast
    from ab have "le_val [a, b, c, d] = length data"
      using le_val_le_bytes [of 4 "length data"] assms by simp
    with 4 ab assms show ?thesis
      by (intro exI [of _ "OP_PUSHDATA4"] exI [of _ "le_bytes 4 (length data)"])
        (simp add: push_encoding_def size_field_len_def)
  qed
qed

lemma read_push_encoding:
  assumes "length data < 2 ^ 32"
  shows "\<exists>s. push_encoding data = (Ok s :: ('e, _) res) \<and>
    read_op (s @ rest) 0 = (Ok (ReadOp (hd s) (length s)) :: ('f, _) res) \<and>
    push_data (s @ rest) 0 (length s) = (Ok data :: ('g, _) res) \<and> hd s \<le> OP_PUSHDATA4 \<and> s \<noteq> []"
proof -
  obtain opcode field where s: "push_encoding data = (Ok (opcode # field @ data) :: ('e, _) res)"
      "opcode \<le> OP_PUSHDATA4" "length field = size_field_len opcode"
      "data_len opcode field = (Ok (length data) :: ('f, _) res)"
    using push_encoding_shape [OF assms] by blast
  then show ?thesis
    by (auto simp: read_op_def push_data_def get_def get_range_def Let_def not_less)
qed

section \<open>Properties\<close>

text \<open>C28: reading a script that begins with the shortest push of some data yields that data as
  its first opcode and leaves the cursor right after the push.\<close>

theorem push_read_roundtrip:
  assumes "length data < 2 ^ 31" and "length rest < 2 ^ 31 - 8"
  shows "\<exists>s r. push_encoding data = (Ok s :: ('e, _) res) \<and>
    next_op (reader_new (s @ rest)) =
      (Ok (Some (Inr \<lparr> op_opcode = hd s, op_push = data, op_end = length s \<rparr>, r)) :: ('f, _) res) \<and>
    rd_position r = length s"
proof -
  have "length data < 2 ^ 32" using assms by simp
  from read_push_encoding [OF this, of rest, where 'e = 'e and 'f = 'f and 'g = 'f] obtain s
    where s: "push_encoding data = (Ok s :: ('e, _) res)"
      "read_op (s @ rest) 0 = (Ok (ReadOp (hd s) (length s)) :: ('f, _) res)"
      "push_data (s @ rest) 0 (length s) = (Ok data :: ('f, _) res)" "hd s \<le> OP_PUSHDATA4" "s \<noteq> []"
    by blast
  then show ?thesis
    by (auto simp: next_op_def reader_new_def is_push_def)
qed

theorem push_read_roundtrip_witness:
  "\<exists>s r. push_encoding [7, 8, 9] = (Ok s :: (unit, _) res) \<and>
    next_op (reader_new (s @ [0x51])) =
      (Ok (Some (Inr \<lparr> op_opcode = hd s, op_push = [7, 8, 9], op_end = length s \<rparr>, r)) :: (unit, _) res) \<and>
    rd_position r = length s"
  by (rule push_read_roundtrip) simp_all

end
