(* ===== verification/Script_Code.thy ===== *)
theory Script_Code
  imports Script_Reader
begin

text \<open>
  The byte-level helpers of \<^verbatim>\<open>crates/consensus/src/script/interpreter.rs\<close>: the strict DER test of
  a signature (BIP66) and \<open>FindAndDelete\<close>. The lemmas show that neither aborts on any input,
  and what \<open>find_and_delete\<close> removes.
\<close>

section \<open>Signature encodings\<close>

definition is_valid_signature_encoding :: "bytes \<Rightarrow> ('e, bool) res" where
  "is_valid_signature_encoding sig =
     (let at = (\<lambda>i. expect (get sig i))
      in if length sig < 9 \<or> 73 < length sig then Ok False
         else and_then (at 0) (\<lambda>b0. if b0 \<noteq> 0x30 then Ok False
         else and_then (at 1) (\<lambda>b1. if unat b1 \<noteq> length sig - 3 then Ok False
         else and_then (at 3) (\<lambda>b3. let len_r = unat b3
         in if length sig \<le> 5 + len_r then Ok False
         else and_then (at (5 + len_r)) (\<lambda>bs. let len_s = unat bs
         in if len_r + len_s + 7 \<noteq> length sig then Ok False
         else and_then (at 2) (\<lambda>b2. if b2 \<noteq> 0x02 \<or> len_r = 0 then Ok False
         else and_then (at 4) (\<lambda>b4. if b4 AND 0x80 \<noteq> 0 then Ok False
         else and_then (if 1 < len_r \<and> b4 = 0 then and_then (at 5) (\<lambda>b5. Ok (b5 AND 0x80 = 0)) else Ok False)
           (\<lambda>padded_r. if padded_r then Ok False
         else and_then (at (len_r + 4)) (\<lambda>t. if t \<noteq> 0x02 \<or> len_s = 0 then Ok False
         else and_then (at (len_r + 6)) (\<lambda>s0. if s0 AND 0x80 \<noteq> 0 then Ok False
         else and_then (if 1 < len_s \<and> s0 = 0 then and_then (at (len_r + 7)) (\<lambda>s1. Ok (s1 AND 0x80 = 0)) else Ok False)
           (\<lambda>padded_s. Ok (\<not> padded_s))))))))))))"

definition check_signature_encoding :: "bytes \<Rightarrow> script_flags \<Rightarrow> (script_error, unit) res" where
  "check_signature_encoding sig flags =
     (if sig = [] then Ok ()
      else if flags_contains flags FLAG_DERSIG then
        and_then (is_valid_signature_encoding sig) (\<lambda>ok. if \<not> ok then Err SigDer else Ok ())
      else Ok ())"

section \<open>FindAndDelete\<close>

text \<open>The inner loop: skip every consecutive copy of the pattern. The pattern is not empty.\<close>

function skip_pattern :: "script \<Rightarrow> bytes \<Rightarrow> nat \<Rightarrow> nat \<Rightarrow> nat \<times> nat" where
  "skip_pattern script pattern pc found =
     (if pattern \<noteq> [] \<and> length pattern \<le> length script - pc \<and>
         get_range script pc (pc + length pattern) = Some pattern
      then skip_pattern script pattern (pc + length pattern) (found + 1)
      else (pc, found))"
  by pat_completeness auto
termination
proof (relation "measure (\<lambda>(script, pattern, pc, found). length script - pc)")
  fix script :: script and pattern :: bytes and pc found :: nat
  assume "pattern \<noteq> [] \<and> length pattern \<le> length script - pc \<and>
    get_range script pc (pc + length pattern) = Some pattern"
  then have "0 < length pattern" "length pattern \<le> length script - pc" by simp_all
  then show "((script, pattern, pc + length pattern, found + 1), script, pattern, pc, found)
      \<in> measure (\<lambda>(script, pattern, pc, found). length script - pc)"
    unfolding measure_def inv_image_def by (simp del: length_greater_0_conv)
qed simp

declare skip_pattern.simps [simp del]

text \<open>
  The outer loop with its iteration counter, which the source asserts. \<open>fuel\<close> bounds the
  recursion; it starts above the bound the assertion allows, so the assertion is what stops
  a walk that would not end.
\<close>

fun delete_loop ::
    "nat \<Rightarrow> script \<Rightarrow> bytes \<Rightarrow> nat \<Rightarrow> bytes \<Rightarrow> nat \<Rightarrow> nat \<Rightarrow> nat \<Rightarrow> ('e, bytes \<times> nat \<times> nat) res" where
  "delete_loop 0 script pattern iterations result found pc pc2 = Panic"
| "delete_loop (Suc fuel) script pattern iterations result found pc pc2 =
     (let iterations = iterations + 1
      in ensure (iterations \<le> length script + 1)
           (and_then (expect (get_range script pc2 pc)) (\<lambda>chunk.
              let result = result @ chunk;
                  (pc, found) = skip_pattern script pattern pc found;
                  pc2 = pc
              in if length script \<le> pc then Ok (result, found, pc2)
                 else and_then (read_op script pc) (\<lambda>r.
                   case r of
                     ReadOp opcode next \<Rightarrow>
                       delete_loop fuel script pattern iterations result found next pc2
                   | Truncated next \<Rightarrow> Ok (result, found, pc2)))))"

definition find_and_delete :: "script \<Rightarrow> bytes \<Rightarrow> ('e, script \<times> nat) res" where
  "find_and_delete script pattern =
     (if pattern = [] then Ok (script, 0)
      else and_then (delete_loop (length script + 2) script pattern 0 [] 0 0 0) (\<lambda>(result, found, pc2).
        if found = 0 then Ok (script, 0)
        else and_then (expect (get_range script pc2 (length script))) (\<lambda>tail.
          let result = result @ tail
          in ensure (length result + found * length pattern = length script) (Ok (result, found)))))"

section \<open>Strict DER\<close>

definition der_int :: "bytes \<Rightarrow> bool" where
  "der_int xs \<longleftrightarrow> xs \<noteq> [] \<and> unat (hd xs) < 128 \<and> (1 < length xs \<and> hd xs = 0 \<longrightarrow> 128 \<le> unat (xs ! 1))"

definition der_sig :: "bytes \<Rightarrow> bytes \<Rightarrow> u8 \<Rightarrow> bytes" where
  "der_sig r s hash_type =
     [0x30, word_of_nat (length r + length s + 4), 0x02, word_of_nat (length r)] @ r @
     [0x02, word_of_nat (length s)] @ s @ [hash_type]"

text \<open>The verdict of the source's test as one formula over positions.\<close>

definition der_positions :: "bytes \<Rightarrow> bool" where
  "der_positions sig \<longleftrightarrow> 9 \<le> length sig \<and> length sig \<le> 73 \<and> sig ! 0 = 0x30 \<and> unat (sig ! 1) = length sig - 3 \<and>
     (let len_r = unat (sig ! 3) in 5 + len_r < length sig \<and>
     (let len_s = unat (sig ! (5 + len_r)) in len_r + len_s + 7 = length sig \<and>
       sig ! 2 = 0x02 \<and> len_r \<noteq> 0 \<and> unat (sig ! 4) < 128 \<and>
       (1 < len_r \<and> sig ! 4 = 0 \<longrightarrow> 128 \<le> unat (sig ! 5)) \<and>
       sig ! (len_r + 4) = 0x02 \<and> len_s \<noteq> 0 \<and> unat (sig ! (len_r + 6)) < 128 \<and>
       (1 < len_s \<and> sig ! (len_r + 6) = 0 \<longrightarrow> 128 \<le> unat (sig ! (len_r + 7)))))"

lemma is_valid_signature_encoding_positions:
  "is_valid_signature_encoding sig = (Ok (der_positions sig) :: ('e, _) res)"
proof (cases "9 \<le> length sig \<and> length sig \<le> 73")
  case True
  have at: "expect (get sig i) = (Ok (sig ! i) :: ('e, _) res)" if "i < length sig" for i
    using that by (simp add: get_def)
  have at0: "expect (get sig 0) = (Ok (sig ! 0) :: ('e, _) res)" "expect (get sig 1) = (Ok (sig ! 1) :: ('e, _) res)"
    "expect (get sig 2) = (Ok (sig ! 2) :: ('e, _) res)" "expect (get sig 3) = (Ok (sig ! 3) :: ('e, _) res)"
    "expect (get sig 4) = (Ok (sig ! 4) :: ('e, _) res)" "expect (get sig 5) = (Ok (sig ! 5) :: ('e, _) res)"
    by (rule at, use True in linarith)+
  define r where "r = unat (sig ! 3)"
  show ?thesis
  proof (cases "sig ! 0 = 0x30 \<and> unat (sig ! 1) = length sig - 3 \<and> 5 + r < length sig")
    case False
    then show ?thesis
      using True
      by (auto simp: is_valid_signature_encoding_def der_positions_def Let_def at0 [unfolded One_nat_def] r_def simp del: expect_eq_Ok)
  next
    case head: True
    define s where "s = unat (sig ! (5 + r))"
    show ?thesis
    proof (cases "r + s + 7 = length sig")
      case False
      then show ?thesis
        using True head
        by (auto simp: is_valid_signature_encoding_def der_positions_def Let_def at0 [unfolded One_nat_def] at r_def [symmetric]
            s_def [symmetric] simp del: expect_eq_Ok)
    next
      case lens: True
      have at_s: "expect (get sig (r + 4)) = (Ok (sig ! (r + 4)) :: ('e, _) res)"
        "expect (get sig (r + 6)) = (Ok (sig ! (r + 6)) :: ('e, _) res)"
        "expect (get sig (5 + r)) = (Ok (sig ! (5 + r)) :: ('e, _) res)"
        "1 < s \<Longrightarrow> expect (get sig (r + 7)) = (Ok (sig ! (r + 7)) :: ('e, _) res)"
        by (rule at, use lens in linarith)+
      show ?thesis
        using True head lens
        by (auto simp: is_valid_signature_encoding_def der_positions_def Let_def at0 [unfolded One_nat_def] at_s r_def [symmetric]
            s_def [symmetric] u8_and_128 u8_and_128_eq not_le simp del: expect_eq_Ok and_then_eq_Ok)
    qed
  qed
qed (auto simp: is_valid_signature_encoding_def der_positions_def)

lemma unat_small_u8: "n < 256 \<Longrightarrow> unat (word_of_nat n :: u8) = n"
  by (simp add: unsigned_of_nat take_bit_nat_eq_self)

lemma length_der_sig: "length (der_sig r s t) = length r + length s + 7"
  by (simp add: der_sig_def)

lemma der_sig_nth:
  "der_sig r s t ! 0 = 0x30" "der_sig r s t ! 1 = word_of_nat (length r + length s + 4)"
  "der_sig r s t ! 2 = 0x02" "der_sig r s t ! 3 = word_of_nat (length r)"
  "i < length r \<Longrightarrow> der_sig r s t ! (4 + i) = r ! i"
  "der_sig r s t ! (length r + 4) = 0x02" "der_sig r s t ! (5 + length r) = word_of_nat (length s)"
  "i < length s \<Longrightarrow> der_sig r s t ! (length r + 6 + i) = s ! i"
  by (simp_all add: der_sig_def nth_append nth_Cons' numeral_eq_Suc)

lemma der_sig_positions:
  assumes "der_int r" and "der_int s" and "length (der_sig r s t) \<le> 73"
  shows "der_positions (der_sig r s t)"
proof -
  have len: "0 < length r" "0 < length s" "length r + length s + 7 \<le> 73" "2 \<le> length r + length s"
    using assms by (auto simp: der_int_def length_der_sig neq_Nil_conv)
  have w: "unat (word_of_nat (length r) :: u8) = length r" "unat (word_of_nat (length s) :: u8) = length s"
    "unat (word_of_nat (length r + length s + 4) :: u8) = length r + length s + 4"
    by (rule unat_small_u8, use len in linarith)+
  have r0: "der_sig r s t ! 4 = hd r" "1 < length r \<Longrightarrow> der_sig r s t ! 5 = r ! 1"
    using der_sig_nth(5) [of 0 r s t] der_sig_nth(5) [of 1 r s t] len(1) by (simp_all add: hd_conv_nth)
  have s0: "der_sig r s t ! (length r + 6) = hd s" "1 < length s \<Longrightarrow> der_sig r s t ! (length r + 7) = s ! 1"
    using der_sig_nth(8) [of 0 s r t] der_sig_nth(8) [of 1 s r t] len(2) by (simp_all add: hd_conv_nth add.commute)
  show ?thesis
    using assms len
    unfolding der_positions_def Let_def length_der_sig der_sig_nth w r0(1) s0(1) der_int_def
    by (auto simp: r0 s0)
qed

lemma der_positions_sig:
  assumes "der_positions sig"
  shows "\<exists>r s t. der_int r \<and> der_int s \<and> sig = der_sig r s t"
proof -
  define r s where "r = unat (sig ! 3)" and "s = unat (sig ! (5 + r))"
  have p: "sig ! 0 = 0x30" "unat (sig ! 1) = length sig - 3" "r + s + 7 = length sig" "sig ! 2 = 0x02" "r \<noteq> 0"
    "unat (sig ! 4) < 128" "1 < r \<and> sig ! 4 = 0 \<longrightarrow> 128 \<le> unat (sig ! 5)" "sig ! (r + 4) = 0x02" "s \<noteq> 0"
    "unat (sig ! (r + 6)) < 128" "1 < s \<and> sig ! (r + 6) = 0 \<longrightarrow> 128 \<le> unat (sig ! (r + 7))"
    using assms by (simp_all add: der_positions_def Let_def r_def s_def)
  define R S where "R = take r (drop 4 sig)" and "S = take s (drop (r + 6) sig)"
  have RS: "length R = r" "length S = s" "\<And>i. i < r \<Longrightarrow> R ! i = sig ! (4 + i)" "\<And>i. i < s \<Longrightarrow> S ! i = sig ! (r + 6 + i)"
    using p(3) by (simp_all add: R_def S_def)
  have "der_int R" "der_int S"
    using p RS(1,2) RS(3) [of 0] RS(3) [of 1] RS(4) [of 0] RS(4) [of 1]
    by (auto simp: der_int_def hd_conv_nth numeral_eq_Suc)
  moreover have "sig = der_sig R S (sig ! (r + s + 6))"
  proof (rule nth_equalityI)
    show "length sig = length (der_sig R S (sig ! (r + s + 6)))" using p(3) RS by (simp add: length_der_sig)
    fix i assume i: "i < length sig"
    have inv: "word_of_nat (unat w) = w" for w :: u8 by simp
    have "r + s + 4 = unat (sig ! 1)" using p(2,3) by linarith
    then have w: "word_of_nat (r + s + 4) = sig ! 1" "word_of_nat r = sig ! 3" "word_of_nat s = sig ! (5 + r)"
      by (simp_all only: inv r_def s_def)
    note d = der_sig_nth [where r = R and s = S and t = "sig ! (r + s + 6)", unfolded RS(1,2) w]
    consider "i < 4" | "4 \<le> i" "i < r + 4" | "i = r + 4" | "i = 5 + r" | "r + 6 \<le> i" "i < r + s + 6" | "i = r + s + 6"
      using i p(3) by linarith
    then show "sig ! i = der_sig R S (sig ! (r + s + 6)) ! i"
    proof cases
      case 1
      then consider "i = 0" | "i = 1" | "i = 2" | "i = 3" by linarith
      then show ?thesis using p d(1-4) by cases simp_all
    next
      case 2
      then show ?thesis using d(5) [of "i - 4"] RS(3) [of "i - 4"] by simp
    next
      case 5
      then show ?thesis using d(8) [of "i - (r + 6)"] RS(4) [of "i - (r + 6)"] by simp
    next
      case 6
      then show ?thesis using RS by (simp add: der_sig_def nth_append)
    qed (use p d(6,7) in simp_all)
  qed
  ultimately show ?thesis by blast
qed


lemma is_valid_signature_encoding_der:
  "is_valid_signature_encoding sig =
     (Ok (length sig \<le> 73 \<and> (\<exists>r s t. der_int r \<and> der_int s \<and> sig = der_sig r s t)) :: ('e, _) res)"
proof -
  have "der_positions sig \<longleftrightarrow> length sig \<le> 73 \<and> (\<exists>r s t. der_int r \<and> der_int s \<and> sig = der_sig r s t)"
    using der_positions_sig [of sig] by (auto simp: der_sig_positions) (simp add: der_positions_def)
  then show ?thesis by (simp add: is_valid_signature_encoding_positions)
qed

section \<open>What FindAndDelete removes\<close>

text \<open>The same walk on suffixes: remove the copies of the pattern at an opcode boundary, keep
  one opcode, go on; a push that runs past the end keeps everything from there.\<close>

function strip_copies :: "bytes \<Rightarrow> bytes \<Rightarrow> bytes \<times> nat" where
  "strip_copies pattern xs =
     (if pattern \<noteq> [] \<and> length pattern \<le> length xs \<and> take (length pattern) xs = pattern
      then let (ys, n) = strip_copies pattern (drop (length pattern) xs) in (ys, n + 1)
      else (xs, 0))"
  by pat_completeness auto
termination
proof (relation "measure (\<lambda>(pattern, xs). length xs)")
  fix pattern xs :: bytes
  assume "pattern \<noteq> [] \<and> length pattern \<le> length xs \<and> take (length pattern) xs = pattern"
  then have "pattern \<noteq> []" "length pattern \<le> length xs" by simp_all
  then show "((pattern, drop (length pattern) xs), pattern, xs) \<in> measure (\<lambda>(pattern, xs). length xs)"
    by (cases pattern) simp_all
qed simp

declare strip_copies.simps [simp del]

lemma strip_copies_length:
  "strip_copies pattern xs = (ys, n) \<Longrightarrow> length xs = length ys + n * length pattern"
proof (induction pattern xs arbitrary: ys n rule: strip_copies.induct)
  case (1 pattern xs)
  show ?case
  proof (cases "pattern \<noteq> [] \<and> length pattern \<le> length xs \<and> take (length pattern) xs = pattern")
    case True
    obtain zs k where z: "strip_copies pattern (drop (length pattern) xs) = (zs, k)" by fastforce
    with 1(2) True have "ys = zs" "n = k + 1" by (subst (asm) strip_copies.simps, auto)+
    with 1(1) [OF True z] True show ?thesis by auto
  next
    case False
    with 1(2) show ?thesis by (subst (asm) strip_copies.simps, auto)
  qed
qed

lemma skip_pattern_strip:
  assumes "pc \<le> length script"
  shows "\<exists>pc' n. skip_pattern script pattern pc found = (pc', found + n) \<and> pc \<le> pc' \<and> pc' \<le> length script \<and>
    strip_copies pattern (drop pc script) = (drop pc' script, n)"
  using assms
proof (induction script pattern pc found rule: skip_pattern.induct)
  case (1 script pattern pc found)
  have step: "pattern \<noteq> [] \<and> length pattern \<le> length script - pc \<and> get_range script pc (pc + length pattern) = Some pattern \<longleftrightarrow>
      pattern \<noteq> [] \<and> length pattern \<le> length (drop pc script) \<and> take (length pattern) (drop pc script) = pattern"
    using 1(2) by (auto simp: get_range_def)
  show ?case
  proof (cases "pattern \<noteq> [] \<and> length pattern \<le> length script - pc \<and> get_range script pc (pc + length pattern) = Some pattern")
    case True
    with 1 obtain pc' n where
      "skip_pattern script pattern (pc + length pattern) (found + 1) = (pc', found + 1 + n)"
      "pc + length pattern \<le> pc'" "pc' \<le> length script"
      "strip_copies pattern (drop (pc + length pattern) script) = (drop pc' script, n)"
      by fastforce
    moreover have "drop (length pattern) (drop pc script) = drop (pc + length pattern) script"
      by (simp add: add.commute)
    ultimately show ?thesis
      using True step
      by (subst skip_pattern.simps, subst strip_copies.simps) (auto intro!: exI [of _ "n + 1"])
  next
    case False
    then show ?thesis
      using step 1(2) by (subst skip_pattern.simps, subst strip_copies.simps) auto
  qed
qed

lemma read_op_suffix:
  assumes "position < length script"
  shows "read_op (drop position script) 0 = (Ok (ReadOp opcode k) :: ('e, _) res) \<longleftrightarrow>
    read_op script position = (Ok (ReadOp opcode (position + k)) :: ('e, _) res)"
proof -
  have g: "get (drop position script) 0 = get script position"
    "get_range (drop position script) 1 (1 + j) = get_range script (position + 1) (position + 1 + j)" for j
    using assms by (auto simp: get_def get_range_def)
  show ?thesis
    using assms
    by (auto simp: read_op_def g Let_def get_def not_le ensure_def split: option.splits)
qed

function delete_copies :: "bytes \<Rightarrow> bytes \<Rightarrow> bytes \<times> nat" where
  "delete_copies pattern xs =
     (case strip_copies pattern xs of (ys, n) \<Rightarrow>
        if ys = [] then ([], n)
        else case read_op ys 0 :: (unit, op_read) res of
          Ok (ReadOp opcode k) \<Rightarrow>
            (case delete_copies pattern (drop k ys) of (zs, m) \<Rightarrow> (take k ys @ zs, n + m))
        | _ \<Rightarrow> (ys, n))"
  by pat_completeness auto
termination
proof (relation "measure (\<lambda>(pattern, xs). length xs)")
  fix pattern xs ys :: bytes and n k opcode r q
  assume s: "(ys, n) = strip_copies pattern xs" "ys \<noteq> []"
    and r: "(read_op ys 0 :: (unit, op_read) res) = Ok q" "q = ReadOp opcode k"
  have "0 < k" using read_op_ok [of 0 ys, where 'e = unit] s(2) r by auto
  moreover have "length ys \<le> length xs" using strip_copies_length [OF s(1) [symmetric]] by simp
  ultimately show "((pattern, drop k ys), pattern, xs) \<in> measure (\<lambda>(pattern, xs). length xs)"
    using s(2) by (cases ys) auto
qed simp

declare delete_copies.simps [simp del]

lemma data_len_poly: "data_len opcode bs = (Ok n :: ('e, _) res) \<longleftrightarrow> data_len opcode bs = (Ok n :: ('f, _) res)"
  by (cases "(opcode, bs)" rule: data_len.cases) simp_all

lemma read_op_poly:
  assumes "read_op script position = (Ok r :: ('e, _) res)"
  shows "read_op script position = (Ok r :: ('f, _) res)"
  using assms
  by (auto simp: read_op_def ensure_def Let_def data_len_poly [where 'e = 'e and 'f = 'f] split: option.splits if_splits)

text \<open>The loop of the source walks exactly as the suffix version does, and its iteration bound
  always holds.\<close>

lemma delete_loop_ok:
  assumes "pc2 \<le> pc" "pc \<le> length script" "iterations \<le> pc" "length script + 1 - pc < fuel"
  shows "\<exists>out n pc'. delete_loop fuel script pattern iterations result found pc pc2 = (Ok (out, found + n, pc') :: ('e, _) res) \<and>
    pc' \<le> length script \<and>
    out @ drop pc' script = result @ take (pc - pc2) (drop pc2 script) @ fst (delete_copies pattern (drop pc script)) \<and>
    n = snd (delete_copies pattern (drop pc script))"
  using assms
proof (induction fuel arbitrary: iterations result found pc pc2)
  case (Suc fuel)
  let ?chunk = "take (pc - pc2) (drop pc2 script)"
  obtain pc' n where skip: "skip_pattern script pattern pc found = (pc', found + n)" "pc \<le> pc'" "pc' \<le> length script"
      "strip_copies pattern (drop pc script) = (drop pc' script, n)"
    using skip_pattern_strip [OF Suc.prems(2)] by blast
  have chunk: "get_range script pc2 pc = Some ?chunk" using Suc.prems by simp
  show ?case
  proof (cases "pc' = length script")
    case True
    then have "delete_copies pattern (drop pc script) = ([], n)"
      using skip by (simp add: delete_copies.simps [of pattern "drop pc script"])
    then show ?thesis using True skip chunk Suc.prems by (simp add: ensure_def)
  next
    case False
    with skip have lt: "pc' < length script" by simp
    obtain q where q: "read_op script pc' = (Ok q :: ('e, _) res)" "pc' < read_next q" "read_next q \<le> length script"
      using read_op_ok [OF lt] by blast
    note qu = read_op_poly [OF q(1), where 'f = unit]
    show ?thesis
    proof (cases q)
      case (ReadOp opcode nx)
      then have "read_op (drop pc' script) 0 = (Ok (ReadOp opcode (nx - pc')) :: (unit, _) res)"
        using q qu by (simp add: read_op_suffix [OF lt])
      moreover obtain zs m where zs: "delete_copies pattern (drop nx script) = (zs, m)" by fastforce
      ultimately have d: "delete_copies pattern (drop pc script) = (take (nx - pc') (drop pc' script) @ zs, n + m)"
        using skip q lt ReadOp by (simp add: delete_copies.simps [of pattern "drop pc script"])
      from ReadOp q skip Suc.prems have "pc' \<le> nx" "nx \<le> length script" "iterations + 1 \<le> nx" "length script + 1 - nx < fuel"
        by simp_all
      from Suc.IH [OF this, of "result @ ?chunk" "found + n"] obtain out pcx where
        "delete_loop fuel script pattern (iterations + 1) (result @ ?chunk) (found + n) nx pc' = (Ok (out, found + n + m, pcx) :: ('e, _) res)"
        "pcx \<le> length script"
        "out @ drop pcx script = (result @ ?chunk) @ take (nx - pc') (drop pc' script) @ zs"
        unfolding zs by auto
      then show ?thesis
        using skip chunk q ReadOp Suc.prems lt by (simp add: d ensure_def add.assoc)
    next
      case (Truncated nx)
      have "delete_copies pattern (drop pc script) = (drop pc' script, n)"
        using skip lt read_op_suffix [OF lt, where 'e = unit] qu Truncated
        by (auto simp: delete_copies.simps [of pattern "drop pc script"] split: res.splits op_read.splits)
      then show ?thesis
        using skip chunk q Truncated Suc.prems lt by (simp add: ensure_def)
    qed
  qed
qed simp

lemma delete_copies_length:
  "length (fst (delete_copies pattern xs)) + snd (delete_copies pattern xs) * length pattern = length xs"
proof (induction pattern xs rule: delete_copies.induct)
  case (1 pattern xs)
  obtain ys n where s: "strip_copies pattern xs = (ys, n)" by fastforce
  note len = strip_copies_length [OF s]
  show ?case
  proof (cases "ys \<noteq> [] \<and> (\<exists>opcode k. read_op ys 0 = (Ok (ReadOp opcode k) :: (unit, _) res))")
    case True
    then obtain opcode k where r: "ys \<noteq> []" "read_op ys 0 = (Ok (ReadOp opcode k) :: (unit, _) res)" by blast
    then have "k \<le> length ys" using read_op_ok [of 0 ys, where 'e = unit] by auto
    with r 1 [OF s [symmetric] r(1) r(2) refl] len show ?thesis
      by (subst (1 2) delete_copies.simps) (auto simp: s algebra_simps split: prod.splits)
  next
    case False
    then show ?thesis
      using len by (subst (1 2) delete_copies.simps) (auto simp: s split: res.splits op_read.splits)
  qed
qed

lemma strip_copies_none: "strip_copies pattern xs = (ys, 0) \<Longrightarrow> ys = xs"
  by (subst (asm) strip_copies.simps) (auto split: if_splits prod.splits)

lemma delete_copies_none: "snd (delete_copies pattern xs) = 0 \<Longrightarrow> fst (delete_copies pattern xs) = xs"
proof (induction pattern xs rule: delete_copies.induct)
  case (1 pattern xs)
  obtain ys n where s: "strip_copies pattern xs = (ys, n)" by fastforce
  show ?case
  proof (cases "ys \<noteq> [] \<and> (\<exists>opcode k. read_op ys 0 = (Ok (ReadOp opcode k) :: (unit, _) res))")
    case True
    then obtain opcode k where r: "ys \<noteq> []" "read_op ys 0 = (Ok (ReadOp opcode k) :: (unit, _) res)" by blast
    obtain zs m where d: "delete_copies pattern (drop k ys) = (zs, m)" by fastforce
    from 1(2) r s d have "n = 0" "m = 0" by (subst (asm) delete_copies.simps, simp)+
    with 1(1) [OF s [symmetric] r(1) r(2) refl] r s d strip_copies_none show ?thesis
      by (subst delete_copies.simps) auto
  next
    case False
    then have "delete_copies pattern xs = (ys, n)"
      by (subst delete_copies.simps) (auto simp: s split: res.splits op_read.splits)
    with 1(2) s strip_copies_none show ?thesis by auto
  qed
qed

lemma find_and_delete_copies:
  assumes "pattern \<noteq> []"
  shows "find_and_delete script pattern = (Ok (delete_copies pattern script) :: ('e, _) res)"
proof -
  obtain out n pc' where d: "delete_loop (length script + 2) script pattern 0 [] 0 0 0 = (Ok (out, n, pc') :: ('e, _) res)"
      "pc' \<le> length script" "out @ drop pc' script = fst (delete_copies pattern script)"
      "n = snd (delete_copies pattern script)"
    using delete_loop_ok [of 0 0 script 0 "length script + 2" pattern "[]" 0, where 'e = 'e] by (auto simp del: delete_loop.simps)
  note len = delete_copies_length [of pattern script]
  have "delete_copies pattern script = (out @ drop pc' script, n)" using d by (simp add: prod_eq_iff)
  then show ?thesis
    using d(2) len assms delete_copies_none [of pattern script]
    unfolding find_and_delete_def d(1) by (simp add: get_range_def ensure_def)
qed

lemma find_and_delete_total: "\<exists>out n. find_and_delete script pattern = (Ok (out, n) :: ('e, _) res) \<and> length out \<le> length script"
proof (cases "pattern = []")
  case False
  have "length (fst (delete_copies pattern script)) \<le> length script"
    using delete_copies_length [of pattern script] by linarith
  then show ?thesis by (cases "delete_copies pattern script") (simp add: find_and_delete_copies [OF False])
qed (simp add: find_and_delete_def)

section \<open>Properties\<close>

text \<open>C12: a signature passes the strict DER test exactly when it is at most 73 bytes long and is
  the DER sequence of two minimal non-negative integers followed by a hash type byte; the test
  reads no byte outside the signature.\<close>

theorem strict_der_grammar:
  "is_valid_signature_encoding sig =
     (Ok (length sig \<le> 73 \<and> (\<exists>r s t. der_int r \<and> der_int s \<and> sig = der_sig r s t)) :: ('e, _) res)"
  by (rule is_valid_signature_encoding_der)

text \<open>C13: FindAndDelete ends on every script, its iteration bound always holds, and it removes
  exactly the copies of the pattern that start at an opcode boundary of what remains, counting
  each one.\<close>

theorem find_and_delete_spec:
  "find_and_delete script pattern =
     (Ok (if pattern = [] then (script, 0) else delete_copies pattern script) :: ('e, _) res)"
  by (simp add: find_and_delete_copies) (simp add: find_and_delete_def)

end
