(* ===== verification/Script_Interpreter.thy ===== *)
theory Script_Interpreter
  imports Script_Num Script_Stack Script_Code
begin

text \<open>
  \<^verbatim>\<open>crates/consensus/src/script/interpreter.rs\<close>: \<open>eval_script\<close>, one opcode at a time, with every
  opcode group as its own definition. The hash functions are the \<open>bitcoin_hashes\<close> crate's and
  are the record \<open>hash_fns\<close>; the signature and lock-time questions go to the record
  \<open>sig_checker\<close>, which the transaction checker fills (theory \<open>Sig_Checker\<close>).
\<close>

section \<open>The model\<close>

abbreviation (input) MAX_SCRIPT_SIZE :: nat where "MAX_SCRIPT_SIZE \<equiv> 10000"
abbreviation (input) MAX_STACK_SIZE :: nat where "MAX_STACK_SIZE \<equiv> 1000"
abbreviation (input) MAX_OPS_PER_SCRIPT :: nat where "MAX_OPS_PER_SCRIPT \<equiv> 201"
abbreviation (input) MAX_PUBKEYS_PER_MULTISIG :: nat where "MAX_PUBKEYS_PER_MULTISIG \<equiv> 20"
abbreviation (input) VALIDATION_WEIGHT_PER_SIGOP_PASSED :: int where "VALIDATION_WEIGHT_PER_SIGOP_PASSED \<equiv> 50"
abbreviation (input) CODESEPARATOR_POS_NONE :: nat where "CODESEPARATOR_POS_NONE \<equiv> 0xffffffff"
abbreviation (input) OP_COUNT_MAX :: nat where "OP_COUNT_MAX \<equiv> 221"
abbreviation (input) SEQUENCE_LOCKTIME_DISABLE_FLAG :: int where "SEQUENCE_LOCKTIME_DISABLE_FLAG \<equiv> 0x80000000"

subsection \<open>What the interpreter asks of its surroundings\<close>

record hash_fns =
  ripemd160 :: "bytes \<Rightarrow> hash"
  sha1 :: "bytes \<Rightarrow> hash"
  sha256 :: "bytes \<Rightarrow> hash"
  hash160 :: "bytes \<Rightarrow> hash"
  sha256d :: "bytes \<Rightarrow> hash"

datatype taproot_spend = KeyPath | TapscriptSpend hash nat

record sig_checker =
  check_ecdsa :: "bytes \<Rightarrow> bytes \<Rightarrow> script \<Rightarrow> sig_version \<Rightarrow> (script_error, bool) res"
  check_schnorr :: "bytes \<Rightarrow> bytes \<Rightarrow> taproot_spend \<Rightarrow> bytes option \<Rightarrow> (script_error, unit) res"
  check_locktime :: "int \<Rightarrow> (script_error, bool) res"
  check_sequence :: "int \<Rightarrow> (script_error, bool) res"

record tapscript_exec =
  leaf_hash :: hash
  annex :: "bytes option"
  validation_weight_left :: int

record exec_data =
  codesep_pos :: nat
  ed_tapscript :: "tapscript_exec option"

definition exec_legacy :: exec_data where
  "exec_legacy = \<lparr> codesep_pos = CODESEPARATOR_POS_NONE, ed_tapscript = None \<rparr>"

definition exec_tapscript :: "tapscript_exec \<Rightarrow> exec_data" where
  "exec_tapscript e = \<lparr> codesep_pos = CODESEPARATOR_POS_NONE, ed_tapscript = Some e \<rparr>"

subsection \<open>The condition stack\<close>

record condition_stack =
  cs_depth :: nat
  cs_first_false :: "nat option"

definition cs_new :: condition_stack where
  "cs_new = \<lparr> cs_depth = 0, cs_first_false = None \<rparr>"

definition cs_is_empty :: "condition_stack \<Rightarrow> bool" where
  "cs_is_empty c \<longleftrightarrow> cs_depth c = 0"

definition cs_all_true :: "condition_stack \<Rightarrow> bool" where
  "cs_all_true c \<longleftrightarrow> cs_first_false c = None"

definition cs_push :: "bool \<Rightarrow> condition_stack \<Rightarrow> ('e, condition_stack) res" where
  "cs_push v c =
     (let c = (if cs_first_false c = None \<and> \<not> v then c\<lparr>cs_first_false := Some (cs_depth c)\<rparr> else c);
          c = c\<lparr>cs_depth := cs_depth c + 1\<rparr>
      in ensure (cs_depth c \<le> 10001) (Ok c))"

definition cs_pop :: "condition_stack \<Rightarrow> ('e, condition_stack) res" where
  "cs_pop c = ensure (0 < cs_depth c)
     (let c = c\<lparr>cs_depth := cs_depth c - 1\<rparr>
      in Ok (if cs_first_false c = Some (cs_depth c) then c\<lparr>cs_first_false := None\<rparr> else c))"

definition cs_toggle_top :: "condition_stack \<Rightarrow> ('e, condition_stack) res" where
  "cs_toggle_top c = ensure (0 < cs_depth c)
     (let top = cs_depth c - 1
      in Ok (case cs_first_false c of
               None \<Rightarrow> c\<lparr>cs_first_false := Some top\<rparr>
             | Some first \<Rightarrow> if first = top then c\<lparr>cs_first_false := None\<rparr> else c))"

subsection \<open>The machine\<close>

record machine =
  mc_script :: script
  mc_stack :: stack
  mc_altstack :: stack
  mc_conditions :: condition_stack
  mc_op_count :: nat
  mc_codesep_start :: nat
  mc_flags :: script_flags
  mc_sig_version :: sig_version
  mc_exec :: exec_data

text \<open>A handler that touches the data stack only.\<close>

definition on_stack :: "(stack \<Rightarrow> (script_error, stack) res) \<Rightarrow> machine \<Rightarrow> (script_error, machine) res" where
  "on_stack f m = and_then (f (mc_stack m)) (\<lambda>s. Ok (m\<lparr>mc_stack := s\<rparr>))"

definition op_small_integer :: "u8 \<Rightarrow> stack \<Rightarrow> (script_error, stack) res" where
  "op_small_integer opcode s =
     and_then (small_integer opcode) (\<lambda>v.
     and_then (num_from_i64 v) (\<lambda>n.
     and_then (num_encode n) (\<lambda>bs. stack_push bs s)))"

definition op_check_locktime :: "sig_checker \<Rightarrow> machine \<Rightarrow> (script_error, machine) res" where
  "op_check_locktime checker m =
     (if \<not> flags_contains (mc_flags m) FLAG_CHECKLOCKTIMEVERIFY then Ok m
      else and_then (stack_require 1 (mc_stack m)) (\<lambda>_.
        and_then (stack_top 1 (mc_stack m)) (\<lambda>x.
        and_then (num_decode x SCRIPTNUM_LOCKTIME_SIZE_MAX) (\<lambda>lock_time.
          if lock_time < 0 then Err NegativeLocktime
          else and_then (check_locktime checker lock_time) (\<lambda>ok.
            if \<not> ok then Err UnsatisfiedLocktime else Ok m)))))"

definition op_check_sequence :: "sig_checker \<Rightarrow> machine \<Rightarrow> (script_error, machine) res" where
  "op_check_sequence checker m =
     (if \<not> flags_contains (mc_flags m) FLAG_CHECKSEQUENCEVERIFY then Ok m
      else and_then (stack_require 1 (mc_stack m)) (\<lambda>_.
        and_then (stack_top 1 (mc_stack m)) (\<lambda>x.
        and_then (num_decode x SCRIPTNUM_LOCKTIME_SIZE_MAX) (\<lambda>sequence.
          if sequence < 0 then Err NegativeLocktime
          else if sequence AND SEQUENCE_LOCKTIME_DISABLE_FLAG \<noteq> 0 then Ok m
          else and_then (check_sequence checker sequence) (\<lambda>ok.
            if \<not> ok then Err UnsatisfiedLocktime else Ok m)))))"

definition branch :: "u8 \<Rightarrow> bool \<Rightarrow> machine \<Rightarrow> (script_error, machine) res" where
  "branch opcode executing m =
     and_then
       (if executing then
          and_then (stack_require 1 (mc_stack m)) (\<lambda>_.
          and_then (stack_top 1 (mc_stack m)) (\<lambda>argument.
            if mc_sig_version m = Tapscript \<and> \<not> (argument = [] \<or> argument = [1])
            then Err TapscriptMinimalif
            else let v = cast_to_bool argument;
                     v = (if opcode = OP_NOTIF then \<not> v else v)
                 in and_then (stack_pop (mc_stack m)) (\<lambda>(_, s). Ok (v, m\<lparr>mc_stack := s\<rparr>))))
        else Ok (False, m))
       (\<lambda>(v, m). and_then (cs_push v (mc_conditions m)) (\<lambda>c. Ok (m\<lparr>mc_conditions := c\<rparr>)))"

definition op_else :: "machine \<Rightarrow> (script_error, machine) res" where
  "op_else m =
     (if cs_is_empty (mc_conditions m) then Err UnbalancedConditional
      else and_then (cs_toggle_top (mc_conditions m)) (\<lambda>c. Ok (m\<lparr>mc_conditions := c\<rparr>)))"

definition op_endif :: "machine \<Rightarrow> (script_error, machine) res" where
  "op_endif m =
     (if cs_is_empty (mc_conditions m) then Err UnbalancedConditional
      else and_then (cs_pop (mc_conditions m)) (\<lambda>c. Ok (m\<lparr>mc_conditions := c\<rparr>)))"

definition op_verify :: "stack \<Rightarrow> (script_error, stack) res" where
  "op_verify s =
     and_then (stack_require 1 s) (\<lambda>_.
     and_then (stack_top 1 s) (\<lambda>x.
       if \<not> cast_to_bool x then Err Verify
       else and_then (stack_pop s) (\<lambda>(_, s). Ok s)))"

definition op_size :: "stack \<Rightarrow> (script_error, stack) res" where
  "op_size s =
     and_then (stack_require 1 s) (\<lambda>_.
     and_then (stack_top 1 s) (\<lambda>x.
     and_then (num_from_usize (length x)) (\<lambda>n.
     and_then (num_encode n) (\<lambda>bs. stack_push bs s))))"

subsection \<open>Stack opcodes\<close>

definition op_toaltstack :: "machine \<Rightarrow> (script_error, machine) res" where
  "op_toaltstack m =
     and_then (stack_require 1 (mc_stack m)) (\<lambda>_.
     and_then (stack_pop (mc_stack m)) (\<lambda>(item, s).
     and_then (stack_push item (mc_altstack m)) (\<lambda>a. Ok (m\<lparr>mc_stack := s, mc_altstack := a\<rparr>))))"

definition op_fromaltstack :: "machine \<Rightarrow> (script_error, machine) res" where
  "op_fromaltstack m =
     (if mc_altstack m = [] then Err InvalidAltstackOperation
      else and_then (stack_pop (mc_altstack m)) (\<lambda>(item, a).
        and_then (stack_push item (mc_stack m)) (\<lambda>s. Ok (m\<lparr>mc_stack := s, mc_altstack := a\<rparr>))))"

definition op_2drop :: "stack \<Rightarrow> (script_error, stack) res" where
  "op_2drop s =
     and_then (stack_require 2 s) (\<lambda>_.
     and_then (stack_pop s) (\<lambda>(_, s).
     and_then (stack_pop s) (\<lambda>(_, s). Ok s)))"

definition op_2dup :: "stack \<Rightarrow> (script_error, stack) res" where
  "op_2dup s =
     and_then (stack_require 2 s) (\<lambda>_.
     and_then (stack_top 2 s) (\<lambda>x1.
     and_then (stack_top 1 s) (\<lambda>x2.
     and_then (stack_push x1 s) (stack_push x2))))"

definition op_3dup :: "stack \<Rightarrow> (script_error, stack) res" where
  "op_3dup s =
     and_then (stack_require 3 s) (\<lambda>_.
     and_then (stack_top 3 s) (\<lambda>x1.
     and_then (stack_top 2 s) (\<lambda>x2.
     and_then (stack_top 1 s) (\<lambda>x3.
     and_then (stack_push x1 s) (\<lambda>s.
     and_then (stack_push x2 s) (stack_push x3))))))"

definition op_2over :: "stack \<Rightarrow> (script_error, stack) res" where
  "op_2over s =
     and_then (stack_require 4 s) (\<lambda>_.
     and_then (stack_top 4 s) (\<lambda>x1.
     and_then (stack_top 3 s) (\<lambda>x2.
     and_then (stack_push x1 s) (stack_push x2))))"

definition op_2rot :: "stack \<Rightarrow> (script_error, stack) res" where
  "op_2rot s =
     and_then (stack_require 6 s) (\<lambda>_.
     and_then (stack_remove 6 s) (\<lambda>(x1, s).
     and_then (stack_remove 5 s) (\<lambda>(x2, s).
     and_then (stack_push x1 s) (stack_push x2))))"

definition op_2swap :: "stack \<Rightarrow> (script_error, stack) res" where
  "op_2swap s = and_then (stack_require 4 s) (\<lambda>_. and_then (stack_swap 4 2 s) (stack_swap 3 1))"

definition stack_op_pairs :: "u8 \<Rightarrow> machine \<Rightarrow> (script_error, machine) res" where
  "stack_op_pairs opcode m =
     (if opcode = OP_TOALTSTACK then op_toaltstack m
      else if opcode = OP_FROMALTSTACK then op_fromaltstack m
      else if opcode = OP_2DROP then on_stack op_2drop m
      else if opcode = OP_2DUP then on_stack op_2dup m
      else if opcode = OP_3DUP then on_stack op_3dup m
      else if opcode = OP_2OVER then on_stack op_2over m
      else if opcode = OP_2ROT then on_stack op_2rot m
      else if opcode = OP_2SWAP then on_stack op_2swap m
      else Panic)"

definition pick_or_roll :: "u8 \<Rightarrow> stack \<Rightarrow> (script_error, stack) res" where
  "pick_or_roll opcode s =
     and_then (stack_require 2 s) (\<lambda>_.
     and_then (stack_top 1 s) (\<lambda>x.
     and_then (num_decode x SCRIPTNUM_SIZE_MAX) (\<lambda>v.
     let n = to_clamped_i32 v
     in and_then (stack_pop s) (\<lambda>(_, s).
        if n < 0 then Err InvalidStackOperation
        else if length s \<le> nat n then Err InvalidStackOperation
        else and_then (stack_top (nat n + 1) s) (\<lambda>item.
          and_then (if opcode = OP_ROLL then and_then (stack_remove (nat n + 1) s) (\<lambda>(_, s). Ok s) else Ok s)
            (stack_push item))))))"

definition op_ifdup :: "stack \<Rightarrow> (script_error, stack) res" where
  "op_ifdup s =
     and_then (stack_require 1 s) (\<lambda>_.
     and_then (stack_top 1 s) (\<lambda>x. if cast_to_bool x then stack_push x s else Ok s))"

definition op_depth :: "stack \<Rightarrow> (script_error, stack) res" where
  "op_depth s = and_then (num_from_usize (length s)) (\<lambda>n. and_then (num_encode n) (\<lambda>bs. stack_push bs s))"

definition op_drop :: "stack \<Rightarrow> (script_error, stack) res" where
  "op_drop s = and_then (stack_require 1 s) (\<lambda>_. and_then (stack_pop s) (\<lambda>(_, s). Ok s))"

definition op_dup :: "stack \<Rightarrow> (script_error, stack) res" where
  "op_dup s = and_then (stack_require 1 s) (\<lambda>_. and_then (stack_top 1 s) (\<lambda>x. stack_push x s))"

definition op_nip :: "stack \<Rightarrow> (script_error, stack) res" where
  "op_nip s = and_then (stack_require 2 s) (\<lambda>_. and_then (stack_remove 2 s) (\<lambda>(_, s). Ok s))"

definition op_over :: "stack \<Rightarrow> (script_error, stack) res" where
  "op_over s = and_then (stack_require 2 s) (\<lambda>_. and_then (stack_top 2 s) (\<lambda>x1. stack_push x1 s))"

definition op_rot :: "stack \<Rightarrow> (script_error, stack) res" where
  "op_rot s = and_then (stack_require 3 s) (\<lambda>_. and_then (stack_swap 3 2 s) (stack_swap 2 1))"

definition op_swap :: "stack \<Rightarrow> (script_error, stack) res" where
  "op_swap s = and_then (stack_require 2 s) (\<lambda>_. stack_swap 2 1 s)"

definition op_tuck :: "stack \<Rightarrow> (script_error, stack) res" where
  "op_tuck s = and_then (stack_require 2 s) (\<lambda>_. and_then (stack_top 1 s) (\<lambda>x2. stack_insert 2 x2 s))"

definition stack_op_singles :: "u8 \<Rightarrow> stack \<Rightarrow> (script_error, stack) res" where
  "stack_op_singles opcode s =
     (if opcode = OP_IFDUP then op_ifdup s
      else if opcode = OP_DEPTH then op_depth s
      else if opcode = OP_DROP then op_drop s
      else if opcode = OP_DUP then op_dup s
      else if opcode = OP_NIP then op_nip s
      else if opcode = OP_OVER then op_over s
      else if opcode = OP_PICK \<or> opcode = OP_ROLL then pick_or_roll opcode s
      else if opcode = OP_ROT then op_rot s
      else if opcode = OP_SWAP then op_swap s
      else if opcode = OP_TUCK then op_tuck s
      else Panic)"

subsection \<open>Comparison, arithmetic and hashes\<close>

definition op_equal :: "u8 \<Rightarrow> stack \<Rightarrow> (script_error, stack) res" where
  "op_equal opcode s =
     and_then (stack_require 2 s) (\<lambda>_.
     and_then (stack_pop s) (\<lambda>(x2, s).
     and_then (stack_pop s) (\<lambda>(x1, s).
     and_then (stack_push_bool (x1 = x2) s) (\<lambda>s.
       if opcode = OP_EQUALVERIFY then
         (if x1 \<noteq> x2 then Err Equalverify else and_then (stack_pop s) (\<lambda>(_, s). Ok s))
       else Ok s))))"

definition numeric_unary :: "u8 \<Rightarrow> stack \<Rightarrow> (script_error, stack) res" where
  "numeric_unary opcode s =
     and_then (stack_require 1 s) (\<lambda>_.
     and_then (stack_top 1 s) (\<lambda>x.
     and_then (num_decode x SCRIPTNUM_SIZE_MAX) (\<lambda>n.
     and_then
       (if opcode = OP_1ADD then num_add n 1
        else if opcode = OP_1SUB then num_sub n 1
        else if opcode = OP_NEGATE then num_neg n
        else if opcode = OP_ABS then num_abs n
        else if opcode = OP_NOT then Ok (num_from_bool (num_is_zero n))
        else if opcode = OP_0NOTEQUAL then Ok (num_from_bool (\<not> num_is_zero n))
        else Panic)
       (\<lambda>result.
     and_then (stack_pop s) (\<lambda>(_, s).
     and_then (num_encode result) (\<lambda>bs. stack_push bs s))))))"

definition binary_result :: "u8 \<Rightarrow> script_num \<Rightarrow> script_num \<Rightarrow> (script_error, script_num) res" where
  "binary_result opcode x1 x2 =
     (if opcode = OP_ADD then num_add x1 x2
      else if opcode = OP_SUB then num_sub x1 x2
      else if opcode = OP_BOOLAND then Ok (num_from_bool (\<not> num_is_zero x1 \<and> \<not> num_is_zero x2))
      else if opcode = OP_BOOLOR then Ok (num_from_bool (\<not> num_is_zero x1 \<or> \<not> num_is_zero x2))
      else if opcode = OP_NUMEQUAL \<or> opcode = OP_NUMEQUALVERIFY then Ok (num_from_bool (x1 = x2))
      else if opcode = OP_NUMNOTEQUAL then Ok (num_from_bool (x1 \<noteq> x2))
      else if opcode = OP_LESSTHAN then Ok (num_from_bool (x1 < x2))
      else if opcode = OP_GREATERTHAN then Ok (num_from_bool (x1 > x2))
      else if opcode = OP_LESSTHANOREQUAL then Ok (num_from_bool (x1 \<le> x2))
      else if opcode = OP_GREATERTHANOREQUAL then Ok (num_from_bool (x1 \<ge> x2))
      else if opcode = OP_MIN then Ok (min x1 x2)
      else if opcode = OP_MAX then Ok (max x1 x2)
      else Panic)"

definition numeric_binary :: "u8 \<Rightarrow> stack \<Rightarrow> (script_error, stack) res" where
  "numeric_binary opcode s =
     and_then (stack_require 2 s) (\<lambda>_.
     and_then (stack_top 2 s) (\<lambda>a.
     and_then (num_decode a SCRIPTNUM_SIZE_MAX) (\<lambda>x1.
     and_then (stack_top 1 s) (\<lambda>b.
     and_then (num_decode b SCRIPTNUM_SIZE_MAX) (\<lambda>x2.
     and_then (binary_result opcode x1 x2) (\<lambda>result.
     and_then (stack_pop s) (\<lambda>(_, s).
     and_then (stack_pop s) (\<lambda>(_, s).
     and_then (num_encode result) (\<lambda>bs.
     and_then (stack_push bs s) (\<lambda>s.
       if opcode = OP_NUMEQUALVERIFY then
         and_then (stack_top 1 s) (\<lambda>x.
           if \<not> cast_to_bool x then Err Numequalverify
           else and_then (stack_pop s) (\<lambda>(_, s). Ok s))
       else Ok s))))))))))"

definition op_within :: "stack \<Rightarrow> (script_error, stack) res" where
  "op_within s =
     and_then (stack_require 3 s) (\<lambda>_.
     and_then (stack_top 3 s) (\<lambda>a.
     and_then (num_decode a SCRIPTNUM_SIZE_MAX) (\<lambda>x.
     and_then (stack_top 2 s) (\<lambda>b.
     and_then (num_decode b SCRIPTNUM_SIZE_MAX) (\<lambda>lo.
     and_then (stack_top 1 s) (\<lambda>c.
     and_then (num_decode c SCRIPTNUM_SIZE_MAX) (\<lambda>hi.
     let inside = lo \<le> x \<and> x < hi
     in and_then (stack_pop s) (\<lambda>(_, s).
        and_then (stack_pop s) (\<lambda>(_, s).
        and_then (stack_pop s) (\<lambda>(_, s). stack_push_bool inside s))))))))))"

definition op_hash :: "hash_fns \<Rightarrow> u8 \<Rightarrow> stack \<Rightarrow> (script_error, stack) res" where
  "op_hash h opcode s =
     and_then (stack_require 1 s) (\<lambda>_.
     and_then (stack_pop s) (\<lambda>(input, s).
     and_then
       (if opcode = OP_RIPEMD160 then Ok (ripemd160 h input)
        else if opcode = OP_SHA1 then Ok (sha1 h input)
        else if opcode = OP_SHA256 then Ok (sha256 h input)
        else if opcode = OP_HASH160 then Ok (hash160 h input)
        else if opcode = OP_HASH256 then Ok (sha256d h input)
        else Panic)
       (\<lambda>digest. ensure (length digest = 20 \<or> length digest = 32) (stack_push digest s))))"

subsection \<open>Signature checks\<close>

definition script_code :: "machine \<Rightarrow> (script_error, script) res" where
  "script_code m = ensure (mc_codesep_start m \<le> length (mc_script m))
     (expect (get_range (mc_script m) (mc_codesep_start m) (length (mc_script m))))"

definition eval_checksig_pre_tapscript ::
    "sig_checker \<Rightarrow> machine \<Rightarrow> bytes \<Rightarrow> bytes \<Rightarrow> (script_error, bool) res" where
  "eval_checksig_pre_tapscript checker m signature pubkey =
     and_then
       (if mc_sig_version m = Base then
          and_then (script_code m) (\<lambda>code.
          and_then (push_encoding signature) (\<lambda>pattern.
          and_then (find_and_delete code pattern) (\<lambda>(code, _). Ok code)))
        else script_code m)
       (\<lambda>code.
     and_then (check_signature_encoding signature (mc_flags m)) (\<lambda>_.
     check_ecdsa checker signature pubkey code (mc_sig_version m)))"

text \<open>The budget is an \<open>i64\<close>; the subtraction is checked. The machine is returned because the
  budget is charged in place.\<close>

definition eval_checksig_tapscript ::
    "sig_checker \<Rightarrow> machine \<Rightarrow> bytes \<Rightarrow> bytes \<Rightarrow> (script_error, bool \<times> machine) res" where
  "eval_checksig_tapscript checker m signature pubkey =
     and_then (expect (ed_tapscript (mc_exec m))) (\<lambda>exec.
       let success = (signature \<noteq> [])
       in and_then
            (if success then
               let left = validation_weight_left exec - VALIDATION_WEIGHT_PER_SIGOP_PASSED
               in ensure (in_i64 left)
                    (if left < 0 then Err TapscriptValidationWeight
                     else Ok (exec\<lparr>validation_weight_left := left\<rparr>))
             else Ok exec)
            (\<lambda>exec.
               if pubkey = [] then Err TapscriptEmptyPubkey
               else and_then
                 (if length pubkey = 32 \<and> success then
                    check_schnorr checker signature pubkey
                      (TapscriptSpend (leaf_hash exec) (codesep_pos (mc_exec m))) (annex exec)
                  else Ok ())
                 (\<lambda>_. Ok (success, m\<lparr>mc_exec := (mc_exec m)\<lparr>ed_tapscript := Some exec\<rparr>\<rparr>))))"

definition eval_checksig ::
    "sig_checker \<Rightarrow> machine \<Rightarrow> bytes \<Rightarrow> bytes \<Rightarrow> (script_error, bool \<times> machine) res" where
  "eval_checksig checker m signature pubkey =
     (case mc_sig_version m of
        Tapscript \<Rightarrow> eval_checksig_tapscript checker m signature pubkey
      | _ \<Rightarrow> and_then (eval_checksig_pre_tapscript checker m signature pubkey) (\<lambda>b. Ok (b, m)))"

definition op_checksig :: "sig_checker \<Rightarrow> u8 \<Rightarrow> machine \<Rightarrow> (script_error, machine) res" where
  "op_checksig checker opcode m =
     and_then (stack_require 2 (mc_stack m)) (\<lambda>_.
     and_then (stack_pop (mc_stack m)) (\<lambda>(pubkey, s).
     and_then (stack_pop s) (\<lambda>(signature, s).
     and_then (eval_checksig checker (m\<lparr>mc_stack := s\<rparr>) signature pubkey) (\<lambda>(success, m).
     and_then (stack_push_bool success (mc_stack m)) (\<lambda>s.
       if opcode = OP_CHECKSIGVERIFY then
         (if \<not> success then Err Checksigverify
          else and_then (stack_pop s) (\<lambda>(_, s). Ok (m\<lparr>mc_stack := s\<rparr>)))
       else Ok (m\<lparr>mc_stack := s\<rparr>))))))"

definition op_checksigadd :: "sig_checker \<Rightarrow> machine \<Rightarrow> (script_error, machine) res" where
  "op_checksigadd checker m =
     (if mc_sig_version m \<noteq> Tapscript then Err BadOpcode
      else and_then (stack_require 3 (mc_stack m)) (\<lambda>_.
        and_then (stack_pop (mc_stack m)) (\<lambda>(pubkey, s).
        and_then (stack_top 1 s) (\<lambda>x.
        and_then (num_decode x SCRIPTNUM_SIZE_MAX) (\<lambda>n.
        and_then (stack_pop s) (\<lambda>(_, s).
        and_then (stack_pop s) (\<lambda>(signature, s).
        and_then (eval_checksig checker (m\<lparr>mc_stack := s\<rparr>) signature pubkey) (\<lambda>(success, m).
        and_then (num_add n (num_from_bool success)) (\<lambda>r.
        and_then (num_encode r) (\<lambda>bs.
        and_then (stack_push bs (mc_stack m)) (\<lambda>s. Ok (m\<lparr>mc_stack := s\<rparr>))))))))))))"

text \<open>The multisig script code: under legacy rules each signature is deleted from the result of
  the previous deletion.\<close>

fun delete_signatures :: "stack \<Rightarrow> nat \<Rightarrow> nat \<Rightarrow> script \<Rightarrow> (script_error, script) res" where
  "delete_signatures s isig 0 code = Ok code"
| "delete_signatures s isig (Suc left) code =
     and_then (stack_top isig s) (\<lambda>signature.
     and_then (push_encoding signature) (\<lambda>pattern.
     and_then (find_and_delete code pattern) (\<lambda>(code, _).
       delete_signatures s (isig + 1) left code)))"

definition multisig_script_code :: "machine \<Rightarrow> nat \<Rightarrow> nat \<Rightarrow> (script_error, script) res" where
  "multisig_script_code m isig sig_count =
     and_then (script_code m) (\<lambda>code.
       if mc_sig_version m = Base then delete_signatures (mc_stack m) isig sig_count code else Ok code)"

text \<open>The matching loop. Every round consumes one key, so the recursion is on the keys left; with
  no key left and a signature wanted the source's \<open>keys_left -= 1\<close> underflows, and a round past
  the twentieth fails its assertion.\<close>

fun checkmultisig_verify ::
    "sig_checker \<Rightarrow> machine \<Rightarrow> script \<Rightarrow> nat \<Rightarrow> nat \<Rightarrow> nat \<Rightarrow> nat \<Rightarrow> nat \<Rightarrow> (script_error, bool) res" where
  "checkmultisig_verify checker m code iterations ikey isig keys_left 0 = Ok True"
| "checkmultisig_verify checker m code iterations ikey isig keys_left (Suc sigs) =
     (let iterations = iterations + 1; sigs_left = Suc sigs
      in ensure (iterations \<le> MAX_PUBKEYS_PER_MULTISIG)
           (and_then (stack_top isig (mc_stack m)) (\<lambda>signature.
            and_then (stack_top ikey (mc_stack m)) (\<lambda>pubkey.
            and_then (check_signature_encoding signature (mc_flags m)) (\<lambda>_.
            and_then (check_ecdsa checker signature pubkey code (mc_sig_version m)) (\<lambda>ok.
              case keys_left of
                0 \<Rightarrow> Panic
              | Suc keys_left \<Rightarrow>
                  if ok then
                    (if keys_left < sigs then Ok False
                     else checkmultisig_verify checker m code iterations (ikey + 1) (isig + 1) keys_left sigs)
                  else
                    (if keys_left < sigs_left then Ok False
                     else checkmultisig_verify checker m code iterations (ikey + 1) isig keys_left (Suc sigs))))))))"

fun pop_many :: "nat \<Rightarrow> stack \<Rightarrow> (script_error, stack) res" where
  "pop_many 0 s = Ok s"
| "pop_many (Suc n) s = and_then (stack_pop s) (\<lambda>(_, s). pop_many n s)"

definition count_from :: "int \<Rightarrow> ('e, nat) res" where
  "count_from n = (if 0 \<le> n then Ok (nat n) else Panic)"

text \<open>The second half of the handler, once both counts are read: the arguments end at depth \<open>i\<close>.\<close>

definition multisig_finish :: "sig_checker \<Rightarrow> u8 \<Rightarrow> machine \<Rightarrow> nat \<Rightarrow> nat \<Rightarrow> nat \<Rightarrow> nat \<Rightarrow> (script_error, machine) res" where
  "multisig_finish checker opcode m ikey isig key_count sig_count =
     (let s = mc_stack m; i = isig + sig_count
      in and_then (stack_require i s) (\<lambda>_.
         and_then (multisig_script_code m isig sig_count) (\<lambda>code.
         and_then (checkmultisig_verify checker m code 0 ikey isig key_count sig_count) (\<lambda>success.
         and_then (pop_many (i - 1) s) (\<lambda>s.
         and_then (stack_require 1 s) (\<lambda>_.
         and_then (stack_top 1 s) (\<lambda>dummy.
           if flags_contains (mc_flags m) FLAG_NULLDUMMY \<and> dummy \<noteq> [] then Err SigNulldummy
           else and_then (stack_pop s) (\<lambda>(_, s).
             and_then (stack_push_bool success s) (\<lambda>s.
               if opcode = OP_CHECKMULTISIGVERIFY then
                 (if \<not> success then Err Checkmultisigverify
                  else and_then (stack_pop s) (\<lambda>(_, s). Ok (m\<lparr>mc_stack := s\<rparr>)))
               else Ok (m\<lparr>mc_stack := s\<rparr>))))))))))"

definition op_checkmultisig :: "sig_checker \<Rightarrow> u8 \<Rightarrow> machine \<Rightarrow> (script_error, machine) res" where
  "op_checkmultisig checker opcode m =
     (if mc_sig_version m = Tapscript then Err TapscriptCheckmultisig
      else let i = 1; s = mc_stack m
      in and_then (stack_require i s) (\<lambda>_.
         and_then (stack_top i s) (\<lambda>x.
         and_then (num_decode x SCRIPTNUM_SIZE_MAX) (\<lambda>v.
         let key_count_i32 = to_clamped_i32 v
         in if \<not> (0 \<le> key_count_i32 \<and> key_count_i32 \<le> int MAX_PUBKEYS_PER_MULTISIG) then Err PubkeyCount
         else and_then (count_from key_count_i32) (\<lambda>key_count.
         let m = m\<lparr>mc_op_count := mc_op_count m + key_count\<rparr>
         in if MAX_OPS_PER_SCRIPT < mc_op_count m then Err OpCount
         else let i = i + 1; ikey = i; i = i + key_count
         in and_then (stack_require i s) (\<lambda>_.
            and_then (stack_top i s) (\<lambda>x.
            and_then (num_decode x SCRIPTNUM_SIZE_MAX) (\<lambda>v.
            let sig_count_i32 = to_clamped_i32 v
            in if sig_count_i32 < 0 \<or> key_count_i32 < sig_count_i32 then Err SigCount
            else and_then (count_from sig_count_i32) (\<lambda>sig_count.
              multisig_finish checker opcode m ikey (i + 1) key_count sig_count)))))))))"

subsection \<open>Dispatch and the loop\<close>

definition execute ::
    "hash_fns \<Rightarrow> sig_checker \<Rightarrow> op \<Rightarrow> bool \<Rightarrow> nat \<Rightarrow> machine \<Rightarrow> (script_error, machine) res" where
  "execute h checker op executing index m =
     (let b = op_opcode op
      in if b = OP_1NEGATE \<or> OP_1 \<le> b \<and> b \<le> OP_16 then on_stack (op_small_integer b) m
      else if b = OP_NOP \<or> b = OP_NOP1 \<or> OP_NOP4 \<le> b \<and> b \<le> OP_NOP10 then Ok m
      else if b = OP_CHECKLOCKTIMEVERIFY then op_check_locktime checker m
      else if b = OP_CHECKSEQUENCEVERIFY then op_check_sequence checker m
      else if b = OP_IF \<or> b = OP_NOTIF then branch b executing m
      else if b = OP_ELSE then op_else m
      else if b = OP_ENDIF then op_endif m
      else if b = OP_VERIFY then on_stack op_verify m
      else if b = OP_RETURN then Err OpReturn
      else if OP_TOALTSTACK \<le> b \<and> b \<le> OP_2SWAP then stack_op_pairs b m
      else if OP_IFDUP \<le> b \<and> b \<le> OP_TUCK then on_stack (stack_op_singles b) m
      else if b = OP_SIZE then on_stack op_size m
      else if b = OP_EQUAL \<or> b = OP_EQUALVERIFY then on_stack (op_equal b) m
      else if b \<in> {OP_1ADD, OP_1SUB, OP_NEGATE, OP_ABS, OP_NOT, OP_0NOTEQUAL} then on_stack (numeric_unary b) m
      else if b = OP_ADD \<or> b = OP_SUB \<or> OP_BOOLAND \<le> b \<and> b \<le> OP_MAX then on_stack (numeric_binary b) m
      else if b = OP_WITHIN then on_stack op_within m
      else if OP_RIPEMD160 \<le> b \<and> b \<le> OP_HASH256 then on_stack (op_hash h b) m
      else if b = OP_CODESEPARATOR then
        Ok (m\<lparr>mc_codesep_start := op_end op, mc_exec := (mc_exec m)\<lparr>codesep_pos := index\<rparr>\<rparr>)
      else if b = OP_CHECKSIG \<or> b = OP_CHECKSIGVERIFY then op_checksig checker b m
      else if b = OP_CHECKSIGADD then op_checksigadd checker m
      else if b = OP_CHECKMULTISIG \<or> b = OP_CHECKMULTISIGVERIFY then op_checkmultisig checker b m
      else Err BadOpcode)"

text \<open>One iteration of the loop body, after the reader has produced an opcode.\<close>

definition eval_step ::
    "hash_fns \<Rightarrow> sig_checker \<Rightarrow> bool \<Rightarrow> op \<Rightarrow> reader \<Rightarrow> machine \<Rightarrow> (script_error, machine) res" where
  "eval_step h checker counts_ops op r m =
     (if MAX_SCRIPT_ELEMENT_SIZE < length (op_push op) then Err PushSize
      else and_then
        (if counts_ops \<and> counts_toward_op_limit (op_opcode op) then
           let m = m\<lparr>mc_op_count := mc_op_count m + 1\<rparr>
           in if MAX_OPS_PER_SCRIPT < mc_op_count m then Err OpCount else Ok m
         else Ok m)
        (\<lambda>m.
      if is_disabled (op_opcode op) then Err DisabledOpcode
      else let executing = cs_all_true (mc_conditions m)
      in and_then
           (if executing \<and> is_push (op_opcode op) then on_stack (stack_push (op_push op)) m
            else if executing \<or> is_conditional (op_opcode op) then
              and_then (opcode_index r) (\<lambda>i. execute h checker op executing i m)
            else Ok m)
           (\<lambda>m. if MAX_STACK_SIZE < length (mc_stack m) + length (mc_altstack m) then Err StackSize else Ok m)))"

lemma and_then_cong [fundef_cong]:
  "r = r' \<Longrightarrow> (\<And>a. r' = Ok a \<Longrightarrow> f a = f' a) \<Longrightarrow> and_then r f = and_then r' f'"
  by (cases r') simp_all

lemma next_op_progress:
  assumes "next_op r = (Ok (Some (Inr op, r')) :: ('e, _) res)"
  shows "length (rd_script r') - rd_position r' < length (rd_script r) - rd_position r"
proof (cases "read_op (rd_script r) (rd_position r) :: ('e, _) res")
  case (Ok q)
  then show ?thesis using assms by (cases q) (auto simp: next_op_def Let_def split: if_splits)
qed (use assms in \<open>auto simp: next_op_def split: if_splits\<close>)

function eval_loop ::
    "hash_fns \<Rightarrow> sig_checker \<Rightarrow> bool \<Rightarrow> reader \<Rightarrow> machine \<Rightarrow> (script_error, machine) res" where
  "eval_loop h checker counts_ops r m =
     and_then (next_op r) (\<lambda>step.
       case step of
         None \<Rightarrow> Ok m
       | Some (Inl e, r) \<Rightarrow> Err e
       | Some (Inr op, r) \<Rightarrow>
           and_then (eval_step h checker counts_ops op r m) (\<lambda>m. eval_loop h checker counts_ops r m))"
  by pat_completeness auto
termination
  by (relation "measure (\<lambda>(h, checker, counts_ops, r, m). length (rd_script r) - rd_position r)")
    (auto dest: next_op_progress)

declare eval_loop.simps [simp del]

definition machine_new :: "script \<Rightarrow> stack \<Rightarrow> script_flags \<Rightarrow> sig_version \<Rightarrow> exec_data \<Rightarrow> machine" where
  "machine_new script s flags version exec =
     \<lparr> mc_script = script, mc_stack = s, mc_altstack = [], mc_conditions = cs_new, mc_op_count = 0,
       mc_codesep_start = 0, mc_flags = flags, mc_sig_version = version,
       mc_exec = exec\<lparr>codesep_pos := CODESEPARATOR_POS_NONE\<rparr> \<rparr>"

definition eval_script ::
    "hash_fns \<Rightarrow> sig_checker \<Rightarrow> script \<Rightarrow> stack \<Rightarrow> script_flags \<Rightarrow> sig_version \<Rightarrow> exec_data \<Rightarrow>
     (script_error, stack \<times> exec_data) res" where
  "eval_script h checker script s flags version exec =
     ensure ((ed_tapscript exec \<noteq> None) = (version = Tapscript))
       (let counts_ops = (version \<noteq> Tapscript)
        in if counts_ops \<and> MAX_SCRIPT_SIZE < length script then Err ScriptSize
           else and_then (eval_loop h checker counts_ops (reader_new script) (machine_new script s flags version exec))
             (\<lambda>m. ensure (mc_op_count m \<le> OP_COUNT_MAX)
                (if \<not> cs_is_empty (mc_conditions m) then Err UnbalancedConditional
                 else Ok (mc_stack m, mc_exec m))))"

end
