(* ===== verification/Interpreter_Safety.thy ===== *)
theory Interpreter_Safety
  imports Script_Interpreter
begin

text \<open>
  The interpreter does not abort. Every assertion, index and checked addition of
  \<^verbatim>\<open>script/interpreter.rs\<close> and of the stack and number types below it is shown to pass on
  stacks within the limits, for every opcode, and the loop keeps those limits. The locale
  \<open>script_env\<close> is what the interpreter relies on: digest lengths and a checker that answers.
\<close>

section \<open>Numbers and stacks\<close>

definition num_bytes :: "int \<Rightarrow> bytes" where
  "num_bytes n = (if n = 0 then [] else sign_bytes (n < 0) (encode_loop (nat \<bar>n\<bar>)))"

lemma holds_num_encode [outcome]: "\<bar>n\<bar> \<le> 2 ^ 63 \<Longrightarrow> holds (num_encode n) P \<longleftrightarrow> P (num_bytes n)"
  by (simp add: num_encode_eq num_bytes_def)

lemma length_num_bytes [simp]: "\<bar>n\<bar> \<le> 2 ^ 63 \<Longrightarrow> length (num_bytes n) \<le> 9"
  using num_encode_length [of n "num_bytes n", where ?'a = unit] by (simp add: num_encode_eq num_bytes_def)

lemma length_num_bytes_520 [simp]: "\<bar>n\<bar> \<le> 2 ^ 63 \<Longrightarrow> length (num_bytes n) \<le> 520"
  using length_num_bytes [of n] by linarith

lemma holds_num_decode [outcome]:
  "size_max \<le> 5 \<Longrightarrow> holds (num_decode x size_max) P \<longleftrightarrow> (length x \<le> size_max \<longrightarrow> P (num_val x))"
  by (simp add: num_decode_val)

lemma num_val_5: "length x \<le> 5 \<Longrightarrow> \<bar>num_val x\<bar> < 2 ^ 39"
proof (cases "x = []")
  case False
  assume "length x \<le> 5"
  then have "(256 :: int) ^ (length x - 1) \<le> 256 ^ 4" by (intro power_increasing) simp_all
  with num_val_bound [OF False] show ?thesis by simp
qed (simp add: num_val_def)

lemma wf_stack_simps [simp]:
  "wf_stack []" "wf_stack (x # s) \<longleftrightarrow> length x \<le> 520 \<and> wf_stack s" "wf_stack (s @ t) \<longleftrightarrow> wf_stack s \<and> wf_stack t"
  by (auto simp: wf_stack_def)

lemma wf_stack_parts [simp]:
  "wf_stack s \<Longrightarrow> wf_stack (butlast s)" "wf_stack s \<Longrightarrow> wf_stack (take n s)" "wf_stack s \<Longrightarrow> wf_stack (drop n s)"
  "wf_stack s \<Longrightarrow> i < length s \<Longrightarrow> length (s ! i) \<le> 520" "wf_stack s \<Longrightarrow> s \<noteq> [] \<Longrightarrow> length (last s) \<le> 520"
  "wf_stack s \<Longrightarrow> length x \<le> 520 \<Longrightarrow> wf_stack (s[i := x])"
  by (auto simp: wf_stack_def dest: in_set_butlastD in_set_takeD in_set_dropD set_update_subset_insert [THEN subsetD])

lemma length_pos_ne: "1 \<le> length s \<Longrightarrow> s \<noteq> []" "2 \<le> length s \<Longrightarrow> s \<noteq> [] \<and> butlast s \<noteq> []"
  "3 \<le> length s \<Longrightarrow> s \<noteq> [] \<and> butlast s \<noteq> [] \<and> butlast (butlast s) \<noteq> []"
  by (auto simp flip: length_greater_0_conv)


section \<open>Stack opcodes do not abort\<close>

text \<open>A stack opcode is safe when it never aborts on a stack within the limits and leaves one
  whose elements are within them. The length limit is the loop's to check.\<close>

definition stack_safe :: "(stack \<Rightarrow> (script_error, stack) res) \<Rightarrow> bool" where
  "stack_safe f \<longleftrightarrow> (\<forall>s. wf_stack s \<longrightarrow> length s < 2 ^ 63 \<longrightarrow> holds (f s) wf_stack)"

lemma stack_safeI: "(\<And>s. wf_stack s \<Longrightarrow> length s < 2 ^ 63 \<Longrightarrow> holds (f s) wf_stack) \<Longrightarrow> stack_safe f"
  by (simp add: stack_safe_def)

lemma nth_bound: "wf_stack s \<Longrightarrow> 1 \<le> d \<Longrightarrow> d \<le> length s \<Longrightarrow> length (s ! (length s - d)) \<le> 520"
  by simp

named_theorems safe "stack opcodes that do not abort"

lemma safe_moves [safe]:
  "stack_safe op_verify" "stack_safe op_2drop" "stack_safe op_2dup" "stack_safe op_3dup" "stack_safe op_2over"
  "stack_safe op_2swap" "stack_safe op_ifdup" "stack_safe op_drop" "stack_safe op_dup" "stack_safe op_nip"
  "stack_safe op_over" "stack_safe op_rot" "stack_safe op_swap" "stack_safe op_tuck"
  by (auto intro!: stack_safeI simp: outcome op_verify_def op_2drop_def op_2dup_def op_3dup_def op_2over_def op_2swap_def
      op_ifdup_def op_drop_def op_dup_def op_nip_def op_over_def op_rot_def op_swap_def op_tuck_def length_pos_ne)

lemma safe_2rot [safe]: "stack_safe op_2rot"
  by (auto intro!: stack_safeI simp: outcome op_2rot_def nth_append)

lemma num_from_ok: "\<bar>v\<bar> < 2 ^ 40 \<Longrightarrow> holds (num_from_i64 v) P = P v" "n < 2 ^ 63 \<Longrightarrow> holds (num_from_usize n) Q = Q (int n)"
  by (simp_all add: num_from_i64_def num_from_usize_def outcome)

lemma nth_length_u63 [simp]: "wf_stack s \<Longrightarrow> i < length s \<Longrightarrow> length (s ! i) < 9223372036854775808"
  by (rule le_less_trans [OF wf_stack_parts(4)]) simp_all

lemma nth_length_i64 [simp]: "wf_stack s \<Longrightarrow> i < length s \<Longrightarrow> length (s ! i) \<le> 9223372036854775808"
  by (rule less_imp_le, rule nth_length_u63)

lemma safe_sizes [safe]: "stack_safe op_size" "stack_safe op_depth"
  by (auto intro!: stack_safeI simp: outcome op_size_def op_depth_def num_from_ok)

lemma safe_small_integer:
  assumes "b = OP_1NEGATE \<or> OP_1 \<le> b \<and> b \<le> OP_16"
  shows "stack_safe (op_small_integer b)"
proof -
  obtain v where "small_integer b = (Ok v :: (script_error, _) res)" "- 1 \<le> v" "v \<le> 16"
    using small_integer_ok [OF assms] by blast
  then show ?thesis by (auto intro!: stack_safeI simp: outcome op_small_integer_def num_from_ok)
qed

lemma safe_pick_or_roll [safe]: "stack_safe (pick_or_roll b)"
  by (auto intro!: stack_safeI simp: outcome pick_or_roll_def Let_def length_pos_ne)

lemma u8_range: "a \<le> b \<Longrightarrow> b \<le> c \<Longrightarrow> unat b \<in> set [unat a..<Suc (unat (c :: u8))]"
  by (simp add: word_le_nat_alt less_Suc_eq_le del: upt_Suc)

lemma unat_u8_eq: "(b = numeral k) = (unat (b :: u8) = unat (numeral k :: u8))"
  by (rule word_unat_eq_iff)

lemma safe_singles:
  assumes "OP_IFDUP \<le> b" and "b \<le> OP_TUCK"
  shows "stack_safe (stack_op_singles b)"
proof -
  have "stack_op_singles b = op_ifdup \<or> stack_op_singles b = op_depth \<or> stack_op_singles b = op_drop \<or>
    stack_op_singles b = op_dup \<or> stack_op_singles b = op_nip \<or> stack_op_singles b = op_over \<or>
    stack_op_singles b = pick_or_roll b \<or> stack_op_singles b = op_rot \<or> stack_op_singles b = op_swap \<or>
    stack_op_singles b = op_tuck"
    using u8_range [OF assms] by (auto simp: stack_op_singles_def fun_eq_iff unat_u8_eq)
  then show ?thesis by (auto simp: safe)
qed

lemma safe_equal [safe]: "stack_safe (op_equal b)"
  by (auto intro!: stack_safeI simp: outcome op_equal_def length_pos_ne)

lemma safe_numeric_unary:
  "b \<in> {OP_1ADD, OP_1SUB, OP_NEGATE, OP_ABS, OP_NOT, OP_0NOTEQUAL} \<Longrightarrow> stack_safe (numeric_unary b)"
  by (rule stack_safeI) (auto simp: outcome numeric_unary_def num_add_def num_sub_def num_neg_def num_abs_def num_from_bool_def
    in_i64_def length_pos_ne dest!: num_val_4)

lemma num_holds:
  "\<bar>a\<bar> < 2 ^ 31 \<Longrightarrow> \<bar>b\<bar> < 2 ^ 31 \<Longrightarrow> holds (num_add a b) P = P (a + b)"
  "\<bar>a\<bar> < 2 ^ 31 \<Longrightarrow> \<bar>b\<bar> < 2 ^ 31 \<Longrightarrow> holds (num_sub a b) P = P (a - b)"
  by (auto simp: num_add_def num_sub_def in_i64_def outcome)

lemma binary_result_ok:
  assumes "b = OP_ADD \<or> b = OP_SUB \<or> OP_BOOLAND \<le> b \<and> b \<le> OP_MAX"
    and "\<bar>x1\<bar> < 2 ^ 31" "\<bar>x2\<bar> < 2 ^ 31"
  shows "holds (binary_result b x1 x2) (\<lambda>r. \<bar>r\<bar> < 2 ^ 32)"
proof -
  have "b = OP_ADD \<or> b = OP_SUB \<or> b = OP_BOOLAND \<or> b = OP_BOOLOR \<or> b = OP_NUMEQUAL \<or> b = OP_NUMEQUALVERIFY \<or>
    b = OP_NUMNOTEQUAL \<or> b = OP_LESSTHAN \<or> b = OP_GREATERTHAN \<or> b = OP_LESSTHANOREQUAL \<or> b = OP_GREATERTHANOREQUAL \<or>
    b = OP_MIN \<or> b = OP_MAX"
    using assms(1) u8_range [of OP_BOOLAND b OP_MAX] by (auto simp: unat_u8_eq)
  then show ?thesis
    using assms(2,3) by (elim disjE) (simp_all add: binary_result_def num_holds num_from_bool_def)
qed

lemma safe_numeric_binary:
  assumes "b = OP_ADD \<or> b = OP_SUB \<or> OP_BOOLAND \<le> b \<and> b \<le> OP_MAX"
  shows "stack_safe (numeric_binary b)"
proof (rule stack_safeI)
  fix s :: stack assume s: "wf_stack s" "length s < 2 ^ 63"
  show "holds (numeric_binary b s) wf_stack"
    unfolding numeric_binary_def
    apply (simp add: outcome)
    apply (intro impI)
    apply (rule holds_mono [OF binary_result_ok [OF assms]])
    using s by (auto simp: num_val_4 [simplified] outcome length_pos_ne)
qed

lemma safe_hash:
  assumes "OP_RIPEMD160 \<le> b" and "b \<le> OP_HASH256"
    and "\<And>x. length (ripemd160 h x) = 20" "\<And>x. length (sha1 h x) = 20" "\<And>x. length (sha256 h x) = 32"
      "\<And>x. length (hash160 h x) = 20" "\<And>x. length (sha256d h x) = 32"
  shows "stack_safe (op_hash h b)"
proof -
  have "b = OP_RIPEMD160 \<or> b = OP_SHA1 \<or> b = OP_SHA256 \<or> b = OP_HASH160 \<or> b = OP_HASH256"
    using u8_range [OF assms(1,2)] by (auto simp: unat_u8_eq)
  then show ?thesis
    using assms(3-) by (auto intro!: stack_safeI simp: outcome op_hash_def length_pos_ne)
qed

lemma safe_within [safe]: "stack_safe op_within"
  by (auto intro!: stack_safeI simp: outcome op_within_def Let_def length_pos_ne)

section \<open>The machine invariant\<close>

definition annex_ok :: "bytes option \<Rightarrow> bool" where
  "annex_ok a \<longleftrightarrow> (case a of None \<Rightarrow> True | Some x \<Rightarrow> x \<noteq> [] \<and> hd x = 0x50 \<and> length x < 2 ^ 64)"

definition exec_ok :: "sig_version \<Rightarrow> exec_data \<Rightarrow> bool" where
  "exec_ok version e \<longleftrightarrow> codesep_pos e < 2 ^ 32 \<and>
     (case ed_tapscript e of
        None \<Rightarrow> version \<noteq> Tapscript
      | Some t \<Rightarrow> version = Tapscript \<and> annex_ok (annex t) \<and> 0 \<le> validation_weight_left t \<and> validation_weight_left t < 2 ^ 63)"

definition wf_machine :: "machine \<Rightarrow> bool" where
  "wf_machine m \<longleftrightarrow> wf_stack (mc_stack m) \<and> wf_stack (mc_altstack m) \<and> mc_codesep_start m \<le> length (mc_script m) \<and>
     length (mc_script m) < 2 ^ 64 \<and> mc_op_count m \<le> 201 \<and> exec_ok (mc_sig_version m) (mc_exec m)"

text \<open>What one opcode leaves: the invariant, the script and version unchanged, at most one more
  open conditional.\<close>

definition step_ok :: "machine \<Rightarrow> machine \<Rightarrow> bool" where
  "step_ok m m' \<longleftrightarrow> wf_machine m' \<and> mc_script m' = mc_script m \<and> mc_sig_version m' = mc_sig_version m \<and>
     cs_depth (mc_conditions m') \<le> cs_depth (mc_conditions m) + 1"

definition step_pre :: "machine \<Rightarrow> bool" where
  "step_pre m \<longleftrightarrow> wf_machine m \<and> length (mc_stack m) < 2 ^ 63 \<and> cs_depth (mc_conditions m) \<le> 10000"

lemma step_ok_refl: "wf_machine m \<Longrightarrow> step_ok m m"
  by (simp add: step_ok_def)

lemma on_stack_ok: "stack_safe f \<Longrightarrow> step_pre m \<Longrightarrow> holds (on_stack f m) (step_ok m)"
  by (auto simp: on_stack_def outcome stack_safe_def step_pre_def step_ok_def wf_machine_def intro: holds_mono)

lemma branch_ok: "step_pre m \<Longrightarrow> holds (branch b executing m) (step_ok m)"
  by (auto simp: branch_def outcome Let_def cs_push_def step_pre_def step_ok_def wf_machine_def length_pos_ne)

lemma op_else_ok: "step_pre m \<Longrightarrow> holds (op_else m) (step_ok m)"
  by (auto simp: op_else_def cs_is_empty_def cs_toggle_top_def outcome step_pre_def step_ok_def wf_machine_def Let_def
      split: option.splits)

lemma op_endif_ok: "step_pre m \<Longrightarrow> holds (op_endif m) (step_ok m)"
  by (auto simp: op_endif_def cs_is_empty_def cs_pop_def outcome step_pre_def step_ok_def wf_machine_def Let_def)

lemma pairs_ok:
  assumes "OP_TOALTSTACK \<le> b" and "b \<le> OP_2SWAP" and "step_pre m"
  shows "holds (stack_op_pairs b m) (step_ok m)"
proof -
  have alt: "holds (op_toaltstack m) (step_ok m)" "holds (op_fromaltstack m) (step_ok m)"
    using assms(3)
    by (auto simp: op_toaltstack_def op_fromaltstack_def outcome step_pre_def step_ok_def wf_machine_def length_pos_ne)
  have "b = OP_TOALTSTACK \<or> b = OP_FROMALTSTACK \<or> b = OP_2DROP \<or> b = OP_2DUP \<or> b = OP_3DUP \<or> b = OP_2OVER \<or>
    b = OP_2ROT \<or> b = OP_2SWAP"
    using u8_range [OF assms(1,2)] by (auto simp: unat_u8_eq)
  then show ?thesis
    using alt assms(3) by (elim disjE) (simp_all add: stack_op_pairs_def on_stack_ok safe)
qed

section \<open>Signature opcodes\<close>

lemma script_code_ok: "wf_machine m \<Longrightarrow> holds (script_code m) (\<lambda>code. length code < 2 ^ 64)"
  by (auto simp: script_code_def outcome wf_machine_def)

lemma holds_push_encoding: "length x \<le> 520 \<Longrightarrow> holds (push_encoding x) (\<lambda>_. True)"
  using push_encoding_shape [of x, where 'e = 'a] by (auto simp: no_panic_iff [symmetric])

lemma holds_find_and_delete: "holds (find_and_delete code pattern) (\<lambda>(out, _). length out \<le> length code)"
  using find_and_delete_total [of code pattern, where 'e = 'a] by (auto simp: no_panic_iff [symmetric])

lemma holds_signature_encoding: "holds (check_signature_encoding sg flags) (\<lambda>_. True)"
  by (simp add: check_signature_encoding_def is_valid_signature_encoding_positions)

lemma delete_signatures_ok:
  "wf_stack s \<Longrightarrow> 1 \<le> isig \<Longrightarrow> isig + n \<le> length s + 1 \<Longrightarrow> length code < 2 ^ 64 \<Longrightarrow>
    holds (delete_signatures s isig n code) (\<lambda>code'. length code' < 2 ^ 64)"
proof (induction n arbitrary: isig code)
  case (Suc n)
  then show ?case
    by (auto simp: outcome intro!: holds_mono [OF holds_push_encoding] holds_mono [OF holds_find_and_delete])
qed simp

lemma pop_many_ok: "n \<le> length s \<Longrightarrow> pop_many n s = Ok (take (length s - n) s)"
proof (induction n arbitrary: s)
  case (Suc n)
  then have "s \<noteq> []" by auto
  with Suc show ?case by (simp add: stack_pop_def take_butlast)
qed simp

section \<open>What the interpreter relies on\<close>

text \<open>\<open>ready e\<close> says that the surroundings are set up for input \<open>e\<close>; the digest lengths are those of
  the hash functions, and the checker answers every question the interpreter asks.\<close>

locale script_env =
  fixes fns :: "'env \<Rightarrow> hash_fns" and checker :: "'env \<Rightarrow> sig_checker" and ready :: "'env \<Rightarrow> bool"
  assumes digests: "ready e \<Longrightarrow> length (ripemd160 (fns e) x) = 20" "ready e \<Longrightarrow> length (sha1 (fns e) x) = 20"
      "ready e \<Longrightarrow> length (sha256 (fns e) x) = 32" "ready e \<Longrightarrow> length (hash160 (fns e) x) = 20"
      "ready e \<Longrightarrow> length (sha256d (fns e) x) = 32"
    and ecdsa_answers: "ready e \<Longrightarrow> version \<noteq> Tapscript \<Longrightarrow> length code < 2 ^ 64 \<Longrightarrow>
      check_ecdsa (checker e) sg pk code version \<noteq> Panic"
    and schnorr_answers: "ready e \<Longrightarrow> length pk = 32 \<Longrightarrow> annex_ok a \<Longrightarrow>
      check_schnorr (checker e) sg pk spend a \<noteq> Panic"
    and locktime_answers: "ready e \<Longrightarrow> 0 \<le> n \<Longrightarrow> n < 2 ^ 39 \<Longrightarrow> check_locktime (checker e) n \<noteq> Panic"
    and sequence_answers: "ready e \<Longrightarrow> 0 \<le> n \<Longrightarrow> n < 2 ^ 39 \<Longrightarrow> check_sequence (checker e) n \<noteq> Panic"
begin

lemma holds_ecdsa: "ready e \<Longrightarrow> version \<noteq> Tapscript \<Longrightarrow> length code < 2 ^ 64 \<Longrightarrow>
    holds (check_ecdsa (checker e) sg pk code version) (\<lambda>_. True)"
  using ecdsa_answers by (simp add: no_panic_iff)

lemma check_locktime_ok:
  assumes "ready e" and "step_pre m"
  shows "holds (op_check_locktime (checker e) m) (step_ok m)" "holds (op_check_sequence (checker e) m) (step_ok m)"
proof -
  have n: "\<And>x. length x \<le> 5 \<Longrightarrow> num_val x < 2 ^ 39" using num_val_5 by fastforce
  have l: "\<And>x. length x \<le> 5 \<Longrightarrow> \<not> num_val x < 0 \<Longrightarrow> holds (check_locktime (checker e) (num_val x)) (\<lambda>_. True)"
    "\<And>x. length x \<le> 5 \<Longrightarrow> \<not> num_val x < 0 \<Longrightarrow> holds (check_sequence (checker e) (num_val x)) (\<lambda>_. True)"
    using locktime_answers [OF assms(1)] sequence_answers [OF assms(1)] n by (simp_all add: no_panic_iff)
  have wf: "wf_machine m" using assms(2) by (simp add: step_pre_def)
  show "holds (op_check_locktime (checker e) m) (step_ok m)" "holds (op_check_sequence (checker e) m) (step_ok m)"
    using step_ok_refl [OF wf]
    by (auto simp: op_check_locktime_def op_check_sequence_def outcome intro!: holds_mono [OF l(1)] holds_mono [OF l(2)])
qed

lemma pre_tapscript_ok:
  assumes "ready e" and "wf_machine m" and "mc_sig_version m \<noteq> Tapscript" and "length sg \<le> 520"
  shows "holds (eval_checksig_pre_tapscript (checker e) m sg pk) (\<lambda>_. True)"
  unfolding eval_checksig_pre_tapscript_def
  using assms
  by (auto simp: outcome intro!: holds_mono [OF script_code_ok] holds_mono [OF holds_push_encoding]
      holds_mono [OF holds_find_and_delete] holds_mono [OF holds_signature_encoding] holds_ecdsa)

lemma tapscript_ok:
  assumes "ready e" and "wf_machine m" and "mc_sig_version m = Tapscript"
  shows "holds (eval_checksig_tapscript (checker e) m sg pk) (\<lambda>(_, m'). wf_machine m' \<and> (\<exists>x. m' = m\<lparr>mc_exec := x\<rparr>))"
proof -
  obtain t where t: "ed_tapscript (mc_exec m) = Some t" "annex_ok (annex t)" "0 \<le> validation_weight_left t"
      "validation_weight_left t < 2 ^ 63"
    using assms(2,3) by (auto simp: wf_machine_def exec_ok_def split: option.splits)
  have "holds (check_schnorr (checker e) sg pk spend (annex t)) (\<lambda>_. True)" if "length pk = 32" for spend
    using schnorr_answers [OF assms(1) that t(2)] by (simp add: no_panic_iff)
  note sch = holds_mono [OF this]
  show ?thesis
    using t assms(2)
    by (auto simp: eval_checksig_tapscript_def outcome Let_def in_i64_def wf_machine_def exec_ok_def intro!: sch)
qed

lemma eval_checksig_ok:
  assumes "ready e" and "wf_machine m" and "length sg \<le> 520"
  shows "holds (eval_checksig (checker e) m sg pk) (\<lambda>(_, m'). wf_machine m' \<and> (\<exists>x. m' = m\<lparr>mc_exec := x\<rparr>))"
proof (cases "mc_sig_version m = Tapscript")
  case True
  then show ?thesis using tapscript_ok [OF assms(1,2)] by (simp add: eval_checksig_def)
next
  case False
  have "\<exists>x. m = m\<lparr>mc_exec := x\<rparr>" by (rule exI [of _ "mc_exec m"]) simp
  with False show ?thesis
    using assms(2)
    by (cases "mc_sig_version m")
      (auto simp: eval_checksig_def outcome intro!: holds_mono [OF pre_tapscript_ok [OF assms(1,2) False assms(3)]])
qed

lemma checksig_ok:
  assumes "ready e" and "step_pre m"
  shows "holds (op_checksig (checker e) b m) (step_ok m)"
proof -
  let ?s = "butlast (butlast (mc_stack m))" and ?sg = "last (butlast (mc_stack m))"
  have "holds (eval_checksig (checker e) (m\<lparr>mc_stack := ?s\<rparr>) ?sg pk)
      (\<lambda>(_, m'). wf_machine m' \<and> (\<exists>x. m' = m\<lparr>mc_stack := ?s, mc_exec := x\<rparr>))" if "2 \<le> length (mc_stack m)" for pk
    using eval_checksig_ok [OF assms(1), of "m\<lparr>mc_stack := ?s\<rparr>" ?sg pk] assms(2) length_pos_ne(2) [OF that]
    by (simp add: step_pre_def wf_machine_def)
  note h = holds_mono [OF this]
  show ?thesis
    unfolding op_checksig_def
    by (auto simp: outcome length_pos_ne(2) intro!: h) (auto simp: step_ok_def wf_machine_def)
qed

lemma checksigadd_ok:
  assumes "ready e" and "step_pre m"
  shows "holds (op_checksigadd (checker e) m) (step_ok m)"
proof -
  let ?s = "butlast (butlast (butlast (mc_stack m)))" and ?sg = "last (butlast (butlast (mc_stack m)))"
  have "holds (eval_checksig (checker e) (m\<lparr>mc_stack := ?s\<rparr>) ?sg pk)
      (\<lambda>(_, m'). wf_machine m' \<and> (\<exists>x. m' = m\<lparr>mc_stack := ?s, mc_exec := x\<rparr>))" if "3 \<le> length (mc_stack m)" for pk
    using eval_checksig_ok [OF assms(1), of "m\<lparr>mc_stack := ?s\<rparr>" ?sg pk] assms(2) length_pos_ne(3) [OF that]
    by (simp add: step_pre_def wf_machine_def)
  note h = holds_mono [OF this]
  have n: "\<bar>num_val x + num_from_bool b\<bar> \<le> 2 ^ 63 \<and> in_i64 (num_val x + num_from_bool b)" if "length x \<le> 4" for x b
    using num_val_4 [OF that] by (auto simp: num_from_bool_def in_i64_def)
  show ?thesis
    unfolding op_checksigadd_def
    using n by (auto simp: outcome length_pos_ne(3) num_add_def intro!: h) (auto simp: step_ok_def wf_machine_def)
qed

lemma multisig_verify_ok:
  assumes "ready e" and "mc_sig_version m \<noteq> Tapscript" and "length code < 2 ^ 64"
  shows "iterations + keys \<le> 20 \<Longrightarrow> sigs \<le> keys \<Longrightarrow> 1 \<le> isig \<Longrightarrow> isig + sigs \<le> length (mc_stack m) + 1 \<Longrightarrow>
    1 \<le> ikey \<Longrightarrow> ikey + keys \<le> length (mc_stack m) + 1 \<Longrightarrow>
    holds (checkmultisig_verify (checker e) m code iterations ikey isig keys sigs) (\<lambda>_. True)"
proof (induction keys arbitrary: iterations ikey isig sigs)
  case (Suc keys)
  note h = holds_mono [OF holds_signature_encoding] holds_mono [OF holds_ecdsa [OF assms]]
  show ?case
  proof (cases sigs)
    case s: (Suc sigs')
    show ?thesis
      using Suc.prems unfolding s
      by (subst checkmultisig_verify.simps(2)) (auto simp: outcome Let_def simp del: checkmultisig_verify.simps intro!: h Suc.IH)
  qed simp
qed simp

lemma multisig_script_code_ok:
  assumes "wf_machine m" and "1 \<le> isig" and "isig + n \<le> length (mc_stack m) + 1"
  shows "holds (multisig_script_code m isig n) (\<lambda>code. length code < 2 ^ 64)"
  unfolding multisig_script_code_def
  using assms by (auto simp: outcome wf_machine_def intro!: holds_mono [OF script_code_ok] delete_signatures_ok [simplified])

end

section \<open>Every opcode, and the loop\<close>

context script_env
begin

lemma multisig_finish_ok:
  assumes "ready e" and "wf_machine m" and "mc_sig_version m \<noteq> Tapscript"
    and "keys \<le> 20" "sigs \<le> keys" "1 \<le> isig" "1 \<le> ikey" "ikey + keys \<le> isig"
  shows "holds (multisig_finish (checker e) b m ikey isig keys sigs) (step_ok m)"
proof -
  have pops: "holds (pop_many n s) P \<longleftrightarrow> P (take (length s - n) s)" if "n \<le> length s" for n s P
    using that by (simp add: pop_many_ok)
  note h = holds_mono [OF multisig_script_code_ok [OF assms(2)]] holds_mono [OF multisig_verify_ok [OF assms(1,3)]]
  show ?thesis
    using assms(2-)
    by (auto simp: multisig_finish_def Let_def outcome pops step_ok_def wf_machine_def intro!: h)
qed

lemma checkmultisig_ok:
  assumes "ready e" and "step_pre m"
  shows "holds (op_checkmultisig (checker e) b m) (step_ok m)"
proof (cases "mc_sig_version m = Tapscript")
  case False
  have count: "holds (count_from n) P \<longleftrightarrow> 0 \<le> n \<and> P (nat n)" for n :: int and P :: "nat \<Rightarrow> bool"
    by (simp add: count_from_def)
  have fin: "holds (multisig_finish (checker e) b (m\<lparr>mc_op_count := mc_op_count m + nat k\<rparr>) (Suc (Suc 0)) (Suc (Suc (Suc (nat k)))) (nat k) (nat n)) (step_ok m)"
    if "0 \<le> k" "k \<le> 20" "0 \<le> n" "n \<le> k" "mc_op_count m + nat k \<le> 201" for k n :: int
  proof -
    let ?m = "m\<lparr>mc_op_count := mc_op_count m + nat k\<rparr>"
    have "wf_machine ?m" using assms(2) that(5) by (simp add: step_pre_def wf_machine_def)
    from multisig_finish_ok [OF assms(1) this, of "nat k" "nat n" "Suc (Suc (Suc (nat k)))" "Suc (Suc 0)" b] False that
    have "holds (multisig_finish (checker e) b ?m (Suc (Suc 0)) (Suc (Suc (Suc (nat k)))) (nat k) (nat n)) (step_ok ?m)" by simp
    then show ?thesis by (rule holds_mono) (simp add: step_ok_def)
  qed
  show ?thesis
    using False by (auto simp: op_checkmultisig_def Let_def outcome count intro!: fin)
qed (simp add: op_checkmultisig_def)

lemma execute_ok:
  assumes "ready e" and "step_pre m" and "op_end op \<le> length (mc_script m)" and "index < 2 ^ 32"
  shows "holds (execute (fns e) (checker e) op executing index m) (step_ok m)"
proof -
  have wf: "wf_machine m" using assms(2) by (simp add: step_pre_def)
  have sep: "step_ok m (m\<lparr>mc_codesep_start := op_end op, mc_exec := (mc_exec m)\<lparr>codesep_pos := index\<rparr>\<rparr>)"
    using wf assms(3,4) by (auto simp: step_ok_def wf_machine_def exec_ok_def split: option.splits)
  show ?thesis
    unfolding execute_def Let_def holds_if
    using assms(1,2) wf sep digests [OF assms(1)]
    by (intro conjI impI)
      (simp_all add: step_ok_refl on_stack_ok safe safe_small_integer safe_singles safe_numeric_unary safe_numeric_binary
        safe_hash pairs_ok branch_ok op_else_ok op_endif_ok check_locktime_ok checksig_ok checksigadd_ok checkmultisig_ok)
qed

lemma eval_step_ok:
  assumes "ready e" and "wf_machine m" and "length (mc_stack m) + length (mc_altstack m) < 2 ^ 63"
    and "cs_depth (mc_conditions m) \<le> 10000" and "op_end op \<le> length (mc_script m)"
    and "0 < rd_ops_read r" "rd_ops_read r < 2 ^ 32"
  shows "holds (eval_step (fns e) (checker e) counts_ops op r m)
    (\<lambda>m'. step_ok m m' \<and> length (mc_stack m') + length (mc_altstack m') \<le> 1000)"
proof -
  have body: "holds (if cs_all_true (mc_conditions m') \<and> is_push (op_opcode op) then on_stack (stack_push (op_push op)) m'
      else if cs_all_true (mc_conditions m') \<or> is_conditional (op_opcode op) then
        and_then (opcode_index r) (\<lambda>i. execute (fns e) (checker e) op (cs_all_true (mc_conditions m')) i m')
      else Ok m') (step_ok m)"
    if m': "m' = m \<or> m' = m\<lparr>mc_op_count := mc_op_count m + 1\<rparr>" "mc_op_count m' \<le> 201" and push: "length (op_push op) \<le> 520" for m'
  proof -
    have pre: "step_pre m'" "op_end op \<le> length (mc_script m')" and keep: "\<And>x. step_ok m' x \<Longrightarrow> step_ok m x"
      using assms m' by (auto simp: step_pre_def wf_machine_def step_ok_def)
    have "stack_safe (stack_push (op_push op))" using push by (auto intro!: stack_safeI simp: outcome)
    then have a: "holds (on_stack (stack_push (op_push op)) m') (step_ok m)"
      using on_stack_ok [OF _ pre(1)] keep by (blast intro: holds_mono)
    have idx: "rd_ops_read r - 1 < 2 ^ 32" using assms(7) by linarith
    have b: "holds (execute (fns e) (checker e) op x (rd_ops_read r - 1) m') (step_ok m)" for x
      using execute_ok [OF assms(1) pre idx] keep by (blast intro: holds_mono)
    have c: "step_ok m m'" using keep step_ok_refl pre(1) by (simp add: step_pre_def)
    show ?thesis using a b c assms(6) by (simp add: outcome opcode_index_def)
  qed
  define tail where "tail m' = and_then (if cs_all_true (mc_conditions m') \<and> is_push (op_opcode op) then on_stack (stack_push (op_push op)) m'
      else if cs_all_true (mc_conditions m') \<or> is_conditional (op_opcode op) then
        and_then (opcode_index r) (\<lambda>i. execute (fns e) (checker e) op (cs_all_true (mc_conditions m')) i m')
      else Ok m') (\<lambda>m. if 1000 < length (mc_stack m) + length (mc_altstack m) then Err StackSize else Ok m)" for m'
  have full: "holds (tail m') (\<lambda>m'. step_ok m m' \<and> length (mc_stack m') + length (mc_altstack m') \<le> 1000)"
    if "m' = m \<or> m' = m\<lparr>mc_op_count := mc_op_count m + 1\<rparr>" "mc_op_count m' \<le> 201" "length (op_push op) \<le> 520" for m'
    unfolding tail_def holds_and_then by (rule holds_mono [OF body [OF that, unfolded holds_and_then]]) auto
  have eq: "eval_step (fns e) (checker e) counts_ops op r m =
    (if 520 < length (op_push op) then Err PushSize
     else and_then (if counts_ops \<and> counts_toward_op_limit (op_opcode op) then
         (if 201 < mc_op_count m + 1 then Err OpCount else Ok (m\<lparr>mc_op_count := mc_op_count m + 1\<rparr>)) else Ok m)
       (\<lambda>m. if is_disabled (op_opcode op) then Err DisabledOpcode else tail m))"
    unfolding eval_step_def tail_def Let_def by simp
  have "mc_op_count m \<le> 201" using assms(2) by (simp add: wf_machine_def)
  then show ?thesis
    unfolding eq using full [of m] full [of "m\<lparr>mc_op_count := mc_op_count m + 1\<rparr>"] by (auto simp: outcome)
qed

lemma eval_loop_ok:
  assumes "ready e"
  shows "wf_reader r \<Longrightarrow> wf_machine m \<Longrightarrow> length (mc_stack m) + length (mc_altstack m) < 2 ^ 63 \<Longrightarrow>
    rd_script r = mc_script m \<Longrightarrow> length (mc_script m) \<le> 10001 \<Longrightarrow> cs_depth (mc_conditions m) \<le> rd_position r \<Longrightarrow>
    holds (eval_loop (fns e) (checker e) counts_ops r m) (\<lambda>m'. wf_machine m' \<and>
      length (mc_stack m') + length (mc_altstack m') < 2 ^ 63 \<and> mc_sig_version m' = mc_sig_version m)"
proof (induction "length (rd_script r) - rd_position r" arbitrary: r m rule: less_induct)
  case less
  obtain x where x: "next_op r = (Ok x :: (script_error, _) res)"
    "case x of
       None \<Rightarrow> rd_position r = length (rd_script r)
     | Some (Inl e, r') \<Rightarrow> e = BadOpcode \<and> rd_position r < length (rd_script r)
     | Some (Inr op, r') \<Rightarrow> wf_reader r' \<and> rd_script r' = rd_script r \<and> rd_position r < rd_position r' \<and>
         op_end op = rd_position r' \<and> rd_ops_read r' = rd_ops_read r + 1 \<and>
         op_opcode op = rd_script r ! rd_position r \<and> length (op_push op) \<le> length (rd_script r)"
    using next_op_ok [OF less.prems(1)] by blast
  show ?case
  proof (cases "\<exists>op r'. x = Some (Inr op, r')")
    case True
    then obtain op r' where r': "x = Some (Inr op, r')" by blast
    with x have s: "wf_reader r'" "rd_script r' = rd_script r" "rd_position r < rd_position r'"
      "op_end op = rd_position r'" "rd_ops_read r' = rd_ops_read r + 1" by auto
    then have pos: "rd_position r' \<le> length (mc_script m)" "rd_ops_read r' < 2 ^ 32"
      using less.prems(4) by (auto simp: wf_reader_def)
    have dec: "length (rd_script r') - rd_position r' < length (rd_script r) - rd_position r"
      using s pos less.prems(4) by auto
    have "holds (eval_step (fns e) (checker e) counts_ops op r' m)
      (\<lambda>m'. step_ok m m' \<and> length (mc_stack m') + length (mc_altstack m') \<le> 1000)"
      by (rule eval_step_ok [OF assms]) (use less.prems s pos in auto)
    then show ?thesis
      using x(1) less.prems s pos
      by (subst eval_loop.simps)
        (auto simp: r' outcome step_ok_def elim!: holds_mono intro!: holds_mono [OF less.hyps [OF dec]])
  next
    case False
    then show ?thesis
      using x less.prems by (subst eval_loop.simps) (auto split: option.splits sum.splits)
  qed
qed

lemma eval_script_ok:
  assumes "ready e" and "wf_stack s" and "length s < 2 ^ 63" and "exec_ok version exec"
    and "version = Tapscript \<Longrightarrow> length script \<le> 10001"
  shows "holds (eval_script (fns e) (checker e) script s flags version exec)
    (\<lambda>(s', exec'). wf_stack s' \<and> length s' < 2 ^ 63 \<and> exec_ok version exec')"
proof -
  have ex: "(ed_tapscript exec \<noteq> None) = (version = Tapscript)"
    using assms(4) by (auto simp: exec_ok_def split: option.splits)
  let ?m = "machine_new script s flags version exec"
  have "wf_machine ?m" if "length script \<le> 10001"
    using assms(2,4) that by (auto simp: wf_machine_def machine_new_def exec_ok_def split: option.splits)
  then have "holds (eval_loop (fns e) (checker e) counts_ops (reader_new script) ?m) (\<lambda>m'. wf_machine m' \<and>
      length (mc_stack m') + length (mc_altstack m') < 2 ^ 63 \<and> mc_sig_version m' = version)" if "length script \<le> 10001" for counts_ops
    using eval_loop_ok [OF assms(1), of "reader_new script" ?m counts_ops] assms(3) that
    by (simp add: machine_new_def reader_new_def wf_reader_def cs_new_def)
  note h = holds_mono [OF this]
  have fin: "holds (and_then (eval_loop (fns e) (checker e) counts_ops (reader_new script) ?m)
      (\<lambda>m. ensure (mc_op_count m \<le> 221)
         (if \<not> cs_is_empty (mc_conditions m) then Err UnbalancedConditional else Ok (mc_stack m, mc_exec m))))
      (\<lambda>(s', exec'). wf_stack s' \<and> length s' < 2 ^ 63 \<and> exec_ok version exec')" if "length script \<le> 10001" for counts_ops
    unfolding holds_and_then by (rule h [OF that]) (auto simp: outcome wf_machine_def)
  show ?thesis
    unfolding eval_script_def Let_def ex using assms(5) fin
    by (cases "version = Tapscript") simp_all
qed

end

end
