(* ===== verification/Interpreter_Results.thy ===== *)
theory Interpreter_Results
  imports Interpreter_Safety "HOL-Library.Sublist"
begin

text \<open>
  What the interpreter computes: the condition stack refines a list of booleans, the multisig
  loop decides whether the signatures embed in order into the keys, the stack opcodes have
  Core's effects, and a tapscript leaf with more than 10001 open conditionals aborts.
\<close>

section \<open>The condition stack is a list of booleans\<close>

text \<open>Runs of a component and of its specification. A specification step is \<open>None\<close> where the
  component aborts.\<close>

fun run_steps :: "('op \<Rightarrow> 'c \<Rightarrow> ('e, 'c) res) \<Rightarrow> 'op list \<Rightarrow> 'c \<Rightarrow> ('e, 'c) res" where
  "run_steps step [] c = Ok c"
| "run_steps step (a # as) c = and_then (step a c) (run_steps step as)"

fun run_spec :: "('op \<Rightarrow> 'a \<Rightarrow> 'a option) \<Rightarrow> 'op list \<Rightarrow> 'a \<Rightarrow> 'a option" where
  "run_spec spec [] a = Some a"
| "run_spec spec (x # xs) a = (case spec x a of None \<Rightarrow> None | Some a \<Rightarrow> run_spec spec xs a)"

locale step_refinement =
  fixes represents :: "'c \<Rightarrow> 'a \<Rightarrow> bool" and step :: "'op \<Rightarrow> 'c \<Rightarrow> ('e, 'c) res" and spec :: "'op \<Rightarrow> 'a \<Rightarrow> 'a option"
  assumes refuses: "represents c a \<Longrightarrow> spec x a = None \<Longrightarrow> step x c = Panic"
    and simulates: "represents c a \<Longrightarrow> spec x a = Some a' \<Longrightarrow> \<exists>c'. step x c = Ok c' \<and> represents c' a'"
begin

lemma run_refuses: "represents c a \<Longrightarrow> run_spec spec xs a = None \<Longrightarrow> run_steps step xs c = Panic"
proof (induction xs arbitrary: c a)
  case (Cons x xs)
  then show ?case
    using refuses [of c a x] simulates [of c a x] by (fastforce split: option.splits)
qed simp

lemma run_simulates:
  "represents c a \<Longrightarrow> run_spec spec xs a = Some a' \<Longrightarrow> \<exists>c'. run_steps step xs c = Ok c' \<and> represents c' a'"
proof (induction xs arbitrary: c a)
  case (Cons x xs)
  then show ?case
    using simulates [of c a x] by (fastforce split: option.splits)
qed simp

end

datatype cond_op = OpenBranch bool | CloseBranch | FlipBranch

primrec cs_step :: "cond_op \<Rightarrow> condition_stack \<Rightarrow> ('e, condition_stack) res" where
  "cs_step (OpenBranch v) = cs_push v"
| "cs_step CloseBranch = cs_pop"
| "cs_step FlipBranch = cs_toggle_top"

text \<open>One boolean per open branch, outermost first, with the source's bound on their number.\<close>

fun bools_step :: "cond_op \<Rightarrow> bool list \<Rightarrow> bool list option" where
  "bools_step (OpenBranch v) bs = (if length bs < 10001 then Some (bs @ [v]) else None)"
| "bools_step CloseBranch bs = (if bs = [] then None else Some (butlast bs))"
| "bools_step FlipBranch bs = (if bs = [] then None else Some (butlast bs @ [\<not> last bs]))"

definition first_false :: "bool list \<Rightarrow> nat option" where
  "first_false bs = (if list_all id bs then None else Some (length (takeWhile id bs)))"

definition represents_bools :: "condition_stack \<Rightarrow> bool list \<Rightarrow> bool" where
  "represents_bools c bs \<longleftrightarrow> cs_depth c = length bs \<and> cs_first_false c = first_false bs"

lemma first_false_snoc:
  "first_false (bs @ [v]) = (if first_false bs \<noteq> None then first_false bs else if v then None else Some (length bs))"
proof (cases "list_all id bs")
  case True
  then have "takeWhile id bs = bs" by (simp add: list_all_iff takeWhile_eq_all_conv)
  with True show ?thesis by (auto simp: first_false_def takeWhile_append)
next
  case False
  then show ?thesis by (simp add: first_false_def list_all_iff takeWhile_append1) (metis id_apply takeWhile_append1)
qed

lemma first_false_less: "first_false bs = Some k \<Longrightarrow> k < length bs"
proof -
  assume "first_false bs = Some k"
  then have "\<not> list_all id bs" "k = length (takeWhile id bs)" by (auto simp: first_false_def split: if_splits)
  then show "k < length bs"
    by (metis length_takeWhile_le list_all_iff nat_less_le set_takeWhileD takeWhile_eq_take take_all_iff order_refl)
qed

interpretation nest: step_refinement represents_bools cs_step bools_step
proof
  fix c :: condition_stack and bs bs' :: "bool list" and x :: cond_op
  assume r: "represents_bools c bs"
  show "cs_step x c = Panic" if "bools_step x bs = None"
    using that r by (cases x) (auto simp: cs_push_def cs_pop_def cs_toggle_top_def represents_bools_def ensure_def Let_def split: if_splits)
  show "\<exists>c'. cs_step x c = Ok c' \<and> represents_bools c' bs'" if "bools_step x bs = Some bs'"
  proof (cases x)
    case (OpenBranch v)
    with that r show ?thesis
      by (auto simp: cs_push_def represents_bools_def first_false_snoc Let_def split: if_splits)
  next
    case CloseBranch
    with that obtain as v where "bs = as @ [v]" "bs' = as" by (cases bs rule: rev_cases) auto
    with CloseBranch r first_false_less [of as "length as"] show ?thesis
      by (auto simp: cs_pop_def represents_bools_def first_false_snoc Let_def split: if_splits)
  next
    case FlipBranch
    with that obtain as v where "bs = as @ [v]" "bs' = as @ [\<not> v]" by (cases bs rule: rev_cases) auto
    with FlipBranch r first_false_less [of as "length as"] show ?thesis
      by (auto simp: cs_toggle_top_def represents_bools_def first_false_snoc Let_def split: if_splits option.splits)
  qed
qed

section \<open>Multisig matching\<close>

text \<open>The operands at depths \<open>d\<close>, \<open>d + 1\<close>, ... of a stack.\<close>

definition operands :: "stack \<Rightarrow> nat \<Rightarrow> nat \<Rightarrow> bytes list" where
  "operands s d n = map (\<lambda>k. s ! (length s - (d + k))) [0..<n]"

lemma operands_Suc: "operands s d (Suc n) = s ! (length s - d) # operands s (d + 1) n"
  by (simp add: operands_def upt_conv_Cons map_Suc_upt [symmetric] comp_def del: upt_Suc)

lemma length_operands [simp]: "length (operands s d n) = n"
  by (simp add: operands_def)

lemma list_emb_greedy:
  "list_emb P (x # xs) (y # ys) \<longleftrightarrow> (if P x y then list_emb P xs ys else list_emb P (x # xs) ys)"
proof (cases "P x y")
  case True
  have "list_emb P xs ys" if "list_emb P (x # xs) (y # ys)"
    using that
  proof cases
    case list_emb_Cons
    then obtain us v vs where "ys = us @ v # vs" "list_emb P xs vs" by (metis list_emb_ConsD)
    then show ?thesis using list_emb_append2 [of P xs vs "us @ [v]"] by simp
  qed auto
  with True show ?thesis by auto
next
  case False
  then show ?thesis by (auto elim: list_emb.cases)
qed

lemma list_emb_short: "length ys < length xs \<Longrightarrow> \<not> list_emb P xs ys"
  using list_emb_length by fastforce

lemma multisig_greedy:
  assumes enc: "\<And>sg. sg \<in> set (operands (mc_stack m) isig sigs) \<Longrightarrow> check_signature_encoding sg (mc_flags m) = Ok ()"
    and ans: "\<And>sg pk. check_ecdsa checker sg pk code (mc_sig_version m) = Ok (valid sg pk)"
  shows "iterations + keys \<le> 20 \<Longrightarrow> sigs \<le> keys \<Longrightarrow> 1 \<le> isig \<Longrightarrow> isig + sigs \<le> length (mc_stack m) + 1 \<Longrightarrow>
    1 \<le> ikey \<Longrightarrow> ikey + keys \<le> length (mc_stack m) + 1 \<Longrightarrow>
    checkmultisig_verify checker m code iterations ikey isig keys sigs =
      Ok (list_emb valid (operands (mc_stack m) isig sigs) (operands (mc_stack m) ikey keys))"
  using enc
proof (induction keys arbitrary: iterations ikey isig sigs)
  case (Suc keys)
  have top: "stack_top d (mc_stack m) = (Ok (mc_stack m ! (length (mc_stack m) - d)) :: (script_error, _) res)"
    if "1 \<le> d" "d \<le> length (mc_stack m)" for d
    using that by (simp add: stack_top_def index_at_depth_def get_def)
  show ?case
  proof (cases sigs)
    case s: (Suc sigs')
    let ?sg = "mc_stack m ! (length (mc_stack m) - isig)" and ?pk = "mc_stack m ! (length (mc_stack m) - ikey)"
    have enc: "check_signature_encoding ?sg (mc_flags m) = Ok ()" using Suc.prems(7) by (simp add: s operands_Suc)
    have step: "checkmultisig_verify checker m code iterations ikey isig (Suc keys) sigs =
      (if valid ?sg ?pk then
         if keys < sigs' then Ok False else checkmultisig_verify checker m code (iterations + 1) (ikey + 1) (isig + 1) keys sigs'
       else if keys < sigs then Ok False else checkmultisig_verify checker m code (iterations + 1) (ikey + 1) isig keys sigs)"
      unfolding s by (subst checkmultisig_verify.simps(2)) (use Suc.prems s in \<open>simp add: top ans enc del: checkmultisig_verify.simps\<close>)
    have emb: "list_emb valid (operands (mc_stack m) isig sigs) (operands (mc_stack m) ikey (Suc keys)) =
      (if valid ?sg ?pk then list_emb valid (operands (mc_stack m) (isig + 1) sigs') (operands (mc_stack m) (ikey + 1) keys)
       else list_emb valid (operands (mc_stack m) isig sigs) (operands (mc_stack m) (ikey + 1) keys))"
      by (simp add: s operands_Suc list_emb_greedy)
    have "checkmultisig_verify checker m code (iterations + 1) (ikey + 1) (isig + 1) keys sigs' =
        Ok (list_emb valid (operands (mc_stack m) (isig + 1) sigs') (operands (mc_stack m) (ikey + 1) keys))" if "sigs' \<le> keys"
      by (rule Suc.IH) (use Suc.prems that in \<open>auto simp: s operands_Suc\<close>)
    moreover have "checkmultisig_verify checker m code (iterations + 1) (ikey + 1) isig keys sigs =
        Ok (list_emb valid (operands (mc_stack m) isig sigs) (operands (mc_stack m) (ikey + 1) keys))" if "sigs \<le> keys"
      by (rule Suc.IH) (use Suc.prems that in auto)
    ultimately show ?thesis
      unfolding step emb by (auto simp: not_less list_emb_short)
  qed (simp add: operands_def)
qed (simp add: operands_def)

section \<open>Deeply nested conditionals\<close>

lemma next_op_if:
  assumes "rd_script r = replicate n OP_IF" and "rd_position r < n" and "rd_ops_read r + 1 < 2 ^ 32"
  shows "next_op r = (Ok (Some (Inr \<lparr> op_opcode = OP_IF, op_push = [], op_end = rd_position r + 1 \<rparr>,
    r\<lparr>rd_position := rd_position r + 1, rd_ops_read := rd_ops_read r + 1\<rparr>)) :: ('e, _) res)"
  using assms by (simp add: next_op_def read_op_def get_def is_push_def Let_def ensure_def)

lemma eval_step_if:
  assumes "cs_first_false (mc_conditions m) = Some j" and "0 < rd_ops_read r" and "length (mc_stack m) + length (mc_altstack m) \<le> 1000"
  shows "eval_step h checker False \<lparr> op_opcode = OP_IF, op_push = [], op_end = i \<rparr> r m =
    (if cs_depth (mc_conditions m) < 10001
     then Ok (m\<lparr>mc_conditions := (mc_conditions m)\<lparr>cs_depth := cs_depth (mc_conditions m) + 1\<rparr>\<rparr>) else Panic)"
  using assms
  by (auto simp: eval_step_def execute_def branch_def cs_all_true_def cs_push_def is_push_def is_disabled_def is_conditional_def
      opcode_index_def Let_def ensure_def)

lemma nested_loop_aborts:
  "rd_script r = replicate n OP_IF \<Longrightarrow> 10002 \<le> n \<Longrightarrow> rd_position r = k \<Longrightarrow> rd_ops_read r = k \<Longrightarrow> k \<le> 10001 \<Longrightarrow>
   cs_depth (mc_conditions m) = k \<Longrightarrow> cs_first_false (mc_conditions m) = Some j \<Longrightarrow>
   length (mc_stack m) + length (mc_altstack m) \<le> 1000 \<Longrightarrow> eval_loop h checker False r m = Panic"
proof (induction "10001 - k" arbitrary: r m k)
  case 0
  then show ?case by (subst eval_loop.simps) (simp add: next_op_if eval_step_if)
next
  case (Suc d)
  let ?r = "r\<lparr>rd_position := k + 1, rd_ops_read := k + 1\<rparr>"
  let ?m = "m\<lparr>mc_conditions := (mc_conditions m)\<lparr>cs_depth := k + 1\<rparr>\<rparr>"
  have "eval_loop h checker False ?r ?m = Panic"
    by (rule Suc.hyps(1) [of "k + 1"]) (use Suc.hyps(2) Suc.prems in simp_all)
  then show ?case
    using Suc.prems Suc.hyps(2) by (subst eval_loop.simps) (simp add: next_op_if eval_step_if)
qed

section \<open>Stack effects\<close>

lemma view_snoc: "rev s = xs \<longleftrightarrow> s = rev xs"
  by auto

lemma rot_swap_effects:
  "op_rot (s @ [x1, x2, x3]) = Ok (s @ [x2, x3, x1])"
  "op_2swap (s @ [x1, x2, x3, x4]) = Ok (s @ [x3, x4, x1, x2])"
proof -
  show "op_rot (s @ [x1, x2, x3]) = Ok (s @ [x2, x3, x1])"
    using vec.rot_effect [of "s @ [x1, x2, x3]" x3 x2 x1 "rev s"]
    by (auto simp: op_rot_def stack_require_def view_snoc)
  show "op_2swap (s @ [x1, x2, x3, x4]) = Ok (s @ [x3, x4, x1, x2])"
    using vec.two_swap_effect [of "s @ [x1, x2, x3, x4]" x4 x3 x2 x1 "rev s"]
    by (auto simp: op_2swap_def stack_require_def view_snoc)
qed

lemma rot_tuck_effects:
  assumes "length x1 \<le> 520" and "length x2 \<le> 520"
  shows "op_2rot (s @ [x1, x2, x3, x4, x5, x6]) = Ok (s @ [x3, x4, x5, x6, x1, x2])"
    and "op_tuck (s @ [x1, x2]) = Ok (s @ [x2, x1, x2])"
proof -
  show "op_2rot (s @ [x1, x2, x3, x4, x5, x6]) = Ok (s @ [x3, x4, x5, x6, x1, x2])"
    using vec.two_rot_effect [of "s @ [x1, x2, x3, x4, x5, x6]" x6 x5 x4 x3 x2 x1 "rev s"] assms
    by (auto simp: op_2rot_def stack_require_def view_snoc)
  show "op_tuck (s @ [x1, x2]) = Ok (s @ [x2, x1, x2])"
    using vec.tuck_effect [of "s @ [x1, x2]" x2 x1 "rev s"] assms
    by (auto simp: op_tuck_def stack_require_def view_snoc)
qed

section \<open>Properties\<close>

text \<open>C9: the condition stack kept as a depth and the outermost false refines a list of booleans:
  after any sequence of opened, closed and flipped branches it answers whether the current
  opcode executes and whether a branch is open as the list does, and it aborts exactly where
  the list has nothing to close or flip, or 10001 branches are already open.\<close>

theorem condition_stack_refines:
  "case run_spec bools_step ops [] of
     None \<Rightarrow> run_steps cs_step ops cs_new = (Panic :: ('e, _) res)
   | Some bs \<Rightarrow> \<exists>c. run_steps cs_step ops cs_new = (Ok c :: ('e, _) res) \<and>
       cs_all_true c = list_all id bs \<and> cs_is_empty c = (bs = [])"
proof (cases "run_spec bools_step ops []")
  case None
  then show ?thesis
    using nest.run_refuses [of cs_new "[]" ops] by (simp add: represents_bools_def cs_new_def first_false_def)
next
  case (Some bs)
  then obtain c where "run_steps cs_step ops cs_new = (Ok c :: ('e, _) res)" "represents_bools c bs"
    using nest.run_simulates [of cs_new "[]" ops bs] by (auto simp: represents_bools_def cs_new_def first_false_def)
  with Some show ?thesis
    by (auto simp: represents_bools_def cs_all_true_def cs_is_empty_def first_false_def)
qed

text \<open>C8: the multisig matching loop succeeds exactly when the signatures can be matched, in order,
  to distinct keys taken in order: an order-preserving embedding of the signatures into the
  keys. The hypotheses say that each signature passes the encoding rule and that the checker
  answers by some relation.\<close>

theorem multisig_matches_in_order:
  assumes "\<And>sg pk. check_ecdsa checker sg pk code (mc_sig_version m) = Ok (valid sg pk)"
    and "list_all (\<lambda>sg. check_signature_encoding sg (mc_flags m) = Ok ()) (operands (mc_stack m) isig sigs)"
    and "keys \<le> 20" and "sigs \<le> keys" and "1 \<le> isig" and "isig + sigs \<le> length (mc_stack m) + 1"
    and "1 \<le> ikey" and "ikey + keys \<le> length (mc_stack m) + 1"
  shows "checkmultisig_verify checker m code 0 ikey isig keys sigs =
    Ok (list_emb valid (operands (mc_stack m) isig sigs) (operands (mc_stack m) ikey keys))"
  using multisig_greedy [of m isig sigs checker code valid 0 keys ikey] assms by (auto simp: list_all_iff)

theorem multisig_matches_in_order_witness:
  "let checker = \<lparr> check_ecdsa = (\<lambda>sg pk code v. Ok (sg = pk)), check_schnorr = (\<lambda>sg pk sp a. Ok ()),
         check_locktime = (\<lambda>n. Ok True), check_sequence = (\<lambda>n. Ok True) \<rparr>;
       m = machine_new [] [[1], [2], [1], [2], [3]] FLAG_NONE Base exec_legacy
   in checkmultisig_verify checker m [] 0 1 4 3 2 = Ok (list_emb (=) (operands (mc_stack m) 4 2) (operands (mc_stack m) 1 3))"
  unfolding Let_def
  by (rule multisig_matches_in_order)
    (simp_all add: machine_new_def operands_def check_signature_encoding_def flags_contains_def FLAG_NONE_def FLAG_DERSIG_def list_all_iff)

text \<open>C31: the stack opcodes move their operands as Core's comments say, top of the stack last.\<close>

theorem stack_opcode_effects:
  assumes "length x1 \<le> 520" and "length x2 \<le> 520"
  shows "op_rot (s @ [x1, x2, x3]) = Ok (s @ [x2, x3, x1]) \<and>
    op_2swap (s @ [x1, x2, x3, x4]) = Ok (s @ [x3, x4, x1, x2]) \<and>
    op_2rot (s @ [x1, x2, x3, x4, x5, x6]) = Ok (s @ [x3, x4, x5, x6, x1, x2]) \<and>
    op_tuck (s @ [x1, x2]) = Ok (s @ [x2, x1, x2])"
  using rot_swap_effects rot_tuck_effects [OF assms] by blast

theorem stack_opcode_effects_witness:
  "op_rot ([] @ [[1], [2], [3]]) = Ok ([] @ [[2], [3], [1]]) \<and>
    op_2swap ([] @ [[1], [2], [3], [4]]) = Ok ([] @ [[3], [4], [1], [2]]) \<and>
    op_2rot ([] @ [[1], [2], [3], [4], [5], [6]]) = Ok ([] @ [[3], [4], [5], [6], [1], [2]]) \<and>
    op_tuck ([] @ [[1], [2]]) = Ok ([] @ [[2], [1], [2]])"
  by (rule stack_opcode_effects) simp_all

text \<open>C10: a tapscript leaf has no size limit, so it can open more than 10001 conditionals; the
  interpreter then fails the assertion of the condition stack and aborts, where the rules ask
  for an error of the script.\<close>

theorem nested_conditionals_abort:
  assumes "10002 \<le> n"
  shows "eval_script h checker (replicate n OP_IF) [[]] flags Tapscript (exec_tapscript t) = Panic"
proof -
  let ?m = "machine_new (replicate n OP_IF) [[]] flags Tapscript (exec_tapscript t)"
  let ?r = "reader_new (replicate n OP_IF)"
  have step: "eval_step h checker False \<lparr> op_opcode = OP_IF, op_push = [], op_end = 1 \<rparr>
      (?r\<lparr>rd_position := 1, rd_ops_read := 1\<rparr>) ?m =
    Ok (?m\<lparr>mc_stack := [], mc_conditions := \<lparr> cs_depth = 1, cs_first_false = Some 0 \<rparr>\<rparr>)"
    by (simp add: eval_step_def execute_def branch_def cs_all_true_def cs_push_def cs_new_def is_push_def is_disabled_def
        opcode_index_def machine_new_def stack_require_def stack_top_def index_at_depth_def get_def stack_pop_def cast_to_bool_def)
  have "eval_loop h checker False ?r ?m = Panic"
    using assms step
    by (subst eval_loop.simps)
      (simp add: next_op_if [where n = n] reader_new_def nested_loop_aborts [of _ n 1] machine_new_def)
  then show ?thesis by (simp add: eval_script_def exec_tapscript_def)
qed

theorem nested_conditionals_abort_witness:
  "\<forall>h checker flags t. eval_script h checker (replicate 10002 OP_IF) [[]] flags Tapscript (exec_tapscript t) = Panic"
  by (intro allI, rule nested_conditionals_abort) simp

end
