(* ===== verification/Sighash.thy ===== *)
theory Sighash
  imports Script_Interpreter Bitcoin_Types
begin

text \<open>
  \<^verbatim>\<open>crates/consensus/src/script/sighash.rs\<close>: the legacy, BIP143 and BIP341 digests and the hashes
  every input of a transaction shares. Consensus serialisation belongs to the \<open>bitcoin\<close> crate and
  is the record \<open>encoders\<close>; a hash engine is the byte string written into it so far. The lemmas
  show that no digest aborts for an input of its transaction, what the legacy script code
  serialises to, and which parts of a transaction each signature mode leaves open.
\<close>

section \<open>The model\<close>

abbreviation (input) SIGHASH_DEFAULT :: u8 where "SIGHASH_DEFAULT \<equiv> 0x00"
abbreviation (input) SIGHASH_ALL :: u8 where "SIGHASH_ALL \<equiv> 0x01"
abbreviation (input) SIGHASH_NONE :: u8 where "SIGHASH_NONE \<equiv> 0x02"
abbreviation (input) SIGHASH_SINGLE :: u8 where "SIGHASH_SINGLE \<equiv> 0x03"
abbreviation (input) SIGHASH_ANYONECANPAY :: u8 where "SIGHASH_ANYONECANPAY \<equiv> 0x80"
abbreviation (input) ANNEX_TAG :: u8 where "ANNEX_TAG \<equiv> 0x50"
abbreviation (input) LEGACY_OUTPUT_MASK :: u32 where "LEGACY_OUTPUT_MASK \<equiv> 0x1f"
abbreviation (input) TAPROOT_OUTPUT_MASK :: u8 where "TAPROOT_OUTPUT_MASK \<equiv> 0x03"
abbreviation (input) TAPROOT_EPOCH :: u8 where "TAPROOT_EPOCH \<equiv> 0x00"
abbreviation (input) KEY_VERSION_0 :: u8 where "KEY_VERSION_0 \<equiv> 0x00"

definition UINT256_ONE :: hash where
  "UINT256_ONE = 1 # replicate 31 0"

definition ZERO_HASH :: hash where
  "ZERO_HASH = replicate 32 0"

text \<open>Consensus serialisation of the parts a digest covers, the null output, and the tagged hash
  of the taproot digest.\<close>

record encoders =
  enc_version :: "int \<Rightarrow> bytes"
  enc_varint :: "nat \<Rightarrow> bytes"
  enc_outpoint :: "outpoint \<Rightarrow> bytes"
  enc_sequence :: "u32 \<Rightarrow> bytes"
  enc_lock_time :: "u32 \<Rightarrow> bytes"
  enc_txout :: "txout \<Rightarrow> bytes"
  enc_amount :: "u64 \<Rightarrow> bytes"
  enc_script :: "script \<Rightarrow> bytes"
  enc_u32 :: "u32 \<Rightarrow> bytes"
  null_txout :: txout
  tap_sighash :: "bytes \<Rightarrow> hash"
  compute_txid :: "transaction \<Rightarrow> hash"

record tx_precomputed =
  pre_txid :: hash
  input_count :: nat
  output_count :: nat
  hash_prevouts :: hash
  hash_sequence :: hash
  hash_outputs :: hash
  sha_prevouts :: hash
  sha_amounts :: hash
  sha_scriptpubkeys :: hash
  sha_sequences :: hash
  sha_outputs :: hash

definition encode :: "('a \<Rightarrow> bytes) \<Rightarrow> 'a \<Rightarrow> ('e, bytes) res" where
  "encode enc v = (let written = enc v in ensure (written \<noteq> []) (Ok written))"

definition count_to_u64 :: "nat \<Rightarrow> ('e, nat) res" where
  "count_to_u64 n = ensure (n < 2 ^ 64) (Ok n)"

fun encode_each :: "('a \<Rightarrow> bytes) \<Rightarrow> 'a list \<Rightarrow> ('e, bytes) res" where
  "encode_each enc [] = Ok []"
| "encode_each enc (x # xs) = and_then (encode enc x) (\<lambda>b. and_then (encode_each enc xs) (\<lambda>bs. Ok (b @ bs)))"

definition sha256_each :: "hash_fns \<Rightarrow> ('a \<Rightarrow> bytes) \<Rightarrow> 'a list \<Rightarrow> ('e, hash) res" where
  "sha256_each h enc items = and_then (encode_each enc items) (\<lambda>bs. Ok (sha256 h bs))"

definition sha256_once :: "hash_fns \<Rightarrow> hash \<Rightarrow> hash" where
  "sha256_once h bs = sha256 h bs"

definition sha256d_each :: "hash_fns \<Rightarrow> ('a \<Rightarrow> bytes) \<Rightarrow> 'a list \<Rightarrow> ('e, hash) res" where
  "sha256d_each h enc items = and_then (sha256_each h enc items) (\<lambda>d. Ok (sha256_once h d))"

definition precomputed_new :: "hash_fns \<Rightarrow> encoders \<Rightarrow> transaction \<Rightarrow> txout list \<Rightarrow> ('e, tx_precomputed) res" where
  "precomputed_new h enc tx prevouts =
     ensure (tx_input tx \<noteq> []) (ensure (length prevouts = length (tx_input tx))
       (and_then (sha256_each h (enc_outpoint enc) (map previous_output (tx_input tx))) (\<lambda>prevouts_hash.
        and_then (sha256_each h (enc_sequence enc) (map sequence_no (tx_input tx))) (\<lambda>sequences_hash.
        and_then (sha256_each h (enc_txout enc) (tx_output tx)) (\<lambda>outputs_hash.
        and_then (sha256_each h (enc_amount enc) (map value_sat prevouts)) (\<lambda>amounts_hash.
        and_then (sha256_each h (enc_script enc) (map script_pubkey prevouts)) (\<lambda>scripts_hash.
        Ok \<lparr> pre_txid = compute_txid enc tx, input_count = length (tx_input tx), output_count = length (tx_output tx),
             hash_prevouts = sha256_once h prevouts_hash, hash_sequence = sha256_once h sequences_hash,
             hash_outputs = sha256_once h outputs_hash, sha_prevouts = prevouts_hash, sha_amounts = amounts_hash,
             sha_scriptpubkeys = scripts_hash, sha_sequences = sequences_hash, sha_outputs = outputs_hash \<rparr>)))))))"

text \<open>The release build keeps the two count assertions; the txid comparison is a debug assertion.\<close>

definition assert_built_for :: "tx_precomputed \<Rightarrow> transaction \<Rightarrow> ('e, unit) res" where
  "assert_built_for pre tx =
     ensure (length (tx_input tx) = input_count pre) (ensure (length (tx_output tx) = output_count pre) (Ok ()))"

record hash_mode =
  anyone_can_pay :: bool
  mode_single :: bool
  mode_none :: bool

definition from_hash_type :: "u32 \<Rightarrow> ('e, hash_mode) res" where
  "from_hash_type hash_type =
     (let output_mode = hash_type AND LEGACY_OUTPUT_MASK;
          mode = \<lparr> anyone_can_pay = (hash_type AND ucast SIGHASH_ANYONECANPAY \<noteq> 0),
                   mode_single = (output_mode = ucast SIGHASH_SINGLE), mode_none = (output_mode = ucast SIGHASH_NONE) \<rparr>
      in ensure (\<not> (mode_single mode \<and> mode_none mode)) (Ok mode))"

subsection \<open>The legacy digest\<close>

text \<open>The first walk of \<open>legacy_encode_script_code\<close>: how many separators the parser meets.\<close>

function count_separators :: "script \<Rightarrow> nat \<Rightarrow> nat \<Rightarrow> ('e, nat) res" where
  "count_separators bs position count =
     (if position < length bs then
        and_then (read_op bs position) (\<lambda>r.
          case r of
            ReadOp opcode nx \<Rightarrow>
              if position < nx then count_separators bs nx (if opcode = OP_CODESEPARATOR then count + 1 else count) else Panic
          | Truncated nx \<Rightarrow> Ok count)
      else Ok count)"
  by pat_completeness auto
termination by (relation "measure (\<lambda>(bs, position, count). length bs - position)") auto

declare count_separators.simps [simp del]

text \<open>The second walk: what is written, where the last open segment starts, where the parser stopped.\<close>

function separator_segments :: "script \<Rightarrow> nat \<Rightarrow> nat \<Rightarrow> bytes \<Rightarrow> ('e, bytes \<times> nat \<times> nat) res" where
  "separator_segments bs position segment_start out =
     (if position < length bs then
        and_then (read_op bs position) (\<lambda>r.
          case r of
            ReadOp opcode nx \<Rightarrow>
              if position < nx then
                (if opcode = OP_CODESEPARATOR then
                   and_then (expect (get_range bs segment_start (nx - 1))) (\<lambda>segment.
                     separator_segments bs nx nx (out @ segment))
                 else separator_segments bs nx segment_start out)
              else Panic
          | Truncated nx \<Rightarrow> Ok (out, segment_start, nx))
      else Ok (out, segment_start, position))"
  by pat_completeness auto
termination by (relation "measure (\<lambda>(bs, position, segment_start, out). length bs - position)") auto

declare separator_segments.simps [simp del]

definition legacy_encode_script_code :: "encoders \<Rightarrow> script \<Rightarrow> ('e, bytes) res" where
  "legacy_encode_script_code enc bs =
     and_then (count_separators bs 0 0) (\<lambda>separator_count.
       ensure (separator_count \<le> length bs)
         (and_then (count_to_u64 (length bs - separator_count)) (\<lambda>n.
          and_then (encode (enc_varint enc) n) (\<lambda>prefix.
          and_then (separator_segments bs 0 0 []) (\<lambda>(out, segment_start, position).
            if segment_start \<noteq> length bs then
              ensure (segment_start \<le> position)
                (and_then (expect (get_range bs segment_start position)) (\<lambda>segment. Ok (prefix @ out @ segment)))
            else Ok (prefix @ out))))))"

definition legacy_encode_input ::
    "encoders \<Rightarrow> transaction \<Rightarrow> nat \<Rightarrow> nat \<Rightarrow> script \<Rightarrow> hash_mode \<Rightarrow> ('e, bytes) res" where
  "legacy_encode_input enc tx signed_index input_index code mode =
     and_then (expect (get (tx_input tx) input_index)) (\<lambda>input.
     and_then (encode (enc_outpoint enc) (previous_output input)) (\<lambda>a.
     and_then (if input_index = signed_index then legacy_encode_script_code enc code else encode (enc_varint enc) 0) (\<lambda>b.
     and_then (if input_index \<noteq> signed_index \<and> (mode_single mode \<or> mode_none mode) then encode (enc_u32 enc) 0
               else encode (enc_sequence enc) (sequence_no input)) (\<lambda>c.
       Ok (a @ b @ c)))))"

fun legacy_encode_inputs ::
    "encoders \<Rightarrow> transaction \<Rightarrow> nat \<Rightarrow> nat list \<Rightarrow> script \<Rightarrow> hash_mode \<Rightarrow> ('e, bytes) res" where
  "legacy_encode_inputs enc tx index [] code mode = Ok []"
| "legacy_encode_inputs enc tx index (i # is) code mode =
     and_then (legacy_encode_input enc tx index i code mode) (\<lambda>a.
     and_then (legacy_encode_inputs enc tx index is code mode) (\<lambda>b. Ok (a @ b)))"

definition legacy_output :: "encoders \<Rightarrow> hash_mode \<Rightarrow> nat \<Rightarrow> nat \<times> txout \<Rightarrow> bytes" where
  "legacy_output enc mode index = (\<lambda>(output_index, output).
     if mode_single mode \<and> output_index \<noteq> index then enc_txout enc (null_txout enc) else enc_txout enc output)"

definition legacy_sighash ::
    "hash_fns \<Rightarrow> encoders \<Rightarrow> transaction \<Rightarrow> nat \<Rightarrow> script \<Rightarrow> u32 \<Rightarrow> ('e, hash) res" where
  "legacy_sighash h enc tx index code hash_type =
     ensure (index < length (tx_input tx))
       (and_then (from_hash_type hash_type) (\<lambda>mode.
          if mode_single mode \<and> length (tx_output tx) \<le> index then Ok UINT256_ONE
          else and_then (encode (enc_version enc) (tx_version tx)) (\<lambda>version.
            and_then
              (if anyone_can_pay mode then
                 and_then (encode (enc_varint enc) 1) (\<lambda>n.
                 and_then (legacy_encode_input enc tx index index code mode) (\<lambda>i. Ok (n @ i)))
               else
                 and_then (count_to_u64 (length (tx_input tx))) (\<lambda>k.
                 and_then (encode (enc_varint enc) k) (\<lambda>n.
                 and_then (legacy_encode_inputs enc tx index [0..<length (tx_input tx)] code mode) (\<lambda>is. Ok (n @ is)))))
              (\<lambda>inputs.
                 let output_count = (if mode_none mode then 0 else if mode_single mode then index + 1 else length (tx_output tx))
                 in ensure (output_count \<le> length (tx_output tx))
                   (and_then (count_to_u64 output_count) (\<lambda>k.
                    and_then (encode (enc_varint enc) k) (\<lambda>n.
                    and_then (encode_each (legacy_output enc mode index)
                        (enumerate 0 (take output_count (tx_output tx)))) (\<lambda>outputs.
                    and_then (encode (enc_lock_time enc) (tx_lock_time tx)) (\<lambda>lock_time.
                    and_then (encode (enc_u32 enc) hash_type) (\<lambda>ht.
                      Ok (sha256d h (version @ inputs @ n @ outputs @ lock_time @ ht))))))))))))"

subsection \<open>The BIP143 digest\<close>

definition segwit_v0_sighash ::
    "hash_fns \<Rightarrow> encoders \<Rightarrow> transaction \<Rightarrow> nat \<Rightarrow> script \<Rightarrow> u64 \<Rightarrow> u32 \<Rightarrow> tx_precomputed \<Rightarrow> ('e, hash) res" where
  "segwit_v0_sighash h enc tx index code amount hash_type pre =
     ensure (index < length (tx_input tx))
       (and_then (assert_built_for pre tx) (\<lambda>_.
        and_then (from_hash_type hash_type) (\<lambda>mode.
        let prevouts_hash = (if anyone_can_pay mode then ZERO_HASH else hash_prevouts pre);
            sequences_hash = (if anyone_can_pay mode \<or> mode_single mode \<or> mode_none mode then ZERO_HASH else hash_sequence pre)
        in and_then
             (if mode_single mode then
                (case get (tx_output tx) index of
                   Some output \<Rightarrow> sha256d_each h (enc_txout enc) [output]
                 | None \<Rightarrow> Ok ZERO_HASH)
              else if mode_none mode then Ok ZERO_HASH
              else Ok (hash_outputs pre))
             (\<lambda>outputs_hash.
           and_then (expect (get (tx_input tx) index)) (\<lambda>input.
           and_then (encode (enc_version enc) (tx_version tx)) (\<lambda>version.
           and_then (encode (enc_outpoint enc) (previous_output input)) (\<lambda>outp.
           and_then (encode (enc_script enc) code) (\<lambda>sc.
           and_then (encode (enc_amount enc) amount) (\<lambda>am.
           and_then (encode (enc_sequence enc) (sequence_no input)) (\<lambda>sq.
           and_then (encode (enc_lock_time enc) (tx_lock_time tx)) (\<lambda>lock_time.
           and_then (encode (enc_u32 enc) hash_type) (\<lambda>ht.
             Ok (sha256d h (version @ prevouts_hash @ sequences_hash @ outp @ sc @ am @ sq @ outputs_hash @ lock_time @ ht))))))))))))))"

subsection \<open>The BIP341 digest\<close>

definition taproot_encode_input ::
    "hash_fns \<Rightarrow> encoders \<Rightarrow> transaction \<Rightarrow> nat \<Rightarrow> txout list \<Rightarrow> bool \<Rightarrow> taproot_spend \<Rightarrow> bytes option \<Rightarrow> ('e, bytes) res" where
  "taproot_encode_input h enc tx index prevouts acp spend ann =
     (let ext_flag = (case spend of KeyPath \<Rightarrow> (0 :: u8) | TapscriptSpend leaf pos \<Rightarrow> 1);
          spend_type = push_bit 1 ext_flag OR (if ann \<noteq> None then 1 else 0)
      in ensure (spend_type \<le> 3)
        (and_then
           (if acp then
              and_then (expect (get (tx_input tx) index)) (\<lambda>input.
              and_then (expect (get prevouts index)) (\<lambda>prevout.
              and_then (encode (enc_outpoint enc) (previous_output input)) (\<lambda>a.
              and_then (encode (enc_txout enc) prevout) (\<lambda>b.
              and_then (encode (enc_sequence enc) (sequence_no input)) (\<lambda>c. Ok (a @ b @ c))))))
            else ensure (index < 2 ^ 32) (encode (enc_u32 enc) (word_of_nat index)))
           (\<lambda>body.
         and_then
           (case ann of
              None \<Rightarrow> Ok []
            | Some a \<Rightarrow>
                and_then (count_to_u64 (length a)) (\<lambda>n.
                and_then (encode (enc_varint enc) n) (\<lambda>prefix. Ok (sha256 h (prefix @ a)))))
           (\<lambda>annex_hash. Ok ([spend_type] @ body @ annex_hash)))))"

definition taproot_sighash ::
    "hash_fns \<Rightarrow> encoders \<Rightarrow> transaction \<Rightarrow> nat \<Rightarrow> txout list \<Rightarrow> u8 \<Rightarrow> taproot_spend \<Rightarrow> bytes option \<Rightarrow> tx_precomputed \<Rightarrow>
     (script_error, hash) res" where
  "taproot_sighash h enc tx index prevouts hash_type spend ann pre =
     ensure (index < length (tx_input tx)) (ensure (length prevouts = length (tx_input tx))
       (and_then (assert_built_for pre tx) (\<lambda>_.
        ensure (case ann of None \<Rightarrow> True | Some a \<Rightarrow> a \<noteq> [] \<and> hd a = ANNEX_TAG)
          (let defined = (hash_type \<le> SIGHASH_SINGLE \<or> 0x81 \<le> hash_type \<and> hash_type \<le> 0x83)
           in if \<not> defined then Err SchnorrSigHashtype
           else let output_type = (if hash_type = SIGHASH_DEFAULT then SIGHASH_ALL else hash_type AND TAPROOT_OUTPUT_MASK);
                    acp = (hash_type AND SIGHASH_ANYONECANPAY \<noteq> 0)
           in if output_type = SIGHASH_SINGLE \<and> length (tx_output tx) \<le> index then Err SchnorrSigHashtype
           else and_then (encode (enc_version enc) (tx_version tx)) (\<lambda>version.
             and_then (encode (enc_lock_time enc) (tx_lock_time tx)) (\<lambda>lock_time.
             let inputs = (if acp then [] else sha_prevouts pre @ sha_amounts pre @ sha_scriptpubkeys pre @ sha_sequences pre);
                 outputs = (if output_type = SIGHASH_ALL then sha_outputs pre else [])
             in and_then (taproot_encode_input h enc tx index prevouts acp spend ann) (\<lambda>input.
                and_then
                  (if output_type = SIGHASH_SINGLE then
                     and_then (expect (get (tx_output tx) index)) (\<lambda>output. sha256_each h (enc_txout enc) [output])
                   else Ok [])
                  (\<lambda>single.
                and_then
                  (case spend of
                     KeyPath \<Rightarrow> Ok []
                   | TapscriptSpend leaf pos \<Rightarrow>
                       and_then (encode (enc_u32 enc) (word_of_nat pos)) (\<lambda>p. Ok (leaf @ [KEY_VERSION_0] @ p)))
                  (\<lambda>ext.
                Ok (tap_sighash enc ([TAPROOT_EPOCH, hash_type] @ version @ lock_time @ inputs @ outputs @ input @ single @ ext)))))))))))"

section \<open>Serialisation\<close>

text \<open>What the \<open>bitcoin\<close> crate documents of its encoders: every value has at least one byte.\<close>

definition encoders_ok :: "encoders \<Rightarrow> bool" where
  "encoders_ok enc \<longleftrightarrow> (\<forall>x. enc_version enc x \<noteq> []) \<and> (\<forall>x. enc_varint enc x \<noteq> []) \<and> (\<forall>x. enc_outpoint enc x \<noteq> []) \<and>
     (\<forall>x. enc_sequence enc x \<noteq> []) \<and> (\<forall>x. enc_lock_time enc x \<noteq> []) \<and> (\<forall>x. enc_txout enc x \<noteq> []) \<and>
     (\<forall>x. enc_amount enc x \<noteq> []) \<and> (\<forall>x. enc_script enc x \<noteq> []) \<and> (\<forall>x. enc_u32 enc x \<noteq> [])"

lemma holds_encode [outcome]: "holds (encode e x) P \<longleftrightarrow> e x \<noteq> [] \<and> P (e x)"
  by (simp add: encode_def Let_def outcome)

lemma encode_ok [simp]: "e x \<noteq> [] \<Longrightarrow> encode e x = Ok (e x)"
  by (simp add: encode_def)

lemma holds_count [outcome]: "holds (count_to_u64 n) P \<longleftrightarrow> n < 2 ^ 64 \<and> P n"
  by (simp add: count_to_u64_def outcome)

lemma encode_each_ok: "(\<And>x. x \<in> set xs \<Longrightarrow> e x \<noteq> []) \<Longrightarrow> encode_each e xs = Ok (concat (map e xs))"
  by (induction xs) simp_all

lemma encode_each_cong: "map e xs = map f ys \<Longrightarrow> encode_each e xs = encode_each f ys"
proof (induction xs arbitrary: ys)
  case (Cons x xs)
  then obtain y ys' where "ys = y # ys'" "e x = f y" "map e xs = map f ys'" by (cases ys) auto
  with Cons.IH [of ys'] show ?case by (simp add: encode_def)
qed simp

section \<open>The legacy script code\<close>

text \<open>What is hashed of a script code, read on suffixes: every opcode but the separators, up to a
  push that runs past the end, of which only the opcode and size bytes are kept.\<close>

function strip_separators :: "script \<Rightarrow> bytes \<times> nat" where
  "strip_separators xs =
     (if xs = [] then ([], 0)
      else case read_op xs 0 :: (unit, op_read) res of
        Ok (ReadOp opcode k) \<Rightarrow>
          (case strip_separators (drop k xs) of (ys, n) \<Rightarrow>
             if opcode = OP_CODESEPARATOR then (ys, n + 1) else (take k xs @ ys, n))
      | Ok (Truncated k) \<Rightarrow> (take k xs, 0)
      | _ \<Rightarrow> ([], 0))"
  by pat_completeness auto
termination
proof (relation "measure length")
  fix xs :: script and q k opcode
  assume "xs \<noteq> []" "(read_op xs 0 :: (unit, op_read) res) = Ok q" "q = ReadOp opcode k"
  then have "0 < k" using read_op_ok [of 0 xs, where 'e = unit] by auto
  with \<open>xs \<noteq> []\<close> show "(drop k xs, xs) \<in> measure length" by (cases xs) auto
qed simp

declare strip_separators.simps [simp del]

lemma read_op_suffix_truncated:
  assumes "read_op script position = (Ok (Truncated nx) :: ('e, _) res)"
  shows "read_op (drop position script) 0 = (Ok (Truncated (nx - position)) :: ('e, _) res)"
proof -
  have lt: "position < length script" using assms by (simp add: read_op_def)
  let ?op = "script ! position"
  let ?s = "size_field_len ?op"
  have small: "\<not> OP_PUSHDATA4 < ?op" using assms lt by (auto simp: read_op_def get_def Let_def)
  show ?thesis
  proof (cases "position + 1 + ?s \<le> length script")
    case True
    let ?f = "take ?s (drop (Suc position) script)"
    have "length ?f = ?s" using True by simp
    then obtain n where n: "data_len ?op ?f = (Ok n :: ('e, _) res)" using data_len_ok by blast
    then show ?thesis
      using assms lt small True
      by (auto simp: read_op_def get_def get_range_def Let_def ensure_def split: if_splits)
  next
    case False
    then show ?thesis
      using assms lt small by (auto simp: read_op_def get_def get_range_def Let_def ensure_def)
  qed
qed

text \<open>One step of a walk over a script, on the script and on its suffix at once.\<close>

lemma read_op_cases:
  assumes "position < length script"
  obtains (op) opcode nx where "read_op script position = (Ok (ReadOp opcode nx) :: ('e, _) res)" "position < nx" "nx \<le> length script"
      "read_op (drop position script) 0 = (Ok (ReadOp opcode (nx - position)) :: (unit, _) res)"
    | (truncated) nx where "read_op script position = (Ok (Truncated nx) :: ('e, _) res)" "position < nx" "nx \<le> length script"
      "read_op (drop position script) 0 = (Ok (Truncated (nx - position)) :: (unit, _) res)"
proof -
  obtain q where q: "read_op script position = (Ok q :: ('e, _) res)" "position < read_next q" "read_next q \<le> length script"
    using read_op_ok [OF assms] by blast
  note u = read_op_poly [OF q(1), where 'f = unit]
  show ?thesis
  proof (cases q)
    case (ReadOp opcode nx)
    then show ?thesis using q u op by (simp add: read_op_suffix [OF assms])
  next
    case (Truncated nx)
    then show ?thesis using q u truncated read_op_suffix_truncated by auto
  qed
qed

lemma read_op_single: "read_op script position = Ok (ReadOp opcode nx) \<Longrightarrow> OP_PUSHDATA4 < opcode \<Longrightarrow> nx = position + 1"
  by (auto simp: read_op_def Let_def ensure_def split: if_splits option.splits)

lemma count_separators_ok:
  assumes "position \<le> length bs"
  shows "count_separators bs position count = (Ok (count + snd (strip_separators (drop position bs))) :: ('e, _) res)"
  using assms
proof (induction "length bs - position" arbitrary: position count rule: less_induct)
  case less
  show ?case
  proof (cases "position < length bs")
    case True
    then show ?thesis
    proof (cases rule: read_op_cases [where 'e = 'e])
      case (op opcode nx)
      have "count_separators bs nx c = (Ok (c + snd (strip_separators (drop nx bs))) :: ('e, _) res)" for c
        using less op by simp
      with op True show ?thesis
        by (subst count_separators.simps, subst strip_separators.simps) (auto split: prod.splits)
    next
      case (truncated nx)
      with True show ?thesis by (subst count_separators.simps, subst strip_separators.simps) auto
    qed
  next
    case False
    with less.prems show ?thesis by (subst count_separators.simps, subst strip_separators.simps) auto
  qed
qed

lemma strip_separators_count: "snd (strip_separators xs) \<le> length xs"
proof (induction xs rule: strip_separators.induct)
  case (1 xs)
  show ?case
  proof (cases "xs = []")
    case False
    then have "0 < length xs" by simp
    then show ?thesis
    proof (cases rule: read_op_cases [where 'e = unit])
      case (op opcode nx)
      with 1 [OF False op(1) refl] False show ?thesis
        by (subst strip_separators.simps) (auto split: prod.splits)
    next
      case (truncated nx)
      with False show ?thesis by (subst strip_separators.simps) auto
    qed
  qed (simp add: strip_separators.simps)
qed

lemma separator_segments_ok:
  assumes "start \<le> position" and "position \<le> length bs"
  shows "\<exists>out' start' stop. separator_segments bs position start out = (Ok (out', start', stop) :: ('e, _) res) \<and>
    start' \<le> stop \<and> stop \<le> length bs \<and>
    out' @ take (stop - start') (drop start' bs) =
      out @ take (position - start) (drop start bs) @ fst (strip_separators (drop position bs))"
  using assms
proof (induction "length bs - position" arbitrary: position start out rule: less_induct)
  case less
  show ?case
  proof (cases "position < length bs")
    case True
    then show ?thesis
    proof (cases rule: read_op_cases [where 'e = 'e])
      case (op opcode nx)
      have split: "take (nx - start) (drop start bs) = take (position - start) (drop start bs) @ take (nx - position) (drop position bs)"
        using op less.prems take_add [of "position - start" "nx - position" "drop start bs"] by simp
      obtain ys n where ys: "strip_separators (drop nx bs) = (ys, n)" by fastforce
      have st: "fst (strip_separators (drop position bs)) =
        (if opcode = OP_CODESEPARATOR then ys else take (nx - position) (drop position bs) @ ys)"
        using op True ys by (subst strip_separators.simps) simp
      have dec: "length bs - nx < length bs - position" using op by simp
      show ?thesis
      proof (cases "opcode = OP_CODESEPARATOR")
        case sep: True
        with op have "nx = position + 1" using read_op_single [OF op(1)] by simp
        then have g: "get_range bs start (nx - 1) = Some (take (position - start) (drop start bs))"
          using less.prems True by (simp add: get_range_def)
        from less.hyps [OF dec, of nx "out @ take (position - start) (drop start bs)"] op ys obtain out' start' stop where
          "separator_segments bs nx nx (out @ take (position - start) (drop start bs)) = (Ok (out', start', stop) :: ('e, _) res)"
          "start' \<le> stop" "stop \<le> length bs"
          "out' @ take (stop - start') (drop start' bs) = (out @ take (position - start) (drop start bs)) @ ys" by auto
        then show ?thesis
          unfolding st using op sep True g by (subst separator_segments.simps) simp
      next
        case False
        from less.hyps [OF dec, of start out] op less.prems ys split obtain out' start' stop where
          "separator_segments bs nx start out = (Ok (out', start', stop) :: ('e, _) res)"
          "start' \<le> stop" "stop \<le> length bs"
          "out' @ take (stop - start') (drop start' bs) =
             out @ take (position - start) (drop start bs) @ take (nx - position) (drop position bs) @ ys" by auto
        then show ?thesis
          unfolding st using op False True by (subst separator_segments.simps) simp
      qed
    next
      case (truncated nx)
      have "take (nx - start) (drop start bs) = take (position - start) (drop start bs) @ take (nx - position) (drop position bs)"
        using truncated less.prems take_add [of "position - start" "nx - position" "drop start bs"] by simp
      with truncated True less.prems show ?thesis
        by (subst separator_segments.simps, subst strip_separators.simps) auto
    qed
  next
    case False
    with less.prems show ?thesis by (subst separator_segments.simps, subst strip_separators.simps) auto
  qed
qed

lemma legacy_encode_script_code_ok:
  assumes "encoders_ok enc" and "length code < 2 ^ 64"
  shows "legacy_encode_script_code enc code = (Ok (enc_varint enc (length code - snd (strip_separators code)) @
    fst (strip_separators code)) :: ('e, _) res)"
proof -
  obtain out start stop where "separator_segments code 0 0 [] = (Ok (out, start, stop) :: ('e, _) res)"
      "start \<le> stop" "stop \<le> length code" "out @ take (stop - start) (drop start code) = fst (strip_separators code)"
    using separator_segments_ok [of 0 0 code "[]", where 'e = 'e] by auto
  then show ?thesis
    using assms count_separators_ok [of 0 code 0, where 'e = 'e] strip_separators_count [of code]
    by (auto simp: legacy_encode_script_code_def count_to_u64_def encoders_ok_def get_range_def)
qed

section \<open>No digest aborts\<close>

definition tx_fits :: "transaction \<Rightarrow> bool" where
  "tx_fits tx \<longleftrightarrow> length (tx_input tx) < 2 ^ 32 \<and> length (tx_output tx) < 2 ^ 32"

lemma from_hash_type_ok: "\<exists>mode. from_hash_type hash_type = (Ok mode :: ('e, _) res)"
  by (simp add: from_hash_type_def Let_def ensure_def)

lemma holds_from_hash_type: "(\<And>mode. P mode) \<Longrightarrow> holds (from_hash_type hash_type) P"
  using from_hash_type_ok [of hash_type, where 'e = 'a] by auto

lemma holds_script_code:
  "encoders_ok enc \<Longrightarrow> length code < 2 ^ 64 \<Longrightarrow> (\<And>bs. P bs) \<Longrightarrow> holds (legacy_encode_script_code enc code) P"
  by (simp add: legacy_encode_script_code_ok)

lemma holds_encode_input:
  assumes "encoders_ok enc" and "length code < 2 ^ 64" and "i < length (tx_input tx)" and "\<And>bs. P bs"
  shows "holds (legacy_encode_input enc tx index i code mode) P"
  using assms by (auto simp: legacy_encode_input_def outcome encoders_ok_def intro!: holds_script_code)

lemma holds_encode_inputs:
  assumes "encoders_ok enc" and "length code < 2 ^ 64"
  shows "(\<And>i. i \<in> set is \<Longrightarrow> i < length (tx_input tx)) \<Longrightarrow> (\<And>bs. P bs) \<Longrightarrow> holds (legacy_encode_inputs enc tx index is code mode) P"
  by (induction "is" arbitrary: P) (auto simp: outcome intro!: holds_encode_input [OF assms])

lemma holds_encode_each:
  "(\<And>x. x \<in> set xs \<Longrightarrow> e x \<noteq> []) \<Longrightarrow> (\<And>bs. P bs) \<Longrightarrow> holds (encode_each e xs) P"
  by (simp add: encode_each_ok)

lemma legacy_output_ne: "encoders_ok enc \<Longrightarrow> legacy_output enc mode index x \<noteq> []"
  by (auto simp: legacy_output_def encoders_ok_def split: prod.splits)

lemma legacy_sighash_total:
  assumes "encoders_ok enc" and "length code < 2 ^ 64" and "index < length (tx_input tx)" and "tx_fits tx"
  shows "legacy_sighash h enc tx index code hash_type \<noteq> Panic"
  unfolding no_panic_iff legacy_sighash_def
  using assms legacy_output_ne [OF assms(1)]
  by (auto simp: outcome Let_def tx_fits_def encoders_ok_def not_le
      intro!: holds_from_hash_type holds_encode_input holds_encode_inputs holds_encode_each)

lemma segwit_v0_sighash_total:
  assumes "encoders_ok enc" and "index < length (tx_input tx)" and "length (tx_input tx) = input_count pre"
    and "length (tx_output tx) = output_count pre"
  shows "segwit_v0_sighash h enc tx index code amount hash_type pre \<noteq> Panic"
  unfolding no_panic_iff segwit_v0_sighash_def
  using assms
  by (auto simp: outcome Let_def encoders_ok_def assert_built_for_def sha256d_each_def sha256_each_def
      intro!: holds_from_hash_type split: option.splits)

lemma taproot_sighash_total:
  assumes "encoders_ok enc" and "index < length (tx_input tx)" and "length prevouts = length (tx_input tx)" and "tx_fits tx"
    and "length (tx_input tx) = input_count pre" and "length (tx_output tx) = output_count pre"
    and "case ann of None \<Rightarrow> True | Some a \<Rightarrow> a \<noteq> [] \<and> hd a = ANNEX_TAG \<and> length a < 2 ^ 64"
  shows "taproot_sighash h enc tx index prevouts hash_type spend ann pre \<noteq> Panic"
proof -
  have input: "holds (taproot_encode_input h enc tx index prevouts acp spend ann :: (script_error, _) res) P" if "\<And>bs. P bs" for acp P
    using assms that
    by (auto simp: taproot_encode_input_def outcome Let_def tx_fits_def encoders_ok_def split: option.splits taproot_spend.splits)
  have ext: "holds ((case spend of KeyPath \<Rightarrow> Ok [] | TapscriptSpend leaf pos \<Rightarrow>
      and_then (encode (enc_u32 enc) (word_of_nat pos)) (\<lambda>p. Ok (leaf @ [KEY_VERSION_0] @ p))) :: (script_error, _) res) P"
    if "\<And>bs. P bs" for P
    using assms(1) that by (auto simp: outcome encoders_ok_def split: taproot_spend.splits)
  have ann: "case ann of None \<Rightarrow> True | Some a \<Rightarrow> a \<noteq> [] \<and> hd a = ANNEX_TAG"
    using assms(7) by (auto split: option.splits)
  show ?thesis
    unfolding no_panic_iff taproot_sighash_def
    using assms(1-6) ann
    by (auto simp: outcome Let_def encoders_ok_def assert_built_for_def sha256_each_def not_le intro!: input ext)
qed

section \<open>What a legacy signature leaves open\<close>

lemma encode_inputs_cong:
  "(\<And>i. i \<in> set is \<Longrightarrow> legacy_encode_input enc tx index i code mode = (legacy_encode_input enc tx' index i code mode :: ('e, _) res)) \<Longrightarrow>
   legacy_encode_inputs enc tx index is code mode = (legacy_encode_inputs enc tx' index is code mode :: ('e, _) res)"
  by (induction "is") simp_all

lemma encode_input_cong:
  assumes "i < length (tx_input tx)" and "i < length (tx_input tx')"
    and "previous_output (tx_input tx ! i) = previous_output (tx_input tx' ! i)"
    and "i \<noteq> index \<and> (mode_single mode \<or> mode_none mode) \<or> sequence_no (tx_input tx ! i) = sequence_no (tx_input tx' ! i)"
  shows "legacy_encode_input enc tx index i code mode = legacy_encode_input enc tx' index i code mode"
  using assms by (auto simp: legacy_encode_input_def get_def)

lemma single_outputs_cong:
  assumes "mode_single mode" and "index < length xs" and "index < length ys" and "xs ! index = ys ! index"
  shows "map (legacy_output enc mode index) (enumerate 0 (take (index + 1) xs)) =
    map (legacy_output enc mode index) (enumerate 0 (take (index + 1) ys))"
  by (rule nth_equalityI) (use assms in \<open>auto simp: nth_enumerate_eq legacy_output_def\<close>)

lemma legacy_sighash_cong:
  assumes mode: "from_hash_type hash_type = (Ok mode :: ('e, _) res)"
    and idx: "index < length (tx_input tx)" "index < length (tx_input tx')"
    and same: "tx_version tx = tx_version tx'" "tx_lock_time tx = tx_lock_time tx'"
      "previous_output (tx_input tx ! index) = previous_output (tx_input tx' ! index)"
      "sequence_no (tx_input tx ! index) = sequence_no (tx_input tx' ! index)"
    and inputs: "anyone_can_pay mode \<or> map previous_output (tx_input tx) = map previous_output (tx_input tx') \<and>
      (mode_single mode \<or> mode_none mode \<or> map sequence_no (tx_input tx) = map sequence_no (tx_input tx'))"
    and outputs: "mode_none mode \<or> (if mode_single mode then get (tx_output tx) index = get (tx_output tx') index
      else tx_output tx = tx_output tx')"
  shows "legacy_sighash h enc tx index code hash_type = (legacy_sighash h enc tx' index code hash_type :: ('e, _) res)"
proof -
  have one: "legacy_encode_input enc tx index index code mode = (legacy_encode_input enc tx' index index code mode :: ('e, _) res)"
    by (rule encode_input_cong) (use idx same in auto)
  have len: "length (tx_input tx) = length (tx_input tx')" if "\<not> anyone_can_pay mode"
    using inputs that by (metis length_map)
  have all: "legacy_encode_inputs enc tx index [0..<length (tx_input tx')] code mode =
      (legacy_encode_inputs enc tx' index [0..<length (tx_input tx')] code mode :: ('e, _) res)" if acp: "\<not> anyone_can_pay mode"
  proof (rule encode_inputs_cong, rule encode_input_cong)
    fix i assume "i \<in> set [0..<length (tx_input tx')]"
    then show i: "i < length (tx_input tx)" "i < length (tx_input tx')" using len [OF acp] by auto
    show "previous_output (tx_input tx ! i) = previous_output (tx_input tx' ! i)"
      using inputs acp i by (metis nth_map)
    show "i \<noteq> index \<and> (mode_single mode \<or> mode_none mode) \<or> sequence_no (tx_input tx ! i) = sequence_no (tx_input tx' ! i)"
      using inputs acp i same(4) by (metis nth_map)
  qed
  have len_out: "mode_single mode \<Longrightarrow> \<not> mode_none mode \<Longrightarrow> (length (tx_output tx) \<le> index) = (length (tx_output tx') \<le> index)"
    using outputs by (auto simp: get_def split: if_splits)
  have excl: "\<not> (mode_single mode \<and> mode_none mode)" using mode by (auto simp: from_hash_type_def Let_def)
  have single: "encode_each (legacy_output enc mode index) (enumerate 0 (take (index + 1) (tx_output tx))) =
      (encode_each (legacy_output enc mode index) (enumerate 0 (take (index + 1) (tx_output tx'))) :: ('e, _) res)"
    if "mode_single mode" "index < length (tx_output tx)" "index < length (tx_output tx')"
    by (rule encode_each_cong, rule single_outputs_cong) (use that outputs excl in \<open>auto simp: get_def\<close>)
  show ?thesis
  proof (cases "mode_none mode")
    case True
    with excl idx same one all len show ?thesis
      by (cases "anyone_can_pay mode") (simp_all add: legacy_sighash_def mode)
  next
    case not_none: False
    show ?thesis
    proof (cases "mode_single mode")
      case True
      with not_none idx same one all len len_out single show ?thesis
        by (cases "anyone_can_pay mode"; cases "length (tx_output tx') \<le> index") (simp_all add: legacy_sighash_def mode not_le)
    next
      case False
      with not_none outputs idx same one all len show ?thesis
        by (cases "anyone_can_pay mode") (simp_all add: legacy_sighash_def mode)
    qed
  qed
qed

section \<open>Properties\<close>

text \<open>C19: the legacy digest never aborts for an input of its transaction, and covers of the script
  code exactly the bytes of every opcode but the separators, after a length that still counts
  the bytes of a push that runs past the end. The hypothesis is that every value has a
  non-empty encoding.\<close>

theorem legacy_script_code_form:
  assumes "encoders_ok enc" and "length code < 2 ^ 64" and "index < length (tx_input tx)" and "tx_fits tx"
  shows "legacy_sighash h enc tx index code hash_type \<noteq> Panic \<and>
    legacy_encode_script_code enc code =
      (Ok (enc_varint enc (length code - snd (strip_separators code)) @ fst (strip_separators code)) :: ('e, _) res)"
  using legacy_sighash_total [OF assms] legacy_encode_script_code_ok [OF assms(1,2)] by blast

text \<open>C14: a legacy signature commits to nothing its hash type leaves out: the digest does not change
  when another input's script, witness or, under NONE and SINGLE, sequence changes, when inputs
  are added under ANYONECANPAY, or when outputs change that the mode does not cover.\<close>

theorem legacy_sighash_open_parts:
  assumes "from_hash_type hash_type = (Ok mode :: ('e, _) res)"
    and "index < length (tx_input tx)" and "index < length (tx_input tx')"
    and "tx_version tx = tx_version tx'" and "tx_lock_time tx = tx_lock_time tx'"
    and "previous_output (tx_input tx ! index) = previous_output (tx_input tx' ! index)"
    and "sequence_no (tx_input tx ! index) = sequence_no (tx_input tx' ! index)"
    and "anyone_can_pay mode \<or> map previous_output (tx_input tx) = map previous_output (tx_input tx') \<and>
      (mode_single mode \<or> mode_none mode \<or> map sequence_no (tx_input tx) = map sequence_no (tx_input tx'))"
    and "mode_none mode \<or> (if mode_single mode then get (tx_output tx) index = get (tx_output tx') index
      else tx_output tx = tx_output tx')"
  shows "legacy_sighash h enc tx index code hash_type = (legacy_sighash h enc tx' index code hash_type :: ('e, _) res)"
  using assms by (rule legacy_sighash_cong)

definition sample_encoders :: encoders where
  "sample_encoders = \<lparr> enc_version = (\<lambda>_. [1]), enc_varint = (\<lambda>n. [word_of_nat n]), enc_outpoint = (\<lambda>x. 0 # op_txid x),
     enc_sequence = (\<lambda>s. [ucast s]), enc_lock_time = (\<lambda>s. [ucast s]), enc_txout = (\<lambda>x. 0 # script_pubkey x),
     enc_amount = (\<lambda>a. [ucast a]), enc_script = (\<lambda>s. 0 # s), enc_u32 = (\<lambda>s. [ucast s]),
     null_txout = \<lparr> value_sat = - 1, script_pubkey = [] \<rparr>, tap_sighash = (\<lambda>bs. bs), compute_txid = (\<lambda>tx. []) \<rparr>"

lemma sample_encoders_ok: "encoders_ok sample_encoders"
  by (simp add: encoders_ok_def sample_encoders_def)

definition sample_tx :: "txin list \<Rightarrow> txout list \<Rightarrow> transaction" where
  "sample_tx ins outs = \<lparr> tx_version = 2, tx_lock_time = 0, tx_input = ins, tx_output = outs \<rparr>"

definition sample_txin :: "script \<Rightarrow> u32 \<Rightarrow> txin" where
  "sample_txin sig sq = \<lparr> previous_output = \<lparr> op_txid = [7], op_vout = 0 \<rparr>, script_sig = sig, sequence_no = sq, witness = [] \<rparr>"

theorem legacy_script_code_form_witness:
  "\<forall>h. legacy_sighash h sample_encoders (sample_tx [sample_txin [] 0] []) 0 [OP_CODESEPARATOR, OP_1] 1 \<noteq> (Panic :: (unit, _) res) \<and>
    legacy_encode_script_code sample_encoders [OP_CODESEPARATOR, OP_1] =
      (Ok (enc_varint sample_encoders (length [OP_CODESEPARATOR, OP_1] - snd (strip_separators [OP_CODESEPARATOR, OP_1])) @
        fst (strip_separators [OP_CODESEPARATOR, OP_1])) :: (unit, _) res)"
  by (intro allI, rule legacy_script_code_form) (simp_all add: sample_encoders_ok sample_tx_def tx_fits_def)

theorem legacy_sighash_open_parts_witness:
  "\<forall>h. legacy_sighash h sample_encoders (sample_tx [sample_txin [1] 5] [\<lparr> value_sat = 1, script_pubkey = [] \<rparr>]) 0 [OP_1] 0x82 =
    (legacy_sighash h sample_encoders (sample_tx [sample_txin [2] 5, sample_txin [] 9] []) 0 [OP_1] 0x82 :: (unit, _) res)"
  by (intro allI, rule legacy_sighash_open_parts
      [where mode = "\<lparr> anyone_can_pay = True, mode_single = False, mode_none = True \<rparr>"])
    (simp_all add: sample_tx_def sample_txin_def from_hash_type_def)

end
