(* ===== verification/Sig_Checker.thy ===== *)
theory Sig_Checker
  imports Sighash Interpreter_Safety
begin

text \<open>
  \<^verbatim>\<open>crates/consensus/src/script/checker.rs\<close>: the four questions a script asks about the
  transaction spending it. libsecp256k1 is the
  record \<open>secp_fns\<close>; a parsed key or signature is a byte string. The theory shows that the checker
  meets the contract of the interpreter (locale \<open>script_env\<close>), which lets every lemma proved
  there hold for scripts run against a transaction.
\<close>

section \<open>The model\<close>

abbreviation (input) LOCKTIME_THRESHOLD :: int where "LOCKTIME_THRESHOLD \<equiv> 500000000"
abbreviation (input) SEQUENCE_FINAL :: u32 where "SEQUENCE_FINAL \<equiv> 0xffffffff"
abbreviation (input) SEQUENCE_LOCKTIME_TYPE_FLAG :: int where "SEQUENCE_LOCKTIME_TYPE_FLAG \<equiv> 0x400000"
abbreviation (input) SEQUENCE_LOCKTIME_MASK :: int where "SEQUENCE_LOCKTIME_MASK \<equiv> 0xffff"
abbreviation (input) SCRIPTNUM_LOCKTIME_MAX :: int where "SCRIPTNUM_LOCKTIME_MAX \<equiv> 0x7fffffffff"
abbreviation (input) SCHNORR_SIGNATURE_LEN :: nat where "SCHNORR_SIGNATURE_LEN \<equiv> 64"

record secp_fns =
  pubkey_parse :: "bytes \<Rightarrow> bytes option"
  der_lax_parse :: "bytes \<Rightarrow> bytes option"
  normalize_s :: "bytes \<Rightarrow> bytes"
  secp_verify_ecdsa :: "hash \<Rightarrow> bytes \<Rightarrow> bytes \<Rightarrow> bool"
  xonly_parse :: "bytes \<Rightarrow> bytes option"
  schnorr_parse :: "bytes \<Rightarrow> bytes option"
  secp_verify_schnorr :: "bytes \<Rightarrow> hash \<Rightarrow> bytes \<Rightarrow> bool"
  scalar_parse :: "bytes \<Rightarrow> bytes option"
  tweak_add_check :: "bytes \<Rightarrow> bytes \<Rightarrow> bool \<Rightarrow> bytes \<Rightarrow> bool"

record tx_sig_checker =
  ck_hash :: hash_fns
  ck_enc :: encoders
  ck_secp :: secp_fns
  ck_tx :: transaction
  ck_index :: nat
  ck_prevouts :: "txout list"
  ck_precomputed :: tx_precomputed

definition checker_new ::
    "hash_fns \<Rightarrow> encoders \<Rightarrow> secp_fns \<Rightarrow> transaction \<Rightarrow> nat \<Rightarrow> txout list \<Rightarrow> tx_precomputed \<Rightarrow> ('e, tx_sig_checker) res" where
  "checker_new h enc secp tx index prevouts pre =
     ensure (index < length (tx_input tx)) (ensure (length prevouts = length (tx_input tx))
       (and_then (assert_built_for pre tx) (\<lambda>_.
          Ok \<lparr> ck_hash = h, ck_enc = enc, ck_secp = secp, ck_tx = tx, ck_index = index, ck_prevouts = prevouts,
               ck_precomputed = pre \<rparr>)))"

definition ecdsa_verify :: "secp_fns \<Rightarrow> bytes \<Rightarrow> bytes \<Rightarrow> hash \<Rightarrow> bool" where
  "ecdsa_verify secp signature pubkey digest =
     (case der_lax_parse secp signature of
        None \<Rightarrow> False
      | Some signature \<Rightarrow> secp_verify_ecdsa secp digest (normalize_s secp signature) pubkey)"

definition schnorr_verify :: "secp_fns \<Rightarrow> bytes \<Rightarrow> bytes \<Rightarrow> hash \<Rightarrow> ('e, bool) res" where
  "schnorr_verify secp signature pubkey digest =
     (case xonly_parse secp pubkey of
        None \<Rightarrow> Ok False
      | Some pubkey \<Rightarrow>
          and_then (expect (schnorr_parse secp signature)) (\<lambda>signature. Ok (secp_verify_schnorr secp signature digest pubkey)))"

definition tx_check_ecdsa :: "tx_sig_checker \<Rightarrow> bytes \<Rightarrow> bytes \<Rightarrow> script \<Rightarrow> sig_version \<Rightarrow> (script_error, bool) res" where
  "tx_check_ecdsa c signature pubkey code version =
     (if signature = [] then Ok False
      else let hash_type = last signature; signature_body = butlast signature
      in case pubkey_parse (ck_secp c) pubkey of
           None \<Rightarrow> Ok False
         | Some pubkey \<Rightarrow>
             and_then
               (case version of
                  Base \<Rightarrow> legacy_sighash (ck_hash c) (ck_enc c) (ck_tx c) (ck_index c) code (ucast hash_type)
                | WitnessV0 \<Rightarrow>
                    and_then (expect (get (ck_prevouts c) (ck_index c))) (\<lambda>prevout.
                      segwit_v0_sighash (ck_hash c) (ck_enc c) (ck_tx c) (ck_index c) code (value_sat prevout)
                        (ucast hash_type) (ck_precomputed c))
                | Tapscript \<Rightarrow> Panic)
               (\<lambda>digest. Ok (ecdsa_verify (ck_secp c) signature_body pubkey digest)))"

definition tx_check_schnorr ::
    "tx_sig_checker \<Rightarrow> bytes \<Rightarrow> bytes \<Rightarrow> taproot_spend \<Rightarrow> bytes option \<Rightarrow> (script_error, unit) res" where
  "tx_check_schnorr c signature pubkey spend ann =
     and_then
       (if length signature = SCHNORR_SIGNATURE_LEN then Ok SIGHASH_DEFAULT
        else if length signature = SCHNORR_SIGNATURE_LEN + 1 then
          (if signature = [] then Err SchnorrSigSize
           else if last signature = SIGHASH_DEFAULT then Err SchnorrSigHashtype
           else Ok (last signature))
        else Err SchnorrSigSize)
       (\<lambda>hash_type.
          if length signature < SCHNORR_SIGNATURE_LEN then Err SchnorrSigSize
          else let signature_body = take SCHNORR_SIGNATURE_LEN signature
          in and_then (taproot_sighash (ck_hash c) (ck_enc c) (ck_tx c) (ck_index c) (ck_prevouts c) hash_type spend ann
                 (ck_precomputed c)) (\<lambda>digest.
             and_then (schnorr_verify (ck_secp c) signature_body pubkey digest) (\<lambda>ok.
               if ok then Ok () else Err SchnorrSig)))"

definition tx_check_locktime :: "tx_sig_checker \<Rightarrow> int \<Rightarrow> (script_error, bool) res" where
  "tx_check_locktime c lock_time =
     ensure (0 \<le> lock_time) (ensure (lock_time \<le> SCRIPTNUM_LOCKTIME_MAX)
       (let tx_lock = uint (tx_lock_time (ck_tx c));
            same_kind = ((tx_lock < LOCKTIME_THRESHOLD) = (lock_time < LOCKTIME_THRESHOLD))
        in if \<not> same_kind then Ok False
           else if tx_lock < lock_time then Ok False
           else and_then (expect (get (tx_input (ck_tx c)) (ck_index c))) (\<lambda>input.
             if sequence_no input = SEQUENCE_FINAL then Ok False else Ok True)))"

text \<open>The version is an \<open>i32\<close> compared as its unsigned 32-bit pattern.\<close>

definition tx_check_sequence :: "tx_sig_checker \<Rightarrow> int \<Rightarrow> (script_error, bool) res" where
  "tx_check_sequence c sequence =
     ensure (0 \<le> sequence) (ensure (sequence \<le> SCRIPTNUM_LOCKTIME_MAX)
       (and_then (expect (get (tx_input (ck_tx c)) (ck_index c))) (\<lambda>input.
          let tx_sequence = uint (sequence_no input)
          in if uint (word_of_int (tx_version (ck_tx c)) :: u32) < 2 then Ok False
             else if tx_sequence AND SEQUENCE_LOCKTIME_DISABLE_FLAG \<noteq> 0 then Ok False
             else let mask = SEQUENCE_LOCKTIME_TYPE_FLAG OR SEQUENCE_LOCKTIME_MASK;
                      tx_masked = tx_sequence AND mask;
                      masked = sequence AND mask;
                      same_kind = ((tx_masked < SEQUENCE_LOCKTIME_TYPE_FLAG) = (masked < SEQUENCE_LOCKTIME_TYPE_FLAG))
             in if \<not> same_kind then Ok False
                else if tx_masked < masked then Ok False
                else Ok True)))"

definition to_sig_checker :: "tx_sig_checker \<Rightarrow> sig_checker" where
  "to_sig_checker c = \<lparr> check_ecdsa = tx_check_ecdsa c, check_schnorr = tx_check_schnorr c,
     check_locktime = tx_check_locktime c, check_sequence = tx_check_sequence c \<rparr>"

section \<open>The checker meets the interpreter's contract\<close>

text \<open>The hash functions return digests of their length and a 64-byte string always parses as a
  Schnorr signature: both are documented by the crates. The rest is what \<open>checker_new\<close> asserts.\<close>

definition digest_lengths :: "hash_fns \<Rightarrow> bool" where
  "digest_lengths h \<longleftrightarrow> (\<forall>x. length (ripemd160 h x) = 20 \<and> length (sha1 h x) = 20 \<and> length (sha256 h x) = 32 \<and>
     length (hash160 h x) = 20 \<and> length (sha256d h x) = 32)"

definition schnorr_parses :: "secp_fns \<Rightarrow> bool" where
  "schnorr_parses secp \<longleftrightarrow> (\<forall>x. length x = 64 \<longrightarrow> schnorr_parse secp x \<noteq> None)"

definition checker_ready :: "tx_sig_checker \<Rightarrow> bool" where
  "checker_ready c \<longleftrightarrow> digest_lengths (ck_hash c) \<and> encoders_ok (ck_enc c) \<and> schnorr_parses (ck_secp c) \<and>
     ck_index c < length (tx_input (ck_tx c)) \<and> length (ck_prevouts c) = length (tx_input (ck_tx c)) \<and> tx_fits (ck_tx c) \<and>
     length (tx_input (ck_tx c)) = input_count (ck_precomputed c) \<and> length (tx_output (ck_tx c)) = output_count (ck_precomputed c)"

lemma tx_check_ecdsa_total:
  assumes "checker_ready c" and "version \<noteq> Tapscript" and "length code < 2 ^ 64"
  shows "tx_check_ecdsa c sg pk code version \<noteq> Panic"
  using assms legacy_sighash_total [of "ck_enc c" code "ck_index c" "ck_tx c"]
    segwit_v0_sighash_total [of "ck_enc c" "ck_index c" "ck_tx c" "ck_precomputed c", where ?'a = script_error]
  by (cases version) (auto simp: tx_check_ecdsa_def checker_ready_def and_then_eq_Panic get_def Let_def split: option.splits)

lemma tx_check_schnorr_total:
  assumes "checker_ready c" and "annex_ok ann"
  shows "tx_check_schnorr c sg pk spend ann \<noteq> Panic"
proof -
  have t: "taproot_sighash (ck_hash c) (ck_enc c) (ck_tx c) (ck_index c) (ck_prevouts c) ht spend ann (ck_precomputed c) \<noteq> Panic" for ht
    by (rule taproot_sighash_total) (use assms in \<open>auto simp: checker_ready_def annex_ok_def split: option.splits\<close>)
  have "schnorr_verify (ck_secp c) (take 64 sg) pk d \<noteq> (Panic :: (script_error, _) res)" if "64 \<le> length sg" for d
  proof -
    have "length (take 64 sg) = 64" using that by simp
    then obtain y where "schnorr_parse (ck_secp c) (take 64 sg) = Some y"
      using assms(1) unfolding checker_ready_def schnorr_parses_def by blast
    then show ?thesis by (simp add: schnorr_verify_def split: option.splits)
  qed
  with t show ?thesis
    by (auto simp: tx_check_schnorr_def and_then_eq_Panic Let_def split: if_splits)
qed

interpretation tx_env: script_env ck_hash to_sig_checker checker_ready
proof
  fix c x sg pk code spend a and version :: sig_version and n :: int
  assume c: "checker_ready c"
  show "length (ripemd160 (ck_hash c) x) = 20" "length (sha1 (ck_hash c) x) = 20" "length (sha256 (ck_hash c) x) = 32"
    "length (hash160 (ck_hash c) x) = 20" "length (sha256d (ck_hash c) x) = 32"
    using c by (simp_all add: checker_ready_def digest_lengths_def)
  show "check_ecdsa (to_sig_checker c) sg pk code version \<noteq> Panic" if "version \<noteq> Tapscript" "length code < 2 ^ 64"
    using tx_check_ecdsa_total [OF c that] by (simp add: to_sig_checker_def)
  show "check_schnorr (to_sig_checker c) sg pk spend a \<noteq> Panic" if "length pk = 32" "annex_ok a"
    using tx_check_schnorr_total [OF c that(2)] by (simp add: to_sig_checker_def)
  show "check_locktime (to_sig_checker c) n \<noteq> Panic" "check_sequence (to_sig_checker c) n \<noteq> Panic" if "0 \<le> n" "n < 2 ^ 39"
    using c that by (simp_all add: to_sig_checker_def tx_check_locktime_def tx_check_sequence_def checker_ready_def Let_def get_def)
qed

section \<open>Relative locks\<close>

lemma and_lock_mask:
  fixes x :: int
  shows "x AND (0x400000 OR 0xffff) = (if bit x 22 then 0x400000 else 0) + x mod 65536"
proof -
  have low: "x AND 0xffff = x mod 65536"
    using take_bit_eq_mask [of 16 x] by (simp add: take_bit_eq_mod mask_eq_exp_minus_1)
  have high: "x AND 0x400000 = (if bit x 22 then 0x400000 else 0)"
  proof -
    have "x AND 2 ^ 22 = (if bit x 22 then 2 ^ 22 else 0)"
      by (rule bit_eqI) (auto simp: bit_and_iff bit_exp_iff simp del: power_numeral)
    then show ?thesis by simp
  qed
  have disj: "(x AND 0x400000) AND (x AND 0xffff) = 0"
  proof -
    have "(0x400000 :: int) AND 0xffff = 0" by simp
    then show ?thesis by (metis and.assoc and.commute and_zero_eq)
  qed
  have "x AND (0x400000 OR 0xffff) = (x AND 0x400000) OR (x AND 0xffff)"
    by (simp only: bit.conj_disj_distrib)
  also have "\<dots> = (x AND 0x400000) + (x AND 0xffff)"
    using disj plus_and_or [of "x AND 0x400000" "x AND 0xffff"] by simp
  finally show ?thesis by (simp only: low high)
qed

section \<open>Properties\<close>

text \<open>C29: CHECKSEQUENCEVERIFY's question is answered yes exactly when the transaction's version, as an
  unsigned number, is at least two, the input's sequence has no disable bit, both numbers
  agree on the kind of lock (bit 22) and the operand's low sixteen bits are at most the
  sequence's.\<close>

theorem relative_lock_verdict:
  assumes "checker_ready c" and "0 \<le> n" and "n < 2 ^ 39"
  shows "tx_check_sequence c n =
    (let s = uint (sequence_no (tx_input (ck_tx c) ! ck_index c))
     in Ok (2 \<le> tx_version (ck_tx c) mod 2 ^ 32 \<and> \<not> bit s 31 \<and> bit s 22 = bit n 22 \<and> n mod 65536 \<le> s mod 65536))"
proof -
  define s where "s = uint (sequence_no (tx_input (ck_tx c) ! ck_index c))"
  have mask: "x AND 0x40ffff = (if bit x 22 then 0x400000 else 0) + x mod 65536" for x :: int
    using and_lock_mask [of x] by simp
  have bound: "0 \<le> x mod 65536" "x mod 65536 < 65536" for x :: int by simp_all
  have kind: "((if bit x 22 then 0x400000 else 0) + x mod 65536 < 0x400000) = (\<not> bit x 22)" for x :: int
    using bound [of x] by auto
  have dis: "s AND 0x80000000 \<noteq> 0 \<longleftrightarrow> bit s 31"
    using and_exp_eq_0_iff_not_bit [of s 31] by simp
  have ver: "uint (word_of_int v :: u32) = v mod 2 ^ 32" for v
    by (simp add: uint_word_of_int)
  have g: "get (tx_input (ck_tx c)) (ck_index c) = Some (tx_input (ck_tx c) ! ck_index c)"
    using assms(1) by (simp add: checker_ready_def)
  show ?thesis
    using assms(2,3) g dis bound [of n] bound [of s]
    by (auto simp: tx_check_sequence_def Let_def mask kind ver not_less get_def s_def [symmetric])
qed

text \<open>A transaction with one input, for the witnesses: constant digests of the right lengths and a
  signature library that parses everything.\<close>

definition sample_hashes :: hash_fns where
  "sample_hashes = \<lparr> ripemd160 = (\<lambda>x. replicate 20 0), sha1 = (\<lambda>x. replicate 20 1), sha256 = (\<lambda>x. replicate 32 2),
     hash160 = (\<lambda>x. replicate 20 3), sha256d = (\<lambda>x. replicate 32 4) \<rparr>"

definition sample_secp :: secp_fns where
  "sample_secp = \<lparr> pubkey_parse = Some, der_lax_parse = Some, normalize_s = id, secp_verify_ecdsa = (\<lambda>d sg pk. sg = pk),
     xonly_parse = Some, schnorr_parse = Some, secp_verify_schnorr = (\<lambda>sg d pk. True), scalar_parse = Some,
     tweak_add_check = (\<lambda>p q odd t. True) \<rparr>"

definition sample_precomputed :: "transaction \<Rightarrow> tx_precomputed" where
  "sample_precomputed tx = \<lparr> pre_txid = [], input_count = length (tx_input tx), output_count = length (tx_output tx),
     hash_prevouts = [], hash_sequence = [], hash_outputs = [], sha_prevouts = [], sha_amounts = [], sha_scriptpubkeys = [],
     sha_sequences = [], sha_outputs = [] \<rparr>"

definition sample_checker :: tx_sig_checker where
  "sample_checker =
     (let tx = sample_tx [sample_txin [] 0x400005] []
      in \<lparr> ck_hash = sample_hashes, ck_enc = sample_encoders, ck_secp = sample_secp, ck_tx = tx, ck_index = 0,
           ck_prevouts = [\<lparr> value_sat = 1, script_pubkey = [] \<rparr>], ck_precomputed = sample_precomputed tx \<rparr>)"

lemma sample_checker_ready: "checker_ready sample_checker"
  by (simp add: checker_ready_def sample_checker_def digest_lengths_def schnorr_parses_def sample_hashes_def sample_secp_def
      sample_encoders_ok sample_tx_def sample_txin_def sample_precomputed_def tx_fits_def)

theorem relative_lock_verdict_witness:
  "tx_check_sequence sample_checker 0x400003 =
    (let s = uint (sequence_no (tx_input (ck_tx sample_checker) ! ck_index sample_checker))
     in Ok (2 \<le> tx_version (ck_tx sample_checker) mod 2 ^ 32 \<and> \<not> bit s 31 \<and> bit s 22 = bit (0x400003 :: int) 22 \<and>
       0x400003 mod 65536 \<le> s mod 65536))"
  by (rule relative_lock_verdict) (simp_all add: sample_checker_ready)

end
