(* ===== verification/Taproot.thy ===== *)
theory Taproot
  imports Sig_Checker
begin

text \<open>
  \<^verbatim>\<open>crates/consensus/src/script/taproot.rs\<close>: control blocks, the Merkle path of a leaf and the
  commitment of an output key. The tagged hashes of the \<open>bitcoin\<close> crate and the size of a
  compact size are the record \<open>tap_fns\<close>. The lemmas show when a control block parses, that
  nothing aborts on what the parser returns, and that the root does not depend on which side
  of each pair a node stands.
\<close>

section \<open>The model\<close>

abbreviation (input) TAPROOT_CONTROL_BASE_SIZE :: nat where "TAPROOT_CONTROL_BASE_SIZE \<equiv> 33"
abbreviation (input) TAPROOT_CONTROL_NODE_SIZE :: nat where "TAPROOT_CONTROL_NODE_SIZE \<equiv> 32"
abbreviation (input) TAPROOT_CONTROL_MAX_NODE_COUNT :: nat where "TAPROOT_CONTROL_MAX_NODE_COUNT \<equiv> 128"
abbreviation (input) TAPROOT_CONTROL_MAX_SIZE :: nat where "TAPROOT_CONTROL_MAX_SIZE \<equiv> 4129"
abbreviation (input) TAPROOT_LEAF_MASK :: u8 where "TAPROOT_LEAF_MASK \<equiv> 0xfe"
abbreviation (input) TAPROOT_LEAF_TAPSCRIPT :: u8 where "TAPROOT_LEAF_TAPSCRIPT \<equiv> 0xc0"
abbreviation (input) VALIDATION_WEIGHT_OFFSET :: int where "VALIDATION_WEIGHT_OFFSET \<equiv> 50"

record tap_fns =
  tagged_leaf :: "bytes \<Rightarrow> hash"
  tagged_node :: "bytes \<Rightarrow> hash"
  tagged_tweak :: "bytes \<Rightarrow> hash"
  varint_size :: "nat \<Rightarrow> nat"

record control_block =
  leaf_version :: u8
  output_parity_odd :: bool
  internal_key :: bytes
  cb_path :: bytes

definition control_parse :: "bytes \<Rightarrow> (script_error, control_block) res" where
  "control_parse bs =
     (if length bs < TAPROOT_CONTROL_BASE_SIZE then Err TaprootWrongControlSize
      else if TAPROOT_CONTROL_MAX_SIZE < length bs then Err TaprootWrongControlSize
      else if (length bs - TAPROOT_CONTROL_BASE_SIZE) mod TAPROOT_CONTROL_NODE_SIZE \<noteq> 0 then Err TaprootWrongControlSize
      else case bs of
        [] \<Rightarrow> Panic
      | first # rest \<Rightarrow>
          if length rest < 32 then Panic
          else let key = take 32 rest; path = drop 32 rest
               in ensure (length path mod TAPROOT_CONTROL_NODE_SIZE = 0)
                    (Ok \<lparr> leaf_version = first AND TAPROOT_LEAF_MASK, output_parity_odd = (first AND 1 = 1),
                          internal_key = key, cb_path = path \<rparr>))"

definition path_len :: "control_block \<Rightarrow> ('e, nat) res" where
  "path_len c = ensure (length (cb_path c) mod TAPROOT_CONTROL_NODE_SIZE = 0)
     (Ok (length (cb_path c) div TAPROOT_CONTROL_NODE_SIZE))"

definition tapleaf_hash :: "tap_fns \<Rightarrow> encoders \<Rightarrow> u8 \<Rightarrow> script \<Rightarrow> ('e, hash) res" where
  "tapleaf_hash t enc version script = ensure (version AND 1 = 0)
     (and_then (count_to_u64 (length script)) (\<lambda>n.
      and_then (encode (enc_varint enc) n) (\<lambda>prefix. Ok (tagged_leaf t ([version] @ prefix @ script)))))"

text \<open>Byte arrays compare lexicographically.\<close>

fun bytes_less :: "bytes \<Rightarrow> bytes \<Rightarrow> bool" where
  "bytes_less [] ys = (ys \<noteq> [])"
| "bytes_less (x # xs) [] = False"
| "bytes_less (x # xs) (y # ys) = (x < y \<or> x = y \<and> bytes_less xs ys)"

text \<open>\<open>as_chunks\<close>: the whole nodes of a path and what is left over.\<close>

function node_chunks :: "bytes \<Rightarrow> bytes list \<times> bytes" where
  "node_chunks path =
     (if TAPROOT_CONTROL_NODE_SIZE \<le> length path then
        (let (nodes, rest) = node_chunks (drop TAPROOT_CONTROL_NODE_SIZE path)
         in (take TAPROOT_CONTROL_NODE_SIZE path # nodes, rest))
      else ([], path))"
  by pat_completeness auto
termination by (relation "measure length") auto

declare node_chunks.simps [simp del]

definition hash_pair :: "tap_fns \<Rightarrow> hash \<Rightarrow> hash \<Rightarrow> hash" where
  "hash_pair t node sibling =
     (if bytes_less node sibling then tagged_node t (node @ sibling) else tagged_node t (sibling @ node))"

definition taproot_merkle_root :: "tap_fns \<Rightarrow> control_block \<Rightarrow> hash \<Rightarrow> ('e, hash) res" where
  "taproot_merkle_root t control leaf =
     and_then (path_len control) (\<lambda>m.
       ensure (m \<le> TAPROOT_CONTROL_MAX_NODE_COUNT)
         (let (siblings, remainder) = node_chunks (cb_path control)
          in ensure (remainder = []) (Ok (foldl (hash_pair t) leaf siblings))))"

definition tap_tweak :: "tap_fns \<Rightarrow> bytes \<Rightarrow> hash \<Rightarrow> hash" where
  "tap_tweak t key root = tagged_tweak t (key @ root)"

definition verify_taproot_commitment ::
    "tap_fns \<Rightarrow> secp_fns \<Rightarrow> control_block \<Rightarrow> bytes \<Rightarrow> hash \<Rightarrow> ('e, bool) res" where
  "verify_taproot_commitment t secp control output_key leaf =
     (case xonly_parse secp (internal_key control) of
        None \<Rightarrow> Ok False
      | Some key \<Rightarrow>
          case xonly_parse secp output_key of
            None \<Rightarrow> Ok False
          | Some output_key \<Rightarrow>
              and_then (taproot_merkle_root t control leaf) (\<lambda>root.
                case scalar_parse secp (tap_tweak t (internal_key control) root) of
                  None \<Rightarrow> Ok False
                | Some tweak \<Rightarrow> Ok (tweak_add_check secp key output_key (output_parity_odd control) tweak)))"

text \<open>Sizes are \<open>usize\<close>; the additions are checked.\<close>

fun witness_size_loop :: "tap_fns \<Rightarrow> bytes list \<Rightarrow> nat \<Rightarrow> ('e, nat) res" where
  "witness_size_loop t [] n = Ok n"
| "witness_size_loop t (item # items) n =
     and_then (count_to_u64 (length item)) (\<lambda>k.
       let n = n + varint_size t k
       in ensure (n < 2 ^ 64) (let n = n + length item in ensure (n < 2 ^ 64) (witness_size_loop t items n)))"

definition witness_serialized_size :: "tap_fns \<Rightarrow> bytes list \<Rightarrow> ('e, nat) res" where
  "witness_serialized_size t items =
     and_then (count_to_u64 (length items)) (\<lambda>k.
     and_then (witness_size_loop t items (varint_size t k)) (\<lambda>n. ensure (1 \<le> n) (Ok n)))"

definition validation_weight :: "tap_fns \<Rightarrow> bytes list \<Rightarrow> ('e, int) res" where
  "validation_weight t items =
     and_then (witness_serialized_size t items) (\<lambda>n.
       ensure (n < 2 ^ 63)
         (let w = int n
          in ensure (1 \<le> w) (ensure (VALIDATION_WEIGHT_OFFSET + w < 2 ^ 63) (Ok (VALIDATION_WEIGHT_OFFSET + w)))))"

section \<open>Control blocks\<close>

definition control_ok :: "control_block \<Rightarrow> bool" where
  "control_ok c \<longleftrightarrow> leaf_version c AND 1 = 0 \<and> length (internal_key c) = 32 \<and>
     length (cb_path c) mod 32 = 0 \<and> length (cb_path c) \<le> 4096"

lemma control_parse_cases:
  "control_parse bs =
     (if \<exists>m \<le> 128. length bs = 33 + 32 * m
      then Ok \<lparr> leaf_version = hd bs AND 0xfe, output_parity_odd = (hd bs AND 1 = 1),
                internal_key = take 32 (tl bs), cb_path = drop 33 bs \<rparr>
      else Err TaprootWrongControlSize)"
proof (cases "\<exists>m \<le> 128. length bs = 33 + 32 * m")
  case True
  then obtain m where "m \<le> 128" "length bs = 33 + 32 * m" by blast
  moreover then obtain b rest where "bs = b # rest" by (cases bs) auto
  ultimately show ?thesis by (auto simp: control_parse_def Let_def)
next
  case False
  have "length bs < 33 \<or> 4129 < length bs \<or> (length bs - 33) mod 32 \<noteq> 0"
  proof (rule ccontr)
    assume "\<not> ?thesis"
    then have "length bs = 33 + 32 * ((length bs - 33) div 32)" "(length bs - 33) div 32 \<le> 128" by auto
    with False show False by blast
  qed
  with False show ?thesis by (auto simp: control_parse_def)
qed

lemma even_leaf_version: "((b :: u8) AND 0xfe) AND 1 = 0"
  by (simp add: and.assoc)

lemma holds_control_parse: "holds (control_parse bs) control_ok"
  by (auto simp: control_parse_cases control_ok_def even_leaf_version)

lemma node_chunks_ok:
  assumes "length path = 32 * m"
  shows "\<exists>nodes. node_chunks path = (nodes, []) \<and> length nodes = m \<and> concat nodes = path \<and> list_all (\<lambda>x. length x = 32) nodes"
  using assms
proof (induction m arbitrary: path)
  case 0
  then show ?case by (simp add: node_chunks.simps)
next
  case (Suc m)
  then have "length (drop 32 path) = 32 * m" by simp
  from Suc.IH [OF this] obtain nodes where "node_chunks (drop 32 path) = (nodes, [])" "length nodes = m"
      "concat nodes = drop 32 path" "list_all (\<lambda>x. length x = 32) nodes"
    by blast
  with Suc.prems show ?case by (subst node_chunks.simps) simp
qed

lemma taproot_merkle_root_ok:
  assumes "control_ok c"
  shows "\<exists>nodes. concat nodes = cb_path c \<and> list_all (\<lambda>x. length x = 32) nodes \<and>
    taproot_merkle_root t c leaf = (Ok (foldl (hash_pair t) leaf nodes) :: ('e, _) res)"
proof -
  obtain m where m: "length (cb_path c) = 32 * m" "m \<le> 128" using assms by (auto simp: control_ok_def)
  then obtain nodes where "node_chunks (cb_path c) = (nodes, [])" "concat nodes = cb_path c" "list_all (\<lambda>x. length x = 32) nodes"
    using node_chunks_ok by blast
  with m show ?thesis by (auto simp: taproot_merkle_root_def path_len_def)
qed

lemma verify_taproot_commitment_total: "control_ok c \<Longrightarrow> verify_taproot_commitment t secp c key leaf \<noteq> (Panic :: ('e, _) res)"
  using taproot_merkle_root_ok [of c t leaf, where 'e = 'e]
  by (auto simp: verify_taproot_commitment_def and_then_eq_Panic split: option.splits)

lemma bytes_less_antisym: "length xs = length ys \<Longrightarrow> xs \<noteq> ys \<Longrightarrow> bytes_less ys xs \<longleftrightarrow> \<not> bytes_less xs ys"
  by (induction xs ys rule: list_induct2) auto

lemma hash_pair_commute:
  assumes "length a = length b"
  shows "hash_pair t a b = hash_pair t b a"
  by (cases "a = b") (simp_all add: hash_pair_def bytes_less_antisym [OF assms])

lemma witness_size_loop_ok:
  assumes "\<And>k. 1 \<le> varint_size t k \<and> varint_size t k \<le> 9"
  shows "n + sum_list (map (\<lambda>x. 9 + length x) items) < 2 ^ 62 \<Longrightarrow>
    \<exists>k. witness_size_loop t items n = (Ok k :: ('e, _) res) \<and> n \<le> k \<and> k < 2 ^ 62"
proof (induction items arbitrary: n)
  case (Cons x xs)
  have v: "varint_size t (length x) \<le> 9" using assms by blast
  have b: "n + varint_size t (length x) + length x + sum_list (map (\<lambda>x. 9 + length x) xs) < 2 ^ 62" "length x < 2 ^ 62"
    using Cons.prems v by simp_all
  from Cons.IH [OF b(1)] obtain k where
    "witness_size_loop t xs (n + varint_size t (length x) + length x) = (Ok k :: ('e, _) res)"
    "n + varint_size t (length x) + length x \<le> k" "k < 2 ^ 62" by blast
  with b show ?case by (simp add: count_to_u64_def Let_def)
qed simp

lemma validation_weight_ok:
  assumes "\<And>k. 1 \<le> varint_size t k \<and> varint_size t k \<le> 9"
    and "length items + sum_list (map (\<lambda>x. 9 + length x) items) < 2 ^ 61"
  shows "\<exists>w. validation_weight t items = (Ok w :: ('e, _) res) \<and> 50 < w \<and> w < 2 ^ 63"
proof -
  have v: "varint_size t (length items) \<le> 9" "1 \<le> varint_size t (length items)" using assms(1) by blast+
  with assms(2) have "varint_size t (length items) + sum_list (map (\<lambda>x. 9 + length x) items) < 2 ^ 62" by simp
  from witness_size_loop_ok [OF assms(1) this] obtain k where
    "witness_size_loop t items (varint_size t (length items)) = (Ok k :: ('e, _) res)"
    "varint_size t (length items) \<le> k" "k < 2 ^ 62" by blast
  with v assms(2) show ?thesis
    by (simp add: validation_weight_def witness_serialized_size_def count_to_u64_def Let_def)
qed

end
