(* ===== verification/Script_Verify.thy ===== *)
theory Script_Verify
  imports Taproot
begin

text \<open>
  \<^verbatim>\<open>crates/consensus/src/script/verify.rs\<close>: the scripts of one input in Core's order, P2SH, witness
  v0 and taproot included. The lemmas show which scripts are witness programs and P2SH
  outputs, and that verifying an input aborts only if a tapscript leaf above 10001 bytes runs.
\<close>

section \<open>The model\<close>

abbreviation (input) WITNESS_V0_KEYHASH_SIZE :: nat where "WITNESS_V0_KEYHASH_SIZE \<equiv> 20"
abbreviation (input) WITNESS_V0_SCRIPTHASH_SIZE :: nat where "WITNESS_V0_SCRIPTHASH_SIZE \<equiv> 32"
abbreviation (input) WITNESS_V1_TAPROOT_SIZE :: nat where "WITNESS_V1_TAPROOT_SIZE \<equiv> 32"
abbreviation (input) WITNESS_PROGRAM_SCRIPT_LEN_MIN :: nat where "WITNESS_PROGRAM_SCRIPT_LEN_MIN \<equiv> 4"
abbreviation (input) WITNESS_PROGRAM_SCRIPT_LEN_MAX :: nat where "WITNESS_PROGRAM_SCRIPT_LEN_MAX \<equiv> 42"

definition p2wpkh_script :: "bytes \<Rightarrow> ('e, script) res" where
  "p2wpkh_script program = ensure (length program = WITNESS_V0_KEYHASH_SIZE)
     (let script = [OP_DUP, OP_HASH160, 0x14] @ program @ [OP_EQUALVERIFY] @ [OP_CHECKSIG]
      in ensure (length script = 25) (Ok script))"

definition is_pay_to_script_hash :: "script \<Rightarrow> bool" where
  "is_pay_to_script_hash script \<longleftrightarrow>
     (case script of a # b # rest \<Rightarrow> a = OP_HASH160 \<and> b = 0x14 \<and> rest \<noteq> [] \<and> last rest = OP_EQUAL | _ \<Rightarrow> False) \<and>
     length script = 23"

definition witness_program :: "script \<Rightarrow> ('e, (nat \<times> bytes) option) res" where
  "witness_program script =
     (if length script < WITNESS_PROGRAM_SCRIPT_LEN_MIN \<or> WITNESS_PROGRAM_SCRIPT_LEN_MAX < length script then Ok None
      else case script of
        version_byte # push_len # program \<Rightarrow>
          (case (if version_byte = OP_0 then Some 0
                 else if OP_1 \<le> version_byte \<and> version_byte \<le> OP_16 then Some (unat (version_byte - OP_1 + 1))
                 else None) of
             None \<Rightarrow> Ok None
           | Some version \<Rightarrow>
               if unat push_len + 2 \<noteq> length script then Ok None
               else ensure (length program = unat push_len) (Ok (Some (version, program))))
      | _ \<Rightarrow> Ok None)"

text \<open>The reader loops end because every step of the reader consumes a byte.\<close>

function push_only_loop :: "reader \<Rightarrow> ('e, bool) res" where
  "push_only_loop r =
     and_then (next_op r) (\<lambda>step.
       case step of
         None \<Rightarrow> Ok True
       | Some (Inl e, r) \<Rightarrow> Ok False
       | Some (Inr op, r) \<Rightarrow> if OP_16 < op_opcode op then Ok False else push_only_loop r)"
  by pat_completeness auto
termination
  by (relation "measure (\<lambda>r. length (rd_script r) - rd_position r)") (auto dest: next_op_progress)

declare push_only_loop.simps [simp del]

definition is_push_only :: "script \<Rightarrow> ('e, bool) res" where
  "is_push_only script = push_only_loop (reader_new script)"

function op_success_loop :: "reader \<Rightarrow> (script_error, bool) res" where
  "op_success_loop r =
     and_then (next_op r) (\<lambda>step.
       case step of
         None \<Rightarrow> Ok False
       | Some (Inl e, r) \<Rightarrow> Err e
       | Some (Inr op, r) \<Rightarrow> if is_success (op_opcode op) then Ok True else op_success_loop r)"
  by pat_completeness auto
termination
  by (relation "measure (\<lambda>r. length (rd_script r) - rd_position r)") (auto dest: next_op_progress)

declare op_success_loop.simps [simp del]

definition has_op_success :: "script \<Rightarrow> (script_error, bool) res" where
  "has_op_success script = op_success_loop (reader_new script)"

text \<open>The first oversized item, or none, fails the loop over the items.\<close>

definition execute_witness_script ::
    "tx_sig_checker \<Rightarrow> bytes list \<Rightarrow> script \<Rightarrow> script_flags \<Rightarrow> sig_version \<Rightarrow> exec_data \<Rightarrow> (script_error, unit) res" where
  "execute_witness_script c items exec_script flags version exec =
     ensure (version \<noteq> Base)
       (and_then
          (if version = Tapscript then
             and_then (has_op_success exec_script) (\<lambda>found.
               if found then Ok True
               else if MAX_STACK_SIZE < length items then Err StackSize
               else Ok False)
           else Ok False)
          (\<lambda>done_early.
             if done_early then Ok ()
             else if list_ex (\<lambda>item. MAX_SCRIPT_ELEMENT_SIZE < length item) items then Err PushSize
             else and_then (stack_from_items items) (\<lambda>s.
               and_then (eval_script (ck_hash c) (to_sig_checker c) exec_script s flags version exec) (\<lambda>(s, exec).
                 if length s \<noteq> 1 then Err Cleanstack
                 else and_then (stack_top 1 s) (\<lambda>x. if \<not> cast_to_bool x then Err EvalFalse else Ok ())))))"

definition split_annex :: "bytes list \<Rightarrow> bytes list \<times> bytes option" where
  "split_annex items =
     (if 2 \<le> length items \<and> last items \<noteq> [] \<and> hd (last items) = ANNEX_TAG
      then (butlast items, Some (last items)) else (items, None))"

definition verify_taproot ::
    "tap_fns \<Rightarrow> tx_sig_checker \<Rightarrow> bytes list \<Rightarrow> bytes \<Rightarrow> script_flags \<Rightarrow> (script_error, unit) res" where
  "verify_taproot t c wit output_key flags =
     ensure (flags_contains flags FLAG_TAPROOT)
       (if wit = [] then Err WitnessProgramWitnessEmpty
        else let (items, ann) = split_annex wit
        in case items of
          [signature] \<Rightarrow> tx_check_schnorr c signature output_key KeyPath ann
        | _ \<Rightarrow>
            if length items < 2 then Panic
            else let control = last items; items = butlast items; script = last items; items = butlast items
            in and_then (control_parse control) (\<lambda>control.
               and_then (tapleaf_hash t (ck_enc c) (leaf_version control) script) (\<lambda>leaf.
               and_then (verify_taproot_commitment t (ck_secp c) control output_key leaf) (\<lambda>ok.
                 if \<not> ok then Err WitnessProgramMismatch
                 else if leaf_version control \<noteq> TAPROOT_LEAF_TAPSCRIPT then Ok ()
                 else and_then (validation_weight t wit) (\<lambda>weight.
                   execute_witness_script c items script flags Tapscript
                     (exec_tapscript \<lparr> leaf_hash = leaf, annex = ann, validation_weight_left = weight \<rparr>))))))"

definition verify_witness_program ::
    "tap_fns \<Rightarrow> tx_sig_checker \<Rightarrow> bytes list \<Rightarrow> nat \<Rightarrow> bytes \<Rightarrow> script_flags \<Rightarrow> bool \<Rightarrow> (script_error, unit) res" where
  "verify_witness_program t c wit version program flags is_p2sh =
     ensure (2 \<le> length program) (ensure (length program \<le> 40)
       (if version = 0 then
          (if length program = WITNESS_V0_SCRIPTHASH_SIZE then
             (if wit = [] then Err WitnessProgramWitnessEmpty
              else let script = last wit; stack_items = butlast wit
              in if sha256 (ck_hash c) script \<noteq> program then Err WitnessProgramMismatch
                 else execute_witness_script c stack_items script flags WitnessV0 exec_legacy)
           else if length program = WITNESS_V0_KEYHASH_SIZE then
             (if length wit \<noteq> 2 then Err WitnessProgramMismatch
              else and_then (p2wpkh_script program) (\<lambda>exec_script.
                execute_witness_script c wit exec_script flags WitnessV0 exec_legacy))
           else Err WitnessProgramWrongLength)
        else if version = 1 \<and> \<not> is_p2sh \<and> length program = WITNESS_V1_TAPROOT_SIZE then
          (if \<not> flags_contains flags FLAG_TAPROOT then Ok ()
           else verify_taproot t c wit program flags)
        else Ok ()))"

definition verify_redeem_script ::
    "tap_fns \<Rightarrow> tx_sig_checker \<Rightarrow> script \<Rightarrow> script \<Rightarrow> stack \<Rightarrow> bytes list \<Rightarrow> script_flags \<Rightarrow> (script_error, bool) res" where
  "verify_redeem_script t c sig redeem_script s wit flags =
     and_then (eval_script (ck_hash c) (to_sig_checker c) redeem_script s flags Base exec_legacy) (\<lambda>(s, exec).
     and_then (if s = [] then Ok False else and_then (stack_top 1 s) (\<lambda>x. Ok (cast_to_bool x))) (\<lambda>true_top.
       if \<not> true_top then Err EvalFalse
       else if \<not> flags_contains flags FLAG_WITNESS then Ok False
       else and_then (witness_program redeem_script) (\<lambda>wp.
         case wp of
           None \<Rightarrow> Ok False
         | Some (version, program) \<Rightarrow>
             and_then (push_encoding redeem_script) (\<lambda>push.
               if sig \<noteq> push then Err WitnessMalleatedP2sh
               else and_then (verify_witness_program t c wit version program flags True) (\<lambda>_. Ok True)))))"

definition verify_script ::
    "tap_fns \<Rightarrow> tx_sig_checker \<Rightarrow> script \<Rightarrow> script \<Rightarrow> bytes list \<Rightarrow> script_flags \<Rightarrow> (script_error, unit) res" where
  "verify_script t c sig spk wit flags =
     ensure (flags_contains flags FLAG_WITNESS \<longrightarrow> flags_contains flags FLAG_P2SH)
       (ensure (flags_contains flags FLAG_TAPROOT \<longrightarrow> flags_contains flags FLAG_WITNESS)
         (and_then (eval_script (ck_hash c) (to_sig_checker c) sig [] flags Base exec_legacy) (\<lambda>(s, exec).
          let stack_copy = (if flags_contains flags FLAG_P2SH then Some s else None)
          in and_then (eval_script (ck_hash c) (to_sig_checker c) spk s flags Base exec) (\<lambda>(s, exec).
             and_then (if s = [] then Ok False else and_then (stack_top 1 s) (\<lambda>x. Ok (cast_to_bool x))) (\<lambda>true_top.
               if \<not> true_top then Err EvalFalse
               else and_then
                 (if flags_contains flags FLAG_WITNESS then
                    and_then (witness_program spk) (\<lambda>wp.
                      case wp of
                        None \<Rightarrow> Ok False
                      | Some (version, program) \<Rightarrow>
                          if sig \<noteq> [] then Err WitnessMalleated
                          else and_then (verify_witness_program t c wit version program flags False) (\<lambda>_. Ok True))
                  else Ok False)
                 (\<lambda>had_witness.
               and_then
                 (if flags_contains flags FLAG_P2SH \<and> is_pay_to_script_hash spk then
                    and_then (is_push_only sig) (\<lambda>push_only.
                      if \<not> push_only then Err SigPushonly
                      else and_then (expect stack_copy) (\<lambda>s.
                        ensure (s \<noteq> [])
                          (and_then (stack_pop s) (\<lambda>(redeem_script, s).
                             verify_redeem_script t c sig redeem_script s wit flags))))
                  else Ok had_witness)
                 (\<lambda>had_witness.
               if flags_contains flags FLAG_WITNESS \<and> \<not> had_witness \<and> wit \<noteq> [] then Err WitnessUnexpected
               else Ok ())))))))"

definition verify_input ::
    "hash_fns \<Rightarrow> encoders \<Rightarrow> secp_fns \<Rightarrow> tap_fns \<Rightarrow> transaction \<Rightarrow> nat \<Rightarrow> txout list \<Rightarrow> tx_precomputed \<Rightarrow> script_flags \<Rightarrow>
     (script_error, unit) res" where
  "verify_input h enc secp t tx index prevouts pre flags =
     ensure (index < length (tx_input tx)) (ensure (length prevouts = length (tx_input tx))
       (and_then (expect (get (tx_input tx) index)) (\<lambda>input.
        and_then (expect (get prevouts index)) (\<lambda>prevout.
        and_then (checker_new h enc secp tx index prevouts pre) (\<lambda>c.
          verify_script t c (script_sig input) (script_pubkey prevout) (witness input) flags)))))"

section \<open>Reader loops\<close>

lemma reader_loop_cases:
  assumes "wf_reader r"
  obtains (stop) "next_op r = (Ok None :: ('e, _) res)"
    | (bad) r' where "next_op r = (Ok (Some (Inl BadOpcode, r')) :: ('e, _) res)"
    | (op) op r' where "next_op r = (Ok (Some (Inr op, r')) :: ('e, _) res)" "wf_reader r'"
        "length (rd_script r') - rd_position r' < length (rd_script r) - rd_position r"
proof -
  obtain x where x: "next_op r = (Ok x :: ('e, _) res)" and y: "case x of
       None \<Rightarrow> rd_position r = length (rd_script r)
     | Some (Inl e, r') \<Rightarrow> e = BadOpcode \<and> rd_position r < length (rd_script r)
     | Some (Inr op, r') \<Rightarrow> wf_reader r' \<and> rd_script r' = rd_script r \<and> rd_position r < rd_position r' \<and>
         op_end op = rd_position r' \<and> rd_ops_read r' = rd_ops_read r + 1 \<and>
         op_opcode op = rd_script r ! rd_position r \<and> length (op_push op) \<le> length (rd_script r)"
    using next_op_ok [OF assms] by blast
  show thesis
  proof (cases x)
    case None
    with x stop show thesis by simp
  next
    case (Some p)
    then obtain a r' where "x = Some (a, r')" by (cases p) auto
    with x y bad op next_op_progress show thesis by (cases a) fastforce+
  qed
qed

lemma push_only_loop_total: "wf_reader r \<Longrightarrow> push_only_loop r \<noteq> (Panic :: ('e, _) res)"
proof (induction "length (rd_script r) - rd_position r" arbitrary: r rule: less_induct)
  case less
  from less.prems show ?case
    by (cases rule: reader_loop_cases [where 'e = 'e]; subst push_only_loop.simps) (use less.hyps in auto)
qed

lemma op_success_loop_total: "wf_reader r \<Longrightarrow> op_success_loop r \<noteq> Panic"
proof (induction "length (rd_script r) - rd_position r" arbitrary: r rule: less_induct)
  case less
  from less.prems show ?case
    by (cases rule: reader_loop_cases [where 'e = script_error]; subst op_success_loop.simps) (use less.hyps in auto)
qed

section \<open>Script templates\<close>

lemma witness_program_ok:
  "\<exists>wp. witness_program script = (Ok wp :: ('e, _) res) \<and>
     (\<forall>version program. wp = Some (version, program) \<longrightarrow> 2 \<le> length program \<and> length program \<le> 40)"
proof (cases "\<exists>a b p. script = a # b # p")
  case True
  then obtain a b p where "script = a # b # p" by blast
  then show ?thesis by (auto simp: witness_program_def ensure_def split: option.splits)
next
  case False
  then have "length script < 4" by (cases script rule: remdups_adj.cases) auto
  then show ?thesis by (simp add: witness_program_def)
qed

lemma p2wpkh_script_ok: "length program = 20 \<Longrightarrow> \<exists>s. p2wpkh_script program = (Ok s :: ('e, _) res) \<and> length s = 25"
  by (simp add: p2wpkh_script_def)

text \<open>A P2SH output consumes an element, so it fails on an empty stack.\<close>

lemma p2sh_empty_stack:
  assumes "is_pay_to_script_hash spk"
  shows "eval_script h checker spk [] flags Base exec \<noteq> Ok x"
proof -
  obtain rest where spk: "spk = OP_HASH160 # 0x14 # rest" "length rest = 21"
    using assms by (auto simp: is_pay_to_script_hash_def split: list.splits)
  have nx: "next_op (reader_new spk) = (Ok (Some (Inr \<lparr> op_opcode = OP_HASH160, op_push = [], op_end = 1 \<rparr>,
      (reader_new spk)\<lparr>rd_position := 1, rd_ops_read := 1\<rparr>)) :: (script_error, _) res)"
    using spk by (simp add: next_op_def reader_new_def read_op_def get_def is_push_def Let_def ensure_def)
  have "eval_step h checker True \<lparr> op_opcode = OP_HASH160, op_push = [], op_end = 1 \<rparr>
      ((reader_new spk)\<lparr>rd_position := 1, rd_ops_read := 1\<rparr>) (machine_new spk [] flags Base exec) = Err InvalidStackOperation"
    by (simp add: eval_step_def execute_def is_push_def is_disabled_def is_conditional_def counts_toward_op_limit_def
        cs_all_true_def cs_new_def machine_new_def opcode_index_def on_stack_def op_hash_def stack_require_def)
  then have "eval_loop h checker True (reader_new spk) (machine_new spk [] flags Base exec) = Err InvalidStackOperation"
    using nx by (subst eval_loop.simps) simp
  then show ?thesis by (simp add: eval_script_def)
qed

section \<open>No input aborts the verifier\<close>

text \<open>What is asked of the compact size: between one and nine bytes, as the \<open>bitcoin\<close> crate documents.\<close>

definition tap_fns_ok :: "tap_fns \<Rightarrow> bool" where
  "tap_fns_ok t \<longleftrightarrow> (\<forall>k. 1 \<le> varint_size t k \<and> varint_size t k \<le> 9)"

definition witness_fits :: "bytes list \<Rightarrow> bool" where
  "witness_fits wit \<longleftrightarrow> length wit + sum_list (map (\<lambda>x. 9 + length x) wit) < 2 ^ 61"

text \<open>The leaf script of a script-path spend.\<close>

definition leaf_script :: "bytes list \<Rightarrow> script" where
  "leaf_script wit = (let items = fst (split_annex wit) in if length items < 2 then [] else last (butlast items))"

lemma witness_fits_item: "witness_fits wit \<Longrightarrow> x \<in> set wit \<Longrightarrow> length x < 2 ^ 61"
  using member_le_sum_list [of "9 + length x" "map (\<lambda>x. 9 + length x) wit"] by (auto simp: witness_fits_def)

lemma execute_witness_script_total:
  assumes "checker_ready c" and "version \<noteq> Base" and "length items < 2 ^ 63" and "exec_ok version exec"
    and "version = Tapscript \<Longrightarrow> length script \<le> 10001"
  shows "execute_witness_script c items script flags version exec \<noteq> Panic"
proof -
  have succ: "has_op_success script \<noteq> Panic" if "version = Tapscript"
    unfolding has_op_success_def by (rule op_success_loop_total, rule wf_reader_new) (use assms(5) that in simp)
  note ev = holds_mono [OF tx_env.eval_script_ok [OF assms(1)]]
  have wf: "wf_stack items" if "\<not> list_ex (\<lambda>item. 520 < length item) items"
    using that by (auto simp: wf_stack_def list_ex_iff)
  have body: "holds (and_then (stack_from_items items) (\<lambda>s.
      and_then (eval_script (ck_hash c) (to_sig_checker c) script s flags version exec) (\<lambda>(s, exec).
        if length s \<noteq> 1 then Err Cleanstack
        else and_then (stack_top 1 s) (\<lambda>x. if \<not> cast_to_bool x then Err EvalFalse else Ok ())))) (\<lambda>_. True)"
    if "\<not> list_ex (\<lambda>item. 520 < length item) items"
    using wf [OF that] assms(3-) that
    by (auto simp: outcome stack_from_items_def list_all_iff list_ex_iff not_less intro!: ev)
  show ?thesis
    unfolding no_panic_iff execute_witness_script_def
    using assms(2) succ body
    by (cases "has_op_success script") (auto simp: outcome)
qed

lemma exec_legacy_ok: "version \<noteq> Tapscript \<Longrightarrow> exec_ok version exec_legacy"
  by (simp add: exec_ok_def exec_legacy_def)

lemma split_annex_ok:
  assumes "witness_fits wit" and "split_annex wit = (items, ann)"
  shows "annex_ok ann \<and> length items \<le> length wit \<and> (wit \<noteq> [] \<longrightarrow> items \<noteq> [])"
  using assms witness_fits_item [OF assms(1), of "last wit"]
  by (cases wit rule: rev_cases) (auto simp: split_annex_def annex_ok_def split: if_splits)

lemma verify_taproot_total:
  assumes "checker_ready c" and "tap_fns_ok t" and "witness_fits wit" and "length (leaf_script wit) \<le> 10001"
    and "flags_contains flags FLAG_TAPROOT"
  shows "verify_taproot t c wit key flags \<noteq> Panic"
proof -
  obtain items ann where sp: "split_annex wit = (items, ann)" by fastforce
  note sa = split_annex_ok [OF assms(3) sp]
  obtain w where w: "validation_weight t wit = (Ok w :: (script_error, _) res)" "50 < w" "w < 2 ^ 63"
    using validation_weight_ok [of t wit] assms(2,3) unfolding tap_fns_ok_def witness_fits_def by blast
  have sch: "tx_check_schnorr c sg key KeyPath ann \<noteq> Panic" for sg
    using tx_check_schnorr_total [OF assms(1)] sa by blast
  have script: "length (last (butlast items)) \<le> 10001" if "2 \<le> length items"
    using assms(4) that sp by (simp add: leaf_script_def)
  have leaf: "holds (tapleaf_hash t (ck_enc c) (leaf_version control) (last (butlast items)) :: (script_error, _) res) (\<lambda>_. True)"
    if "control_ok control" "2 \<le> length items" for control
    using that script assms(1) by (auto simp: tapleaf_hash_def outcome control_ok_def checker_ready_def encoders_ok_def)
  have commit: "holds (verify_taproot_commitment t (ck_secp c) control key lf :: (script_error, _) res) (\<lambda>_. True)"
    if "control_ok control" for control lf
    using verify_taproot_commitment_total [OF that] by (simp add: no_panic_iff)
  have run: "holds (execute_witness_script c (butlast (butlast items)) (last (butlast items)) flags Tapscript
      (exec_tapscript \<lparr> leaf_hash = lf, annex = ann, validation_weight_left = w \<rparr>)) (\<lambda>_. True)" if "2 \<le> length items" for lf
    unfolding no_panic_iff [symmetric]
    by (rule execute_witness_script_total [OF assms(1)])
      (use sa w assms(3) script [OF that] in \<open>auto simp: exec_ok_def exec_tapscript_def witness_fits_def\<close>)
  have path: "holds (and_then (control_parse (last items)) (\<lambda>control.
      and_then (tapleaf_hash t (ck_enc c) (leaf_version control) (last (butlast items))) (\<lambda>leaf.
      and_then (verify_taproot_commitment t (ck_secp c) control key leaf) (\<lambda>ok.
        if \<not> ok then Err WitnessProgramMismatch
        else if leaf_version control \<noteq> 0xc0 then Ok ()
        else and_then (validation_weight t wit) (\<lambda>weight.
          execute_witness_script c (butlast (butlast items)) (last (butlast items)) flags Tapscript
            (exec_tapscript \<lparr> leaf_hash = leaf, annex = ann, validation_weight_left = weight \<rparr>)))))) (\<lambda>_. True)"
    if "2 \<le> length items"
    using that run w
    by (auto simp: outcome intro!: holds_mono [OF holds_control_parse] holds_mono [OF leaf] holds_mono [OF commit])
  show ?thesis
  proof (cases "wit = []")
    case False
    with sa have "items \<noteq> []" by blast
    show ?thesis
    proof (cases "2 \<le> length items")
      case True
      then obtain a b rest where it: "items = a # b # rest" by (cases items rule: remdups_adj.cases) auto
      from False sp path [OF True] assms(5) show ?thesis
        unfolding verify_taproot_def no_panic_iff [symmetric] Let_def it by (simp del: last.simps butlast.simps)
    next
      case short: False
      with \<open>items \<noteq> []\<close> obtain sg where "items = [sg]" by (cases items rule: remdups_adj.cases) auto
      with False sp sch assms(5) show ?thesis by (simp add: verify_taproot_def)
    qed
  qed (simp add: verify_taproot_def assms(5))
qed

lemma verify_witness_program_total:
  assumes "checker_ready c" and "tap_fns_ok t" and "witness_fits wit" and "length (leaf_script wit) \<le> 10001"
    and "2 \<le> length program" and "length program \<le> 40"
  shows "verify_witness_program t c wit version program flags is_p2sh \<noteq> Panic"
proof -
  have v0: "execute_witness_script c items script flags WitnessV0 exec_legacy \<noteq> Panic" if "length items \<le> length wit" for items script
    by (rule execute_witness_script_total [OF assms(1)]) (use that assms(3) in \<open>auto simp: exec_legacy_ok witness_fits_def\<close>)
  show ?thesis
    using assms(5,6) v0 verify_taproot_total [OF assms(1-4)] p2wpkh_script_ok [of program, where 'e = script_error]
    by (auto simp: verify_witness_program_def Let_def and_then_eq_Panic)
qed

lemma verify_redeem_script_total:
  assumes "checker_ready c" and "tap_fns_ok t" and "witness_fits wit" and "length (leaf_script wit) \<le> 10001"
    and "wf_stack s" and "length s < 2 ^ 63" and "length redeem \<le> 520"
  shows "verify_redeem_script t c sig redeem s wit flags \<noteq> Panic"
proof -
  obtain wp where wp: "witness_program redeem = (Ok wp :: (script_error, _) res)"
      "\<And>version program. wp = Some (version, program) \<Longrightarrow> 2 \<le> length program \<and> length program \<le> 40"
    using witness_program_ok [of redeem] by blast
  have vp: "holds (verify_witness_program t c wit version program flags True) (\<lambda>_. True)" if "wp = Some (version, program)" for version program
    using verify_witness_program_total [OF assms(1-4)] wp(2) [OF that] by (simp add: no_panic_iff)
  note ev = holds_mono [OF tx_env.eval_script_ok [OF assms(1)]]
  show ?thesis
    unfolding no_panic_iff verify_redeem_script_def
    using assms(5-7) wp(1) vp
    by (auto simp: outcome exec_legacy_ok length_pos_ne Suc_le_eq intro!: ev holds_mono [OF holds_push_encoding] split: option.splits)
qed

lemma verify_script_total:
  assumes "checker_ready c" and "tap_fns_ok t" and "witness_fits wit" and "length (leaf_script wit) \<le> 10001"
    and "flags_contains flags FLAG_WITNESS \<longrightarrow> flags_contains flags FLAG_P2SH"
    and "flags_contains flags FLAG_TAPROOT \<longrightarrow> flags_contains flags FLAG_WITNESS"
  shows "verify_script t c sig spk wit flags \<noteq> Panic"
proof (cases "length sig \<le> 10000")
  case True
  have push: "is_push_only sig \<noteq> (Panic :: (script_error, _) res)"
    unfolding is_push_only_def by (rule push_only_loop_total, rule wf_reader_new) (use True in simp)
  obtain wp where wp: "witness_program spk = (Ok wp :: (script_error, _) res)"
      "\<And>version program. wp = Some (version, program) \<Longrightarrow> 2 \<le> length program \<and> length program \<le> 40"
    using witness_program_ok [of spk] by blast
  have vp: "verify_witness_program t c wit version program flags False \<noteq> Panic" if "wp = Some (version, program)" for version program
    using verify_witness_program_total [OF assms(1-4)] wp(2) [OF that] by blast
  have ev: "case eval_script (ck_hash c) (to_sig_checker c) script s flags Base exec of
      Ok (s', exec') \<Rightarrow> wf_stack s' \<and> length s' < 2 ^ 63 \<and> exec_ok Base exec' | Err e \<Rightarrow> True | Panic \<Rightarrow> False"
    if "wf_stack s" "length s < 2 ^ 63" "exec_ok Base exec" for script s exec
    using tx_env.eval_script_ok [OF assms(1) that(1,2,3), of script flags]
    by (cases "eval_script (ck_hash c) (to_sig_checker c) script s flags Base exec") auto
  show ?thesis
  proof (cases "eval_script (ck_hash c) (to_sig_checker c) sig [] flags Base exec_legacy")
    case (Ok p)
    obtain s exec where e1: "p = (s, exec)" by fastforce
    have s: "wf_stack s" "length s < 2 ^ 63" "exec_ok Base exec"
      using ev [of "[]" exec_legacy sig] Ok e1 by (auto simp: exec_legacy_ok)
    show ?thesis
    proof (cases "eval_script (ck_hash c) (to_sig_checker c) spk s flags Base exec")
      case ok2: (Ok q)
      obtain s2 exec2 where e2: "q = (s2, exec2)" by fastforce
      have top: "(if s2 = [] then Ok False else and_then (stack_top 1 s2) (\<lambda>x. Ok (cast_to_bool x))) \<noteq> (Panic :: (script_error, _) res)"
        by (auto simp: stack_top_def index_at_depth_def get_def Suc_le_eq)
      have wit_part: "(if flags_contains flags FLAG_WITNESS then and_then (witness_program spk) (\<lambda>wp.
          case wp of None \<Rightarrow> Ok False
          | Some (version, program) \<Rightarrow>
              if sig \<noteq> [] then Err WitnessMalleated
              else and_then (verify_witness_program t c wit version program flags False) (\<lambda>_. Ok True)) else Ok False) \<noteq> Panic"
        using wp(1) vp by (auto simp: and_then_eq_Panic split: option.splits)
      have redeem: "and_then (stack_pop s) (\<lambda>(redeem, s). verify_redeem_script t c sig redeem s wit flags) \<noteq> Panic" if "s \<noteq> []"
        using s that verify_redeem_script_total [OF assms(1-4), of "butlast s" "last s"] by (simp add: stack_pop_def)
      have "s \<noteq> []" if "is_pay_to_script_hash spk"
        using p2sh_empty_stack [OF that] ok2 by blast
      with redeem push have p2sh_part: "(if flags_contains flags FLAG_P2SH \<and> is_pay_to_script_hash spk then
          and_then (is_push_only sig) (\<lambda>push_only. if \<not> push_only then Err SigPushonly
            else and_then (expect (if flags_contains flags FLAG_P2SH then Some s else None)) (\<lambda>s. ensure (s \<noteq> [])
              (and_then (stack_pop s) (\<lambda>(redeem, s). verify_redeem_script t c sig redeem s wit flags))))
          else Ok hw) \<noteq> Panic" for hw
        by (auto simp: and_then_eq_Panic ensure_def)
      have tail: "and_then r f \<noteq> Panic" if "r \<noteq> Panic" "\<And>a. f a \<noteq> Panic" for r :: "(script_error, bool) res" and f :: "bool \<Rightarrow> (script_error, unit) res"
        using that by (cases r) simp_all
      have last: "(if flags_contains flags FLAG_WITNESS \<and> \<not> hw \<and> wit \<noteq> [] then Err WitnessUnexpected else Ok ()) \<noteq> Panic" for hw
        by simp
      have rest: "(if \<not> b then Err EvalFalse else r) \<noteq> Panic" if "r \<noteq> Panic" for b and r :: "(script_error, unit) res"
        using that by simp
      show ?thesis
        unfolding verify_script_def Let_def Ok e1 and_then.simps(1) prod.case ok2 e2 ensure_def
          if_P [OF assms(5)] if_P [OF assms(6)]
        by (rule tail [OF top], rule rest, rule tail [OF wit_part], rule tail [OF p2sh_part [unfolded ensure_def]], rule last)
    next
      case Panic
      with ev [OF s, of spk] show ?thesis by simp
    qed (use Ok e1 assms(5,6) in \<open>simp add: verify_script_def\<close>)
  next
    case Panic
    with ev [of "[]" exec_legacy sig] show ?thesis by (simp add: exec_legacy_ok)
  qed (use assms(5,6) in \<open>simp add: verify_script_def\<close>)
qed (use assms(5,6) in \<open>simp add: verify_script_def eval_script_def exec_legacy_def\<close>)

section \<open>What an accepted input shows\<close>

lemma precomputed_new_counts:
  assumes "precomputed_new h enc tx prevouts = (Ok pre :: ('e, _) res)"
  shows "length (tx_input tx) = input_count pre" "length (tx_output tx) = output_count pre" "length prevouts = length (tx_input tx)"
  using assms by (auto simp: precomputed_new_def)

lemma verify_script_accepts:
  assumes "verify_script t c sig spk wit flags = Ok ()"
  shows "(flags_contains flags FLAG_WITNESS \<longrightarrow> witness_program spk = (Ok (Some (version, program)) :: (script_error, _) res) \<longrightarrow>
      sig = [] \<and> verify_witness_program t c wit version program flags False = Ok ()) \<and>
    (flags_contains flags FLAG_P2SH \<longrightarrow> is_pay_to_script_hash spk \<longrightarrow> is_push_only sig = (Ok True :: (script_error, _) res))"
  using assms
  by (fastforce simp: verify_script_def Let_def split: if_splits)

section \<open>Properties\<close>

text \<open>C1: verifying an input returns a verdict and never aborts, for every script, witness and flag set
  with the nesting the rules produce, provided a tapscript leaf is at most 10001 bytes long.
  The hypotheses on the parameters are digest lengths, non-empty encodings, compact sizes of one
  to nine bytes and that 64 bytes parse as a Schnorr signature.\<close>

theorem verify_input_no_abort:
  assumes "digest_lengths h" and "encoders_ok enc" and "schnorr_parses secp" and "tap_fns_ok t"
    and "precomputed_new h enc tx prevouts = (Ok pre :: ('e, _) res)" and "index < length (tx_input tx)" and "tx_fits tx"
    and "witness_fits (witness (tx_input tx ! index))" and "length (leaf_script (witness (tx_input tx ! index))) \<le> 10001"
    and "flags_nested flags"
  shows "verify_input h enc secp t tx index prevouts pre flags \<noteq> Panic"
proof -
  note n = precomputed_new_counts [OF assms(5)]
  let ?c = "\<lparr> ck_hash = h, ck_enc = enc, ck_secp = secp, ck_tx = tx, ck_index = index, ck_prevouts = prevouts, ck_precomputed = pre \<rparr>"
  have c: "checker_new h enc secp tx index prevouts pre = (Ok ?c :: (script_error, _) res)"
    using n assms(6) by (simp add: checker_new_def assert_built_for_def)
  have ready: "checker_ready ?c" using assms(1-3,6,7) n by (simp add: checker_ready_def)
  have "verify_script t ?c sig spk (witness (tx_input tx ! index)) flags \<noteq> Panic" for sig spk
    by (rule verify_script_total [OF ready assms(4,8,9)]) (use assms(10) in \<open>auto simp: flags_nested_def\<close>)
  then show ?thesis
    using n assms(6) c by (simp add: verify_input_def get_def)
qed

text \<open>C3: an accepted input is not malleable where segwit forbids it: if the spent output is a witness
  program, the scriptSig is empty and the witness satisfies the program; if it is P2SH, the
  scriptSig only pushes.\<close>

theorem accepted_input_not_malleable:
  assumes "verify_script t c sig spk wit flags = Ok ()"
  shows "(flags_contains flags FLAG_WITNESS \<longrightarrow> witness_program spk = (Ok (Some (version, program)) :: (script_error, _) res) \<longrightarrow>
      sig = [] \<and> verify_witness_program t c wit version program flags False = Ok ()) \<and>
    (flags_contains flags FLAG_P2SH \<longrightarrow> is_pay_to_script_hash spk \<longrightarrow> is_push_only sig = (Ok True :: (script_error, _) res))"
  using assms by (rule verify_script_accepts)

definition sample_tap :: tap_fns where
  "sample_tap = \<lparr> tagged_leaf = (\<lambda>x. replicate 32 5), tagged_node = (\<lambda>x. replicate 32 6), tagged_tweak = (\<lambda>x. replicate 32 7),
     varint_size = (\<lambda>n. 1) \<rparr>"

lemma sample_parts_ok: "digest_lengths sample_hashes" "schnorr_parses sample_secp" "tap_fns_ok sample_tap"
  by (simp_all add: digest_lengths_def sample_hashes_def schnorr_parses_def sample_secp_def tap_fns_ok_def sample_tap_def)

theorem verify_input_no_abort_witness:
  "\<exists>pre. precomputed_new sample_hashes sample_encoders (sample_tx [sample_txin [OP_1] 0] []) [\<lparr> value_sat = 1, script_pubkey = [] \<rparr>] =
      (Ok pre :: (unit, _) res) \<and>
    verify_input sample_hashes sample_encoders sample_secp sample_tap (sample_tx [sample_txin [OP_1] 0] []) 0
      [\<lparr> value_sat = 1, script_pubkey = [] \<rparr>] pre FLAG_NONE \<noteq> Panic"
proof -
  let ?tx = "sample_tx [sample_txin [OP_1] 0] []" and ?outs = "[\<lparr> value_sat = 1, script_pubkey = [] \<rparr>]"
  obtain pre where pre: "precomputed_new sample_hashes sample_encoders ?tx ?outs = (Ok pre :: (unit, _) res)"
    by (simp add: precomputed_new_def sha256_each_def sample_tx_def sample_txin_def sample_encoders_def encode_def)
  have "verify_input sample_hashes sample_encoders sample_secp sample_tap ?tx 0 ?outs pre FLAG_NONE \<noteq> Panic"
    by (rule verify_input_no_abort [OF sample_parts_ok(1) sample_encoders_ok sample_parts_ok(2,3) pre])
      (simp_all add: sample_tx_def sample_txin_def tx_fits_def witness_fits_def leaf_script_def split_annex_def flags_nested_def
        flags_contains_def FLAG_NONE_def FLAG_TAPROOT_def FLAG_WITNESS_def)
  with pre show ?thesis by blast
qed

text \<open>A pay-to-anchor output: two opcodes, then anyone can spend.\<close>

lemma anchor_next:
  "next_op \<lparr> rd_script = [0x51, 0x02, 0x4e, 0x73], rd_position = 0, rd_ops_read = 0 \<rparr> =
     (Ok (Some (Inr \<lparr> op_opcode = 0x51, op_push = [], op_end = 1 \<rparr>,
       \<lparr> rd_script = [0x51, 0x02, 0x4e, 0x73], rd_position = 1, rd_ops_read = 1 \<rparr>)) :: ('e, _) res)"
  "next_op \<lparr> rd_script = [0x51, 0x02, 0x4e, 0x73], rd_position = 1, rd_ops_read = 1 \<rparr> =
     (Ok (Some (Inr \<lparr> op_opcode = 0x02, op_push = [0x4e, 0x73], op_end = 4 \<rparr>,
       \<lparr> rd_script = [0x51, 0x02, 0x4e, 0x73], rd_position = 4, rd_ops_read = 2 \<rparr>)) :: ('e, _) res)"
  "next_op \<lparr> rd_script = [0x51, 0x02, 0x4e, 0x73], rd_position = 4, rd_ops_read = 2 \<rparr> = (Ok None :: ('e, _) res)"
  by (simp_all add: next_op_def read_op_def get_def get_range_def is_push_def size_field_len_def push_data_def ensure_def)

lemma anchor_eval:
  "eval_script h checker [0x51, 0x02, 0x4e, 0x73] [] flags Base exec_legacy = Ok ([[1], [0x4e, 0x73]], exec_legacy)"
proof -
  have one: "num_encode 1 = (Ok [1] :: (script_error, _) res)"
    by (simp add: num_encode_def encode_loop_pos)
  show ?thesis
    by (simp add: eval_script_def reader_new_def machine_new_def eval_loop.simps anchor_next [unfolded One_nat_def] eval_step_def execute_def is_push_def
        is_disabled_def counts_toward_op_limit_def cs_all_true_def cs_new_def opcode_index_def on_stack_def op_small_integer_def
        small_integer_def num_from_i64_def one stack_push_def cs_is_empty_def exec_legacy_def
        del: and_then_eq_Ok)
qed

theorem accepted_input_not_malleable_witness:
  "verify_script sample_tap sample_checker [] [0x51, 0x02, 0x4e, 0x73] [] (flags_union FLAG_P2SH FLAG_WITNESS) = Ok () \<and>
    verify_witness_program sample_tap sample_checker [] 1 [0x4e, 0x73] (flags_union FLAG_P2SH FLAG_WITNESS) False = Ok ()"
proof -
  let ?f = "flags_union FLAG_P2SH FLAG_WITNESS"
  have f: "flags_contains ?f FLAG_WITNESS" "flags_contains ?f FLAG_P2SH" "\<not> flags_contains ?f FLAG_TAPROOT"
    by (simp_all add: flags_contains_def flags_union_def FLAG_P2SH_def FLAG_WITNESS_def FLAG_TAPROOT_def)
  have wp: "witness_program [0x51, 0x02, 0x4e, 0x73] = (Ok (Some (1, [0x4e, 0x73])) :: (script_error, _) res)"
    by (simp add: witness_program_def)
  have nil: "eval_script h checker [] [] ?f Base exec_legacy = Ok ([], exec_legacy)" for h checker
    by (simp add: eval_script_def reader_new_def machine_new_def eval_loop.simps next_op_def cs_is_empty_def cs_new_def exec_legacy_def)
  have "verify_script sample_tap sample_checker [] [0x51, 0x02, 0x4e, 0x73] [] ?f = Ok ()"
    by (simp add: verify_script_def f nil anchor_eval wp is_pay_to_script_hash_def verify_witness_program_def stack_top_def
        index_at_depth_def get_def cast_to_bool_def)
  from accepted_input_not_malleable [OF this, of 1 "[0x4e, 0x73]"] this f wp show ?thesis by blast
qed



end
