(* ===== verification/Sigops.thy ===== *)
theory Sigops
  imports Script_Verify
begin

text \<open>
  \<^verbatim>\<open>crates/consensus/src/script/sigops.rs\<close>: the static signature-operation scans. Counts are \<open>u32\<close>
  with checked additions. The lemmas show that no scan aborts, that the source's bound of twenty
  operations per byte holds, that the accurate count never exceeds the inaccurate one, and what
  a scan counts: the sum over the opcodes the reader yields before it stops.
\<close>

section \<open>The model\<close>

datatype sig_op_mode = Inaccurate | Accurate

definition u32_add :: "nat \<Rightarrow> nat \<Rightarrow> ('e, nat) res" where
  "u32_add a b = ensure (a + b < 2 ^ 32) (Ok (a + b))"

definition sigops_of :: "u8 \<Rightarrow> u8 \<Rightarrow> sig_op_mode \<Rightarrow> ('e, nat) res" where
  "sigops_of opcode previous mode =
     (if opcode = OP_CHECKSIG \<or> opcode = OP_CHECKSIGVERIFY then Ok 1
      else if opcode = OP_CHECKMULTISIG \<or> opcode = OP_CHECKMULTISIGVERIFY then
        (let keys_max = MAX_PUBKEYS_PER_MULTISIG;
             is_small_integer = (OP_1 \<le> previous \<and> previous \<le> OP_16)
         in if mode = Accurate \<and> is_small_integer then
              and_then (small_integer previous) (\<lambda>v.
                if v < 0 then Panic
                else let keys = nat v in ensure (1 \<le> keys) (ensure (keys \<le> keys_max) (Ok keys)))
            else Ok keys_max)
      else Ok 0)"

text \<open>The loop runs \<open>for _ in 0..=script.len()\<close>; \<open>fuel\<close> is that range.\<close>

fun sigop_loop :: "nat \<Rightarrow> reader \<Rightarrow> u8 \<Rightarrow> sig_op_mode \<Rightarrow> nat \<Rightarrow> ('e, nat) res" where
  "sigop_loop 0 r previous mode count = Ok count"
| "sigop_loop (Suc fuel) r previous mode count =
     and_then (next_op r) (\<lambda>step.
       case step of
         None \<Rightarrow> Ok count
       | Some (Inl e, r) \<Rightarrow> Ok count
       | Some (Inr op, r) \<Rightarrow>
           and_then (sigops_of (op_opcode op) previous mode) (\<lambda>n.
           and_then (u32_add count n) (\<lambda>count. sigop_loop fuel r (op_opcode op) mode count)))"

definition sigop_count :: "script \<Rightarrow> sig_op_mode \<Rightarrow> ('e, nat) res" where
  "sigop_count script mode =
     and_then (sigop_loop (length script + 1) (reader_new script) OP_INVALIDOPCODE mode 0) (\<lambda>count.
       ensure (count \<le> 20 * length script) (Ok count))"

fun last_push_loop :: "nat \<Rightarrow> reader \<Rightarrow> bytes \<Rightarrow> ('e, bytes option) res" where
  "last_push_loop 0 r lst = Ok (Some lst)"
| "last_push_loop (Suc fuel) r lst =
     and_then (next_op r) (\<lambda>step.
       case step of
         None \<Rightarrow> Ok (Some lst)
       | Some (Inl e, r) \<Rightarrow> Ok None
       | Some (Inr op, r) \<Rightarrow> if OP_16 < op_opcode op then Ok None else last_push_loop fuel r (op_push op))"

definition last_push :: "script \<Rightarrow> ('e, bytes option) res" where
  "last_push sig = last_push_loop (length sig + 1) (reader_new sig) []"

definition p2sh_sigop_count :: "script \<Rightarrow> script \<Rightarrow> ('e, nat) res" where
  "p2sh_sigop_count spk sig =
     (if \<not> is_pay_to_script_hash spk then Ok 0
      else and_then (last_push sig) (\<lambda>p.
        case p of Some redeem_script \<Rightarrow> sigop_count redeem_script Accurate | None \<Rightarrow> Ok 0))"

definition witness_program_sigop_count :: "nat \<Rightarrow> bytes \<Rightarrow> bytes list \<Rightarrow> ('e, nat) res" where
  "witness_program_sigop_count version program wit =
     ensure (2 \<le> length program) (ensure (length program \<le> 40)
       (if version \<noteq> 0 then Ok 0
        else if length program = WITNESS_V0_KEYHASH_SIZE then Ok 1
        else if length program = WITNESS_V0_SCRIPTHASH_SIZE \<and> wit \<noteq> [] then sigop_count (last wit) Accurate
        else Ok 0))"

definition witness_sigop_count :: "script \<Rightarrow> script \<Rightarrow> bytes list \<Rightarrow> script_flags \<Rightarrow> ('e, nat) res" where
  "witness_sigop_count sig spk wit flags =
     (if \<not> flags_contains flags FLAG_WITNESS then Ok 0
      else ensure (flags_contains flags FLAG_P2SH)
        (and_then (witness_program spk) (\<lambda>wp.
           case wp of
             Some (version, program) \<Rightarrow> witness_program_sigop_count version program wit
           | None \<Rightarrow>
               if is_pay_to_script_hash spk then
                 and_then (last_push sig) (\<lambda>p.
                   case p of
                     None \<Rightarrow> Ok 0
                   | Some redeem_script \<Rightarrow>
                       and_then (witness_program redeem_script) (\<lambda>wp.
                         case wp of
                           Some (version, program) \<Rightarrow> witness_program_sigop_count version program wit
                         | None \<Rightarrow> Ok 0))
               else Ok 0)))"

section \<open>What a scan counts\<close>

text \<open>The opcodes the reader yields before it ends or meets a truncated push.\<close>

function opcodes_from :: "reader \<Rightarrow> u8 list" where
  "opcodes_from r =
     (case next_op r :: (unit, _) res of
        Ok (Some (Inr op, r')) \<Rightarrow> op_opcode op # opcodes_from r'
      | _ \<Rightarrow> [])"
  by pat_completeness auto
termination
  by (relation "measure (\<lambda>r. length (rd_script r) - rd_position r)") (auto dest: next_op_progress)

declare opcodes_from.simps [simp del]

text \<open>The cost of one opcode given the one before it.\<close>

definition op_cost :: "sig_op_mode \<Rightarrow> u8 \<Rightarrow> u8 \<Rightarrow> nat" where
  "op_cost mode previous opcode =
     (if opcode = 0xac \<or> opcode = 0xad then 1
      else if opcode = 0xae \<or> opcode = 0xaf then
        (if mode = Accurate \<and> 0x51 \<le> previous \<and> previous \<le> 0x60 then unat previous - 80 else 20)
      else 0)"

fun scan_cost :: "sig_op_mode \<Rightarrow> u8 \<Rightarrow> u8 list \<Rightarrow> nat" where
  "scan_cost mode previous [] = 0"
| "scan_cost mode previous (b # bs) = op_cost mode previous b + scan_cost mode b bs"

lemma op_cost_le: "op_cost mode previous opcode \<le> 20"
  by (auto simp: op_cost_def word_le_nat_alt)

lemma op_cost_mode: "op_cost Accurate previous opcode \<le> op_cost Inaccurate previous opcode"
  by (auto simp: op_cost_def word_le_nat_alt)

lemma scan_cost_le: "scan_cost mode previous bs \<le> 20 * length bs"
proof (induction bs arbitrary: previous)
  case (Cons b bs)
  from Cons.IH [of b] op_cost_le [of mode previous b] show ?case by simp
qed simp

lemma scan_cost_mode: "scan_cost Accurate previous bs \<le> scan_cost Inaccurate previous bs"
  by (induction bs arbitrary: previous) (auto intro: add_mono op_cost_mode)

lemma sigops_of_cost: "sigops_of opcode previous mode = (Ok (op_cost mode previous opcode) :: ('e, _) res)"
proof (cases "(opcode = 0xae \<or> opcode = 0xaf) \<and> mode = Accurate \<and> 0x51 \<le> previous \<and> previous \<le> 0x60")
  case True
  then have u: "81 \<le> uint previous" "uint previous \<le> 96" by (simp_all add: word_le_def)
  then have s: "small_integer previous = (Ok (uint previous - 80) :: ('e, _) res)"
    using True by (auto simp: small_integer_def Let_def)
  have "nat (uint previous - 80) = unat previous - 80"
    using u nat_diff_distrib [of 80 "uint previous"] by simp
  moreover have "\<not> uint previous - 80 < 0" "1 \<le> nat (uint previous - 80)" "nat (uint previous - 80) \<le> 20" using u by linarith+
  ultimately show ?thesis using True s by (auto simp: sigops_of_def op_cost_def Let_def ensure_def)
next
  case False
  then show ?thesis by (auto simp: sigops_of_def op_cost_def Let_def)
qed

lemma push_data_poly: "push_data s a b = (Ok x :: ('e, _) res) \<Longrightarrow> push_data s a b = (Ok x :: ('f, _) res)"
  by (auto simp: push_data_def Let_def)

lemma next_op_poly: "next_op r = (Ok x :: ('e, _) res) \<Longrightarrow> next_op r = (Ok x :: ('f, _) res)"
proof (cases "length (rd_script r) \<le> rd_position r")
  case False
  assume x: "next_op r = (Ok x :: ('e, _) res)"
  then obtain q where q: "read_op (rd_script r) (rd_position r) = (Ok q :: ('e, _) res)"
    using False by (auto simp: next_op_def Let_def)
  with read_op_poly [OF q, where 'f = 'f] x False show ?thesis
    by (cases q) (auto simp: next_op_def Let_def dest: push_data_poly [where 'f = 'f] split: if_splits)
qed (simp add: next_op_def)

lemma sigop_loop_cost:
  assumes "wf_reader r" and "length (rd_script r) - rd_position r < fuel"
    and "count + 20 * (length (rd_script r) - rd_position r) < 2 ^ 32"
  shows "sigop_loop fuel r previous mode count = (Ok (count + scan_cost mode previous (opcodes_from r)) :: ('e, _) res) \<and>
    length (opcodes_from r) \<le> length (rd_script r) - rd_position r"
  using assms
proof (induction fuel arbitrary: r previous count)
  case (Suc fuel)
  have same: "(next_op r :: ('e, _) res) = Ok x \<longleftrightarrow> (next_op r :: (unit, _) res) = Ok x" for x
    using next_op_poly [where 'e = 'e and 'f = unit] next_op_poly [where 'e = unit and 'f = 'e] by blast
  from Suc.prems(1) show ?case
  proof (cases rule: reader_loop_cases [where 'e = 'e])
    case (op op r')
    let ?n = "length (rd_script r) - rd_position r" and ?n' = "length (rd_script r') - rd_position r'"
    have "opcodes_from r = op_opcode op # opcodes_from r'" using op(1) same by (subst opcodes_from.simps) simp
    moreover have "count + op_cost mode previous (op_opcode op) + 20 * ?n' < 2 ^ 32" "?n' < fuel"
      using op(3) Suc.prems op_cost_le [of mode previous "op_opcode op"] by linarith+
    ultimately show ?thesis
      using Suc.IH [OF op(2), of "count + op_cost mode previous (op_opcode op)" "op_opcode op"] op
      by (simp add: sigops_of_cost u32_add_def)
  qed (use same in \<open>auto simp: opcodes_from.simps [of r]\<close>)
qed simp

lemma sigop_count_ok:
  assumes "20 * length script < 2 ^ 32"
  shows "sigop_count script mode = (Ok (scan_cost mode 0xff (opcodes_from (reader_new script))) :: ('e, _) res)"
    and "scan_cost mode 0xff (opcodes_from (reader_new script)) \<le> 20 * length script"
proof -
  have l: "sigop_loop (length script + 1) (reader_new script) 0xff mode 0 =
      (Ok (scan_cost mode 0xff (opcodes_from (reader_new script))) :: ('e, _) res)"
    "length (opcodes_from (reader_new script)) \<le> length script"
    using sigop_loop_cost [of "reader_new script" "length script + 1" 0 "0xff" mode, where 'e = 'e] assms
    by (simp_all add: reader_new_def wf_reader_def del: sigop_loop.simps)
  then show b: "scan_cost mode 0xff (opcodes_from (reader_new script)) \<le> 20 * length script"
    using scan_cost_le [of mode "0xff" "opcodes_from (reader_new script)"] by linarith
  show "sigop_count script mode = (Ok (scan_cost mode 0xff (opcodes_from (reader_new script))) :: ('e, _) res)"
    unfolding sigop_count_def l(1) using b by simp
qed

lemma last_push_loop_ok:
  assumes "wf_reader r" and "length lst \<le> length (rd_script r)"
  shows "\<exists>p. last_push_loop fuel r lst = (Ok p :: ('e, _) res) \<and> (\<forall>x. p = Some x \<longrightarrow> length x \<le> length (rd_script r))"
  using assms
proof (induction fuel arbitrary: r lst)
  case (Suc fuel)
  obtain x where x: "next_op r = (Ok x :: ('e, _) res)" "case x of
       None \<Rightarrow> rd_position r = length (rd_script r)
     | Some (Inl e, r') \<Rightarrow> e = BadOpcode \<and> rd_position r < length (rd_script r)
     | Some (Inr op, r') \<Rightarrow> wf_reader r' \<and> rd_script r' = rd_script r \<and> rd_position r < rd_position r' \<and>
         op_end op = rd_position r' \<and> rd_ops_read r' = rd_ops_read r + 1 \<and>
         op_opcode op = rd_script r ! rd_position r \<and> length (op_push op) \<le> length (rd_script r)"
    using next_op_ok [OF Suc.prems(1)] by blast
  show ?case
  proof (cases "\<exists>op r'. x = Some (Inr op, r')")
    case True
    then obtain op r' where o: "x = Some (Inr op, r')" by blast
    with x Suc.IH [of r' "op_push op"] show ?thesis by auto
  next
    case False
    with x Suc.prems show ?thesis by (auto split: option.splits sum.splits)
  qed
qed simp

lemma last_push_ok:
  assumes "length sig < 2 ^ 32"
  shows "\<exists>p. last_push sig = (Ok p :: ('e, _) res) \<and> (\<forall>x. p = Some x \<longrightarrow> length x \<le> length sig)"
  using last_push_loop_ok [of "reader_new sig" "[]" "length sig + 1", where 'e = 'e] assms
  by (simp add: last_push_def reader_new_def wf_reader_def del: last_push_loop.simps)

lemma holds_sigop_count:
  "20 * length script < 2 ^ 32 \<Longrightarrow> holds (sigop_count script mode) (\<lambda>n. n \<le> 20 * length script)"
  by (simp add: sigop_count_ok)

lemma p2sh_sigop_count_bound:
  assumes "20 * length sig < 2 ^ 32"
  shows "holds (p2sh_sigop_count spk sig :: ('e, _) res) (\<lambda>n. n \<le> 20 * length sig)"
proof -
  have "length sig < 2 ^ 32" using assms by linarith
  then obtain p where p: "last_push sig = (Ok p :: ('e, _) res)" "\<And>x. p = Some x \<Longrightarrow> length x \<le> length sig"
    using last_push_ok [where 'e = 'e] by blast
  show ?thesis
  proof (cases p)
    case (Some x)
    with p(2) have "length x \<le> length sig" by blast
    with p(1) Some assms show ?thesis
      by (auto simp: p2sh_sigop_count_def intro!: holds_mono [OF holds_sigop_count])
  qed (use p(1) in \<open>simp add: p2sh_sigop_count_def\<close>)
qed

text \<open>The longest witness item bounds a witness program's cost.\<close>

definition wit_max :: "bytes list \<Rightarrow> nat" where
  "wit_max wit = (if wit = [] then 0 else length (last wit))"

lemma witness_program_sigop_count_bound:
  assumes "2 \<le> length program" and "length program \<le> 40" and "20 * wit_max wit < 2 ^ 32"
  shows "holds (witness_program_sigop_count version program wit) (\<lambda>n. n \<le> 20 * wit_max wit + 1)"
  using assms by (auto simp: witness_program_sigop_count_def wit_max_def intro!: holds_mono [OF holds_sigop_count])

lemma witness_sigop_count_bound:
  assumes "length sig < 2 ^ 32" and "20 * wit_max wit < 2 ^ 32" and "flags_nested flags"
  shows "holds (witness_sigop_count sig spk wit flags :: ('e, _) res) (\<lambda>n. n \<le> 20 * wit_max wit + 1)"
proof -
  obtain p where p: "last_push sig = (Ok p :: ('e, _) res)" using last_push_ok [OF assms(1)] by blast
  have wp: "holds ((case wp of Some (version, program) \<Rightarrow> witness_program_sigop_count version program wit | None \<Rightarrow> Ok 0) :: ('e, _) res) (\<lambda>n. n \<le> 20 * wit_max wit + 1)"
    if "witness_program script = (Ok wp :: ('e, _) res)" for script wp
    using witness_program_ok [of script, where 'e = 'e] that witness_program_sigop_count_bound [OF _ _ assms(2)]
    by (auto split: option.splits)
  have nest: "flags_contains flags FLAG_WITNESS \<Longrightarrow> flags_contains flags FLAG_P2SH" using assms(3) by (simp add: flags_nested_def)
  obtain w1 where w1: "witness_program spk = (Ok w1 :: ('e, _) res)" using witness_program_ok by blast
  have redeem: "holds (and_then (witness_program x) (\<lambda>wp. case wp of
      Some (version, program) \<Rightarrow> witness_program_sigop_count version program wit | None \<Rightarrow> Ok 0) :: ('e, _) res) (\<lambda>n. n \<le> 20 * wit_max wit + 1)" for x
    using witness_program_ok [of x, where 'e = 'e] wp by auto
  show ?thesis
    using w1 wp [OF w1] p redeem nest
    by (auto simp: witness_sigop_count_def ensure_def split: option.splits)
qed

section \<open>Properties\<close>

text \<open>C20: the signature-operation scan never aborts; it returns the sum, over the opcodes the reader
  yields before it stops, of one per CHECKSIG and of the key count per CHECKMULTISIG, at most
  twenty per script byte, and the accurate count never exceeds the inaccurate one.\<close>

theorem sigop_count_is_scan:
  assumes "20 * length script < 2 ^ 32"
  shows "sigop_count script mode = (Ok (scan_cost mode 0xff (opcodes_from (reader_new script))) :: ('e, _) res) \<and>
    scan_cost mode 0xff (opcodes_from (reader_new script)) \<le> 20 * length script \<and>
    scan_cost Accurate 0xff (opcodes_from (reader_new script)) \<le> scan_cost Inaccurate 0xff (opcodes_from (reader_new script))"
  using sigop_count_ok [OF assms] scan_cost_mode by blast

theorem sigop_count_is_scan_witness:
  "sigop_count [0x52, 0xae] Accurate = (Ok (scan_cost Accurate 0xff (opcodes_from (reader_new [0x52, 0xae]))) :: (unit, _) res) \<and>
    scan_cost Accurate 0xff (opcodes_from (reader_new [0x52, 0xae])) \<le> 20 * length [0x52 :: u8, 0xae] \<and>
    scan_cost Accurate 0xff (opcodes_from (reader_new [0x52, 0xae])) \<le> scan_cost Inaccurate 0xff (opcodes_from (reader_new [0x52, 0xae]))"
  by (rule sigop_count_is_scan) simp

end
