(* ===== verification/Retarget.thy ===== *)
theory Retarget
  imports Chain_Params
begin

text \<open>
  \<^verbatim>\<open>crates/consensus/src/header/retarget.rs\<close>: the median time past, and the \<open>nBits\<close> the next
  block must carry: unchanged inside a difficulty period, the minimum-difficulty rule of the
  test chains, and at a boundary the previous target scaled by the clamped timespan.

  The lemmas state the boundary rule over numbers (base times timespan over timespan, capped
  at the proof-of-work limit, rounded down by the compact encoding) and show that the
  computation passes its assertions.
\<close>

section \<open>The model\<close>

abbreviation (input) MEDIAN_TIME_SPAN :: nat where "MEDIAN_TIME_SPAN \<equiv> 11"

record header_facts =
  hf_height :: height
  hf_bits :: compact_target
  hf_time :: u32

definition from_header :: "height \<Rightarrow> header \<Rightarrow> header_facts" where
  "from_header h header = \<lparr> hf_height = h, hf_bits = hdr_bits header, hf_time = hdr_time header \<rparr>"

definition median_time_past :: "u32 list \<Rightarrow> ('e, u32) res" where
  "median_time_past stamps =
     ensure (stamps \<noteq> []) (ensure (length stamps \<le> MEDIAN_TIME_SPAN)
       (let window = sort stamps in expect (get window (length stamps div 2))))"

fun check_windows :: "header_facts list \<Rightarrow> ('e, unit) res" where
  "check_windows (earlier # later # rest) =
     and_then (height_next (hf_height earlier)) (\<lambda>n.
       ensure (n = hf_height later) (check_windows (later # rest)))"
| "check_windows _ = Ok ()"

definition check_period :: "header_facts list \<Rightarrow> nat \<Rightarrow> ('e, header_facts) res" where
  "check_period period interval =
     ensure (period \<noteq> []) (ensure (length period \<le> interval)
       (let first = hd period
        in and_then (is_retarget_boundary (hf_height first) interval) (\<lambda>boundary. ensure boundary
             (let previous = last period; expected_len = hf_height previous mod interval + 1
              in ensure (length period = expected_len)
                   (and_then (check_windows period) (\<lambda>_. Ok previous))))))"

fun last_not_min :: "nat \<Rightarrow> compact_target \<Rightarrow> header_facts list \<Rightarrow> ('e, compact_target) res" where
  "last_not_min interval pow_limit_bits [] = Panic"
| "last_not_min interval pow_limit_bits (facts # rest) =
     and_then (is_retarget_boundary (hf_height facts) interval) (\<lambda>is_boundary.
       if is_boundary \<or> hf_bits facts \<noteq> pow_limit_bits then Ok (hf_bits facts)
       else last_not_min interval pow_limit_bits rest)"

definition min_difficulty_bits ::
    "chain_params \<Rightarrow> header_facts list \<Rightarrow> u32 \<Rightarrow> compact_target \<Rightarrow> ('e, compact_target) res" where
  "min_difficulty_bits params period new_block_time pow_limit_bits =
     ensure (period \<noteq> [])
       (let previous = last period
        in and_then (timespan_since new_block_time (hf_time previous)) (\<lambda>gap.
           and_then (i64_mul 2 (pow_target_spacing params)) (\<lambda>limit.
             if limit < gap then Ok pow_limit_bits
             else and_then (difficulty_adjustment_interval params) (\<lambda>interval.
                    last_not_min interval pow_limit_bits (rev period)))))"

record retarget =
  rt_pow_limit :: target_bytes
  rt_target_timespan :: int
  rt_no_retargeting :: bool
  rt_enforce_bip94 :: bool

definition assert_multiply_fits :: "retarget \<Rightarrow> ('e, unit) res" where
  "assert_multiply_fits r =
     ensure (0 < rt_target_timespan r)
       (if rt_no_retargeting r then Ok ()
        else and_then (i64_mul 4 (rt_target_timespan r)) (\<lambda>largest.
          ensure (0 \<le> largest)
            (and_then (checked_mul_u64 (from_be_bytes (rt_pow_limit r)) (word_of_int largest)) (\<lambda>product.
               ensure (product \<noteq> None) (Ok ())))))"

definition retarget_of :: "chain_params \<Rightarrow> ('e, retarget) res" where
  "retarget_of params =
     (let r = \<lparr> rt_pow_limit = pow_limit params, rt_target_timespan = pow_target_timespan params,
                rt_no_retargeting = no_retargeting params, rt_enforce_bip94 = enforce_bip94 params \<rparr>
      in and_then (assert_multiply_fits r) (\<lambda>_. Ok r))"

text \<open>\<open>Ord::clamp\<close> of the standard library, which asserts its bounds are ordered.\<close>

definition clamp :: "int \<Rightarrow> int \<Rightarrow> int \<Rightarrow> ('e, int) res" where
  "clamp x lo hi = ensure (lo \<le> hi) (Ok (if x < lo then lo else if hi < x then hi else x))"

definition calculate_next_bits ::
    "retarget \<Rightarrow> header_facts \<Rightarrow> header_facts \<Rightarrow> ('e, compact_target) res" where
  "calculate_next_bits r previous first =
     (if rt_no_retargeting r then Ok (hf_bits previous)
      else ensure (hf_height first < hf_height previous)
        (let target_timespan = rt_target_timespan r
         in and_then (timespan_since (hf_time previous) (hf_time first)) (\<lambda>raw.
            and_then (i64_mul target_timespan 4) (\<lambda>hi.
            and_then (clamp raw (i_div target_timespan 4) hi) (\<lambda>actual_timespan.
            ensure (0 < actual_timespan)
              (let base = (if rt_enforce_bip94 r then hf_bits first else hf_bits previous)
               in and_then (expect_ok (decode_target base (rt_pow_limit r))) (\<lambda>base.
                  and_then (checked_mul_u64 (from_be_bytes base) (word_of_int actual_timespan)) (\<lambda>product.
                  and_then (expect product) (\<lambda>product.
                  ensure (0 \<le> target_timespan)
                    (and_then (div_u64 product (word_of_int target_timespan)) (\<lambda>scaled.
                     let limit = from_be_bytes (rt_pow_limit r);
                         capped = (if u256_less limit scaled then limit else scaled)
                     in and_then (encode_target (to_be_bytes capped)) (\<lambda>next.
                        and_then (is_ok (decode_target next (rt_pow_limit r))) (\<lambda>decodes.
                          ensure decodes (Ok next))))))))))))))"

definition next_required_bits ::
    "chain_params \<Rightarrow> header_facts list \<Rightarrow> u32 \<Rightarrow> ('e, compact_target) res" where
  "next_required_bits params period new_block_time =
     and_then (difficulty_adjustment_interval params) (\<lambda>interval.
     and_then (check_period period interval) (\<lambda>previous.
     and_then (encode_target (pow_limit params)) (\<lambda>pow_limit_bits.
     and_then (height_next (hf_height previous)) (\<lambda>next_height.
     and_then (is_retarget_boundary next_height interval) (\<lambda>boundary.
       if \<not> boundary then
         (if allow_min_difficulty params
          then min_difficulty_bits params period new_block_time pow_limit_bits
          else Ok (hf_bits previous))
       else ensure (length period = interval)
         (and_then (expect (get period 0)) (\<lambda>first.
          and_then (retarget_of params) (\<lambda>r. calculate_next_bits r previous first))))))))"

section \<open>The median\<close>

text \<open>
  \<open>m\<close> is the upper median of \<open>ts\<close>: it occurs in \<open>ts\<close>, at most half of the entries are smaller
  and fewer than half are larger.
\<close>

definition upper_median :: "u32 \<Rightarrow> u32 list \<Rightarrow> bool" where
  "upper_median m ts \<longleftrightarrow> m \<in> set ts \<and>
     2 * length (filter (\<lambda>t. t < m) ts) \<le> length ts \<and>
     2 * length (filter (\<lambda>t. m < t) ts) < length ts"

lemma length_filter_sort: "length (filter P (sort ts)) = length (filter P ts)"
  by (simp add: filter_sort)

lemma sorted_filter_less:
  assumes "sorted xs" and "k < length xs"
  shows "length (filter (\<lambda>t. t < xs ! k) xs) \<le> k"
    and "length (filter (\<lambda>t. xs ! k < t) xs) \<le> length xs - Suc k"
proof -
  have "filter (\<lambda>t. t < xs ! k) (drop k xs) = []"
    using assms by (auto simp: filter_empty_conv in_set_conv_nth not_less sorted_iff_nth_mono)
  then have "filter (\<lambda>t. t < xs ! k) xs = filter (\<lambda>t. t < xs ! k) (take k xs)"
    by (metis append_Nil2 append_take_drop_id filter_append)
  then show "length (filter (\<lambda>t. t < xs ! k) xs) \<le> k"
    by (metis length_filter_le length_take min.cobounded2 order.trans)
  have "filter (\<lambda>t. xs ! k < t) (take (Suc k) xs) = []"
    using assms by (auto simp: filter_empty_conv in_set_conv_nth not_less sorted_iff_nth_mono)
  then have "filter (\<lambda>t. xs ! k < t) xs = filter (\<lambda>t. xs ! k < t) (drop (Suc k) xs)"
    by (metis append_Nil append_take_drop_id filter_append)
  then show "length (filter (\<lambda>t. xs ! k < t) xs) \<le> length xs - Suc k"
    by (metis length_drop length_filter_le)
qed

lemma median_time_past_upper_median:
  assumes "ts \<noteq> []" and "length ts \<le> 11"
  shows "\<exists>m. median_time_past ts = (Ok m :: ('e, _) res) \<and> upper_median m ts"
proof -
  let ?k = "length ts div 2"
  have k: "?k < length (sort ts)" using assms(1) by simp
  let ?m = "sort ts ! ?k"
  have "?m \<in> set ts" using nth_mem [OF k] by simp
  moreover have "length (filter (\<lambda>t. t < ?m) ts) \<le> ?k" "length (filter (\<lambda>t. ?m < t) ts) \<le> length ts - Suc ?k"
    using sorted_filter_less [OF sorted_sort k] by (simp_all add: length_filter_sort)
  moreover have "0 < length ts" using assms(1) by simp
  ultimately have "upper_median ?m ts"
    unfolding upper_median_def by linarith
  moreover have "median_time_past ts = (Ok ?m :: ('e, _) res)"
    using assms k by (simp add: median_time_past_def)
  ultimately show ?thesis by blast
qed

section \<open>The scaled target\<close>

lemma compact_floor_pos:
  assumes "compact_floor v bits" and "v \<noteq> 0"
  shows "0 < compact_value bits"
proof (cases "compact_size bits \<le> 3")
  case True
  with assms show ?thesis by (simp add: compact_floor_def)
next
  case False
  with assms show ?thesis by (auto simp: compact_floor_def compact_value_def)
qed

lemma compact_floor_decodes:
  assumes "compact_floor v bits" and "v \<noteq> 0" and "v \<le> bytes_val limit" and "length limit = 32"
  shows "\<exists>t. decode_target bits limit = Ok t \<and> length t = 32 \<and> bytes_val t = compact_value bits"
proof -
  have "0 < compact_value bits" "compact_value bits \<le> bytes_val limit"
    using compact_floor_pos [OF assms(1,2)] compact_floor_le [OF assms(1)] assms(3) by simp_all
  moreover have "bytes_val limit < 2 ^ 256"
    using bytes_val_less [of limit] assms(4) by simp
  moreover have "\<not> compact_negative bits"
    using assms(1) by (simp add: compact_floor_def compact_negative_def)
  ultimately show ?thesis
    using decode_target_rel [OF assms(4), of bits] by (simp add: decode_rel_def split: if_splits)
qed

text \<open>The boundary rule over numbers.\<close>

definition clamped :: "int \<Rightarrow> int \<Rightarrow> int" where
  "clamped timespan raw = max (timespan div 4) (min (timespan * 4) raw)"

definition next_target :: "nat \<Rightarrow> nat \<Rightarrow> nat \<Rightarrow> nat \<Rightarrow> nat" where
  "next_target limit base actual timespan = min limit (base * actual div timespan)"

lemma timespan_since_ok: "timespan_since a b = (Ok (uint a - uint b) :: ('e, _) res)"
proof -
  have "uint a < 2 ^ 32" "uint b < 2 ^ 32" "0 \<le> uint a" "0 \<le> uint b"
    using uint_lt2p [of a] uint_lt2p [of b] by simp_all
  then have "\<bar>uint a - uint b\<bar> < 2 ^ 32" by linarith
  then show ?thesis by (simp add: timespan_since_def)
qed

lemma clamp_ok:
  assumes "0 < timespan"
  shows "clamp raw (i_div timespan 4) (timespan * 4) = (Ok (clamped timespan raw) :: ('e, _) res)"
proof -
  have "timespan div 4 \<le> timespan * 4" using assms by linarith
  then show ?thesis using assms by (auto simp: clamp_def clamped_def max_def min_def)
qed

lemma clamped_bounds: "0 < timespan \<Longrightarrow> timespan div 4 \<le> clamped timespan raw \<and> clamped timespan raw \<le> timespan * 4"
  by (auto simp: clamped_def)

text \<open>
  The precondition of the boundary computation: \<open>Retarget::of\<close> has asserted that the largest
  product fits, the base decodes, and the scaled target does not round to zero.
\<close>

definition retarget_ready :: "retarget \<Rightarrow> nat \<Rightarrow> bool" where
  "retarget_ready r base \<longleftrightarrow> length (rt_pow_limit r) = 32 \<and> 4 \<le> rt_target_timespan r \<and>
     rt_target_timespan r mod 4 = 0 \<and> in_i64 (rt_target_timespan r * 4) \<and>
     bytes_val (rt_pow_limit r) * nat (rt_target_timespan r * 4) < 2 ^ 256 \<and>
     4 \<le> base \<and> base \<le> bytes_val (rt_pow_limit r)"

lemma scaled_pos:
  assumes "4 \<le> base" and "timespan mod 4 = (0 :: nat)" and "0 < timespan" and "timespan div 4 \<le> actual"
  shows "0 < base * actual div timespan"
proof -
  have "timespan = 4 * (timespan div 4)" using assms(2) by presburger
  also have "\<dots> \<le> base * actual" using assms by (intro mult_le_mono) simp_all
  finally show ?thesis using assms(3) by (simp add: div_greater_zero_iff)
qed

text \<open>The wide-integer operations the boundary rule calls, with the laws it relies on.\<close>

locale wide_uint =
  fixes wf :: "'u \<Rightarrow> bool" and val :: "'u \<Rightarrow> nat"
    and mul :: "'u \<Rightarrow> u64 \<Rightarrow> ('e, 'u option) res" and div64 :: "'u \<Rightarrow> u64 \<Rightarrow> ('e, 'u) res"
    and less :: "'u \<Rightarrow> 'u \<Rightarrow> bool"
  assumes mul_exact: "wf x \<Longrightarrow> val x * unat f < 2 ^ 256 \<Longrightarrow>
      \<exists>z. mul x f = Ok (Some z) \<and> wf z \<and> val z = val x * unat f"
    and div_exact: "wf x \<Longrightarrow> d \<noteq> 0 \<Longrightarrow> \<exists>z. div64 x d = Ok z \<and> wf z \<and> val z = val x div unat d"
    and less_exact: "wf x \<Longrightarrow> wf y \<Longrightarrow> less x y \<longleftrightarrow> val x < val y"
begin

lemma scale_and_cap:
  assumes "wf b" and "wf l" and "val b * unat a < 2 ^ 256" and "t \<noteq> 0"
  shows "\<exists>p q. mul b a = Ok (Some p) \<and> div64 p t = Ok q \<and> wf (if less l q then l else q) \<and>
    val (if less l q then l else q) = next_target (val l) (val b) (unat a) (unat t)"
proof -
  obtain p where p: "mul b a = Ok (Some p)" "wf p" "val p = val b * unat a"
    using mul_exact [OF assms(1,3)] by blast
  obtain q where q: "div64 p t = Ok q" "wf q" "val q = val b * unat a div unat t"
    using div_exact [OF p(2) assms(4)] p(3) by auto
  from p q assms(2) show ?thesis
    by (auto simp: next_target_def less_exact)
qed

end

interpretation u256: wide_uint wf_u256 limbs_val checked_mul_u64 div_u64 u256_less
proof
  fix x :: u256 and f d :: u64 and y :: u256
  assume x: "wf_u256 x"
  show "\<exists>z. checked_mul_u64 x f = Ok (Some z) \<and> wf_u256 z \<and> limbs_val z = limbs_val x * unat f"
    if "limbs_val x * unat f < 2 ^ 256"
    using checked_mul_u64_spec [OF x, of f] that by (auto split: option.splits)
  show "\<exists>z. div_u64 x d = Ok z \<and> wf_u256 z \<and> limbs_val z = limbs_val x div unat d" if "d \<noteq> 0"
    using div_u64_spec [OF x that] .
  show "u256_less x y \<longleftrightarrow> limbs_val x < limbs_val y" if "wf_u256 y"
    using x that by (simp add: u256_less_val wf_u256_def)
qed

lemma unat_word_of_i64: "0 \<le> n \<Longrightarrow> in_i64 n \<Longrightarrow> unat (word_of_int n :: u64) = nat n"
  by (simp add: in_i64_def unsigned_of_int take_bit_int_eq_self)

lemma calculate_next_bits_spec:
  assumes ready: "retarget_ready r base" and on: "\<not> rt_no_retargeting r"
    and heights: "hf_height first < hf_height previous"
    and base: "decode_target (if rt_enforce_bip94 r then hf_bits first else hf_bits previous) (rt_pow_limit r) = Ok t"
      "length t = 32" "bytes_val t = base"
  defines "actual \<equiv> nat (clamped (rt_target_timespan r) (uint (hf_time previous) - uint (hf_time first)))"
  defines "v \<equiv> next_target (bytes_val (rt_pow_limit r)) base actual (nat (rt_target_timespan r))"
  shows "\<exists>bits. calculate_next_bits r previous first = (Ok bits :: ('e, _) res) \<and> compact_floor v bits \<and> v \<noteq> 0"
proof -
  let ?T = "rt_target_timespan r" and ?L = "rt_pow_limit r"
  define a where "a = clamped ?T (uint (hf_time previous) - uint (hf_time first))"
  have L: "length ?L = 32" and T: "4 \<le> ?T" "?T mod 4 = 0" "in_i64 (?T * 4)"
    and fits: "bytes_val ?L * nat (?T * 4) < 2 ^ 256" and b: "4 \<le> base" "base \<le> bytes_val ?L"
    using ready by (simp_all add: retarget_ready_def)
  have a: "?T div 4 \<le> a" "a \<le> ?T * 4" using clamped_bounds [of ?T] T(1) by (auto simp: a_def)
  have a_pos: "0 < a" "in_i64 a" "in_i64 ?T" using a T by (auto simp: in_i64_def)
  have words: "unat (word_of_int a :: u64) = nat a" "unat (word_of_int ?T :: u64) = nat ?T"
    using a_pos T(1) by (simp_all add: unat_word_of_i64)
  have "base * nat a \<le> bytes_val ?L * nat (?T * 4)" using a b by (intro mult_le_mono) simp_all
  then have small: "limbs_val (from_be_bytes t) * unat (word_of_int a :: u64) < 2 ^ 256"
    using fits base from_be_bytes_spec [OF base(2)] by (simp add: words)
  have nz: "word_of_int ?T \<noteq> (0 :: u64)" using words(2) T(1) by (auto simp: unat_eq_0)
  note wf = from_be_bytes_spec [OF base(2)] from_be_bytes_spec [OF L]
  have v_eq: "next_target (limbs_val (from_be_bytes ?L)) (limbs_val (from_be_bytes t))
      (unat (word_of_int a :: u64)) (unat (word_of_int ?T :: u64)) = v"
    using wf base(3) by (simp add: words v_def actual_def a_def [symmetric])
  obtain p q where pq: "checked_mul_u64 (from_be_bytes t) (word_of_int a) = (Ok (Some p) :: ('e, _) res)"
      "div_u64 p (word_of_int ?T) = (Ok q :: ('e, _) res)"
      and cap: "wf_u256 (if u256_less (from_be_bytes ?L) q then from_be_bytes ?L else q)"
      "limbs_val (if u256_less (from_be_bytes ?L) q then from_be_bytes ?L else q) = v"
    using u256.scale_and_cap [OF wf(1) [THEN conjunct1] wf(2) [THEN conjunct1] small nz] unfolding v_eq
    by blast
  define c where "c = (if u256_less (from_be_bytes ?L) q then from_be_bytes ?L else q)"
  have c: "length (to_be_bytes c) = 32" "bytes_val (to_be_bytes c) = v"
    using to_be_bytes_spec [of c] cap by (simp_all add: c_def)
  obtain bits where bits: "encode_target (to_be_bytes c) = (Ok bits :: ('e, _) res)" "compact_floor v bits"
    using encode_target_floor [OF c(1)] c(2) by auto
  have "nat ?T mod 4 = 0" "nat ?T div 4 \<le> nat a" "0 < nat ?T"
    using T a by (simp_all add: nat_mod_distrib [of ?T 4, simplified, symmetric] nat_div_distrib [of ?T 4, simplified, symmetric])
  then have v: "v \<noteq> 0" "v \<le> bytes_val ?L"
    using scaled_pos [OF b(1)] b by (auto simp: v_def actual_def a_def [symmetric] next_target_def)
  obtain t' where "decode_target bits ?L = Ok t'"
    using compact_floor_decodes [OF bits(2) v L] by blast
  then show ?thesis
    using on heights base(1) a_pos T bits v(1) clamp_ok [of ?T, where 'e = 'e]
    by (simp add: calculate_next_bits_def timespan_since_ok i64_mul_def Let_def pq a_def [symmetric] c_def [symmetric])
qed

section \<open>The next block's target\<close>

text \<open>A period as the node hands it over: consecutive heights from a boundary, within one interval.\<close>

definition wf_period :: "nat \<Rightarrow> header_facts list \<Rightarrow> bool" where
  "wf_period interval period \<longleftrightarrow> period \<noteq> [] \<and> length period \<le> interval \<and>
     hf_height (hd period) mod interval = 0 \<and>
     map hf_height period = [hf_height (hd period)..<hf_height (hd period) + length period] \<and>
     hf_height (hd period) + length period \<le> HEIGHT_MAX"

lemma wf_period_nth:
  assumes "wf_period interval period" and "i < length period"
  shows "hf_height (period ! i) = hf_height (hd period) + i"
proof -
  have "map hf_height period ! i = [hf_height (hd period)..<hf_height (hd period) + length period] ! i"
    using assms(1) by (simp only: wf_period_def)
  with assms(2) show ?thesis by simp
qed

lemma check_windows_ok:
  "(\<And>i. i < length period \<Longrightarrow> hf_height (period ! i) = n + i) \<Longrightarrow> n + length period \<le> HEIGHT_MAX \<Longrightarrow>
     check_windows period = (Ok () :: ('e, _) res)"
proof (induction period arbitrary: n rule: check_windows.induct)
  case (1 earlier later rest)
  have "hf_height earlier = n" "hf_height later = Suc n"
    using 1(2) [of 0] 1(2) [of 1] by simp_all
  moreover have "check_windows (later # rest) = (Ok () :: ('e, _) res)"
  proof (rule 1(1))
    show "hf_height ((later # rest) ! i) = Suc n + i" if "i < length (later # rest)" for i
      using 1(2) [of "Suc i"] that by simp
  qed (use 1(3) in simp)
  ultimately show ?case
    using 1(3) by (simp add: height_next_def Let_def)
qed simp_all

lemma wf_period_last:
  assumes "wf_period interval period"
  shows "hf_height (last period) = hf_height (hd period) + (length period - 1)"
proof -
  have "period \<noteq> []" using assms by (simp add: wf_period_def)
  with wf_period_nth [OF assms, of "length period - 1"] show ?thesis by (simp add: last_conv_nth)
qed

lemma wf_period_mod:
  assumes "wf_period interval period"
  shows "hf_height (last period) mod interval = length period - 1"
    and "(hf_height (last period) + 1) mod interval = length period mod interval"
proof -
  have len: "0 < length period" "length period \<le> interval" and "hf_height (hd period) mod interval = 0"
    using assms by (auto simp: wf_period_def)
  then obtain k where k: "hf_height (hd period) = interval * k" by auto
  have "length period - 1 < interval" using len by linarith
  then show "hf_height (last period) mod interval = length period - 1"
    by (simp add: wf_period_last [OF assms] k)
  have "hf_height (last period) + 1 = interval * k + length period"
    using len by (simp add: wf_period_last [OF assms] k)
  then show "(hf_height (last period) + 1) mod interval = length period mod interval"
    by simp
qed

lemma check_period_ok:
  assumes "wf_period interval period"
  shows "check_period period interval = (Ok (last period) :: ('e, _) res)"
proof -
  have len: "0 < length period" "length period \<le> interval" "hf_height (hd period) mod interval = 0"
    using assms by (auto simp: wf_period_def)
  then have "hf_height (last period) mod interval + 1 = length period"
    by (simp add: wf_period_mod [OF assms])
  moreover have "check_windows period = (Ok () :: ('e, _) res)"
    using assms check_windows_ok [OF wf_period_nth [OF assms]] by (simp add: wf_period_def)
  ultimately show ?thesis
    using assms len by (simp add: check_period_def is_retarget_boundary_def Let_def)
qed

text \<open>Whether the block after the period starts a new one.\<close>

lemma wf_period_next_boundary:
  assumes "wf_period interval period"
  shows "(hf_height (last period) + 1) mod interval = 0 \<longleftrightarrow> length period = interval"
proof -
  have "0 < length period" "length period \<le> interval" using assms by (auto simp: wf_period_def)
  then show ?thesis
    unfolding wf_period_mod(2) [OF assms] by (cases "length period = interval") auto
qed

text \<open>The minimum-difficulty rule: the last header that is not itself an exception to it.\<close>

lemma last_not_min_ok:
  assumes "0 < interval" and "\<exists>f \<in> set xs. hf_height f mod interval = 0"
  shows "last_not_min interval limit xs = (Ok (hf_bits (the (find (\<lambda>f. hf_height f mod interval = 0 \<or>
      hf_bits f \<noteq> limit) xs))) :: ('e, _) res)"
  using assms by (induction xs) (auto simp: is_retarget_boundary_def mod_eq_0_iff_dvd)

lemma boundary_step:
  assumes "difficulty_adjustment_interval params = (Ok interval :: ('e, _) res)" and "wf_period interval period"
    and "encode_target (pow_limit params) = (Ok limit_bits :: ('e, _) res)"
  shows "next_required_bits params period now =
    (if length period < interval then
       (if allow_min_difficulty params then min_difficulty_bits params period now limit_bits
        else Ok (hf_bits (last period)))
     else and_then (retarget_of params) (\<lambda>r. calculate_next_bits r (last period) (hd period)) :: ('e, _) res)"
proof -
  have len: "0 < length period" "length period \<le> interval" "0 < interval"
    using assms(2) by (auto simp: wf_period_def intro: Nat.gr0I)
  have "hf_height (last period) < HEIGHT_MAX"
    using wf_period_last [OF assms(2)] assms(2) len(1) by (auto simp: wf_period_def)
  then have "height_next (hf_height (last period)) = (Ok (hf_height (last period) + 1) :: ('e, _) res)"
    by (simp add: height_next_def Let_def)
  moreover have "is_retarget_boundary (hf_height (last period) + 1) interval
      = (Ok (length period = interval) :: ('e, _) res)"
    using len wf_period_next_boundary [OF assms(2)] by (simp add: is_retarget_boundary_def)
  ultimately show ?thesis
    using len by (auto simp: next_required_bits_def assms(1,3) check_period_ok [OF assms(2)] get_def hd_conv_nth)
qed

lemma table_intervals:
  "difficulty_adjustment_interval (mainnet_table g) = (Ok 2016 :: ('e, _) res)"
  "difficulty_adjustment_interval (signet_table g c) = (Ok 2016 :: ('e, _) res)"
  "difficulty_adjustment_interval (regtest_table g ov) = (Ok 144 :: ('e, _) res)"
  by (simp_all add: difficulty_adjustment_interval_def mainnet_table_def signet_table_def regtest_table_def)

lemma unat_four_weeks: "unat (word_of_int 4838400 :: u64) = 4838400"
  by (simp add: unat_word_of_i64 in_i64_def)

lemma assert_multiply_fits_ok:
  assumes "length (rt_pow_limit r) = 32" and "rt_target_timespan r = 1209600" "\<not> rt_no_retargeting r"
    and "bytes_val (rt_pow_limit r) * 4838400 < 2 ^ 256"
  shows "assert_multiply_fits r = (Ok () :: ('e, _) res)"
proof -
  have "limbs_val (from_be_bytes (rt_pow_limit r)) * unat (word_of_int 4838400 :: u64) < 2 ^ 256"
    using assms(1,4) from_be_bytes_spec [of "rt_pow_limit r"] by (simp only: unat_four_weeks)
  then obtain z where
    "checked_mul_u64 (from_be_bytes (rt_pow_limit r)) (word_of_int 4838400) = (Ok (Some z) :: ('e, _) res)"
    using u256.mul_exact [of "from_be_bytes (rt_pow_limit r)"] from_be_bytes_spec [OF assms(1)] by blast
  then show ?thesis
    using assms by (simp add: assert_multiply_fits_def i64_mul_def in_i64_def)
qed

text \<open>Mainnet and signet share everything the rule reads but the limit.\<close>

definition main_retarget :: "target_bytes \<Rightarrow> retarget" where
  "main_retarget limit = \<lparr> rt_pow_limit = limit, rt_target_timespan = 1209600,
     rt_no_retargeting = False, rt_enforce_bip94 = False \<rparr>"

lemma main_retarget_of:
  "retarget_of (mainnet_table g) = (Ok (main_retarget MAINNET_POW_LIMIT) :: ('e, _) res)"
  "retarget_of (signet_table g c) = (Ok (main_retarget SIGNET_POW_LIMIT) :: ('e, _) res)"
  using assert_multiply_fits_ok [of "main_retarget MAINNET_POW_LIMIT", where 'e = 'e]
    assert_multiply_fits_ok [of "main_retarget SIGNET_POW_LIMIT", where 'e = 'e]
  by (simp_all add: retarget_of_def mainnet_table_def signet_table_def main_retarget_def pow_limit_values)

definition main_next_value :: "nat \<Rightarrow> header_facts list \<Rightarrow> nat" where
  "main_next_value limit period =
     next_target limit (compact_value (hf_bits (last period)))
       (nat (clamped 1209600 (uint (hf_time (last period)) - uint (hf_time (hd period))))) 1209600"

lemma main_boundary:
  assumes period: "wf_period 2016 period" "length period = 2016"
    and limit: "length limit = 32" "bytes_val limit * 4838400 < 2 ^ 256"
    and base: "\<not> compact_negative (hf_bits (last period))" "4 \<le> compact_value (hf_bits (last period))"
      "compact_value (hf_bits (last period)) \<le> bytes_val limit"
  shows "\<exists>bits. calculate_next_bits (main_retarget limit) (last period) (hd period) = (Ok bits :: ('e, _) res) \<and>
    compact_floor (main_next_value (bytes_val limit) period) bits"
proof -
  have "compact_value (hf_bits (last period)) < 2 ^ 256"
    using base(3) bytes_val_less [of limit] limit(1) by simp
  then obtain t where t: "decode_target (hf_bits (last period)) limit = Ok t" "length t = 32"
      "bytes_val t = compact_value (hf_bits (last period))"
    using decode_target_rel [OF limit(1), of "hf_bits (last period)"] base
    by (auto simp: decode_rel_def not_le [symmetric] split: if_splits)
  have "hf_height (hd period) < hf_height (last period)"
    using wf_period_last [OF period(1)] period(2) by simp
  moreover have "retarget_ready (main_retarget limit) (compact_value (hf_bits (last period)))"
    using limit base by (simp add: retarget_ready_def main_retarget_def in_i64_def)
  ultimately show ?thesis
    using calculate_next_bits_spec [of "main_retarget limit" _ "hd period" "last period" t, where 'e = 'e] t
    by (auto simp: main_retarget_def main_next_value_def)
qed

lemma regtest_next:
  assumes "wf_period 144 period"
  shows "\<exists>limit_bits. encode_target REGTEST_POW_LIMIT = (Ok limit_bits :: ('e, _) res) \<and>
    next_required_bits (regtest_table g ov) period now = (Ok (
      if length period = 144 then hf_bits (last period)
      else if 1200 < uint now - uint (hf_time (last period)) then limit_bits
      else hf_bits (the (find (\<lambda>f. hf_height f mod 144 = 0 \<or> hf_bits f \<noteq> limit_bits) (rev period)))) :: ('e, _) res)"
proof -
  obtain limit_bits where lb: "encode_target REGTEST_POW_LIMIT = (Ok limit_bits :: ('e, _) res)"
    using encode_target_floor [OF pow_limit_lengths(3)] by blast
  have "period \<noteq> []" "length period \<le> 144" "hf_height (hd period) mod 144 = 0"
    using assms by (simp_all add: wf_period_def)
  then have "\<exists>f \<in> set (rev period). hf_height f mod 144 = 0" by (metis hd_in_set set_rev)
  then have "last_not_min 144 limit_bits (rev period) = (Ok (hf_bits (the (find (\<lambda>f. hf_height f mod 144 = 0 \<or>
      hf_bits f \<noteq> limit_bits) (rev period)))) :: ('e, _) res)"
    by (intro last_not_min_ok) simp_all
  moreover have "pow_limit (regtest_table g ov) = REGTEST_POW_LIMIT" "allow_min_difficulty (regtest_table g ov)"
      "pow_target_spacing (regtest_table g ov) = 600"
    by (simp_all add: regtest_table_def)
  moreover have "and_then (retarget_of (regtest_table g ov)) (\<lambda>r. calculate_next_bits r (last period) (hd period))
      = (Ok (hf_bits (last period)) :: ('e, _) res)"
    by (simp add: retarget_of_def regtest_table_def assert_multiply_fits_def calculate_next_bits_def)
  ultimately show ?thesis
    using lb boundary_step [OF table_intervals(3) assms, where limit_bits = limit_bits, where 'e = 'e]
      \<open>period \<noteq> []\<close> \<open>length period \<le> 144\<close>
    by (auto simp: min_difficulty_bits_def timespan_since_ok i64_mul_def in_i64_def table_intervals)
qed

section \<open>Properties\<close>

text \<open>C22: the median time past of one to eleven timestamps is one of them, with at most half of
  them before it and fewer than half after it.\<close>

theorem median_time_past_is_median:
  assumes "ts \<noteq> []" and "length ts \<le> 11"
  shows "\<exists>m. median_time_past ts = (Ok m :: ('e, _) res) \<and> m \<in> set ts \<and>
     2 * length (filter (\<lambda>t. t < m) ts) \<le> length ts \<and> 2 * length (filter (\<lambda>t. m < t) ts) < length ts"
  using median_time_past_upper_median [OF assms] by (simp add: upper_median_def)

theorem median_time_past_is_median_witness:
  "\<exists>m. median_time_past [5, 1, 4] = (Ok m :: (unit, _) res) \<and> m \<in> set [5, 1, 4 :: u32] \<and>
     2 * length (filter (\<lambda>t. t < m) [5, 1, 4]) \<le> length [5, 1, 4 :: u32] \<and>
     2 * length (filter (\<lambda>t. m < t) [5, 1, 4]) < length [5, 1, 4 :: u32]"
  by (rule median_time_past_is_median) simp_all


definition sample_period :: "header_facts list" where
  "sample_period = [\<lparr> hf_height = 0, hf_bits = 0x1d00ffff, hf_time = 1231006505 \<rparr>,
     \<lparr> hf_height = 1, hf_bits = 0x1d00ffff, hf_time = 1231469665 \<rparr>]"

lemma sample_period_facts:
  "wf_period 2016 sample_period" "wf_period 144 sample_period" "hf_bits (last sample_period) = 0x1d00ffff"
  "compact_negative 0x1d00ffff = False" "compact_value 0x1d00ffff = 0xffff * 2 ^ 208" "length sample_period = 2"
  by (simp_all add: sample_period_def wf_period_def upt_conv_Cons compact_negative_def compact_value_def
      compact_size_def compact_mantissa_def bit_iff_odd)


text \<open>C24: on regtest the difficulty never retargets; inside a period a block more than twenty
  minutes after its predecessor takes the limit, and otherwise the bits of the last header
  that is the period's first or was not itself mined at the limit. No input of this shape
  reaches the final panic of the search.\<close>

theorem next_required_bits_regtest:
  assumes "wf_period 144 period"
  shows "\<exists>limit_bits. encode_target REGTEST_POW_LIMIT = (Ok limit_bits :: ('e, _) res) \<and>
    next_required_bits (regtest_table g ov) period now = (Ok (
      if length period = 144 then hf_bits (last period)
      else if 1200 < uint now - uint (hf_time (last period)) then limit_bits
      else hf_bits (the (find (\<lambda>f. hf_height f mod 144 = 0 \<or> hf_bits f \<noteq> limit_bits) (rev period)))) :: ('e, _) res)"
  by (rule regtest_next [OF assms])

theorem next_required_bits_regtest_witness:
  "\<exists>limit_bits. encode_target REGTEST_POW_LIMIT = (Ok limit_bits :: (unit, _) res) \<and>
    next_required_bits (regtest_table (\<lambda>_. \<lparr> block_header = \<lparr> hdr_version = 1, prev_blockhash = [],
      merkle_root = [], hdr_time = 0, hdr_bits = 0, hdr_nonce = 0 \<rparr>, txdata = [] \<rparr>)
      \<lparr> ov_bip34 = None, ov_bip66 = None, ov_bip65 = None, ov_csv = None, ov_segwit = None, ov_bip94 = False \<rparr>)
      sample_period 1300000000 = (Ok limit_bits :: (unit, _) res)"
proof -
  have "\<not> length sample_period = 144" "1200 < uint (1300000000 :: u32) - uint (hf_time (last sample_period))"
    by (simp_all add: sample_period_facts) (simp add: sample_period_def)
  then show ?thesis
    using next_required_bits_regtest [OF sample_period_facts(2), of
      "\<lambda>_. \<lparr> block_header = \<lparr> hdr_version = 1, prev_blockhash = [],
      merkle_root = [], hdr_time = 0, hdr_bits = 0, hdr_nonce = 0 \<rparr>, txdata = [] \<rparr>"
      "\<lparr> ov_bip34 = None, ov_bip66 = None, ov_bip65 = None, ov_csv = None, ov_segwit = None, ov_bip94 = False \<rparr>"
      1300000000, where 'e = unit] by (simp only: if_True if_False)
qed

end
