(* ===== verification/Header_Rules.thy ===== *)
theory Header_Rules
  imports Retarget
begin

text \<open>
  \<^verbatim>\<open>crates/consensus/src/header/mod.rs\<close>: the two header stages. \<open>check_header\<close> is the proof of
  work against the header's own \<open>nBits\<close>; \<open>accept_header\<close> compares the header with the facts
  its chain contributes. The block hash is the \<open>bitcoin\<close> crate's and is an argument.
\<close>

section \<open>The model\<close>

abbreviation (input) MAX_TIMEWARP :: int where "MAX_TIMEWARP \<equiv> 600"

abbreviation (input) MAX_FUTURE_BLOCK_TIME :: int where "MAX_FUTURE_BLOCK_TIME \<equiv> 2 * 60 * 60"

record block_context =
  ctx_height :: height
  ctx_median_time_past :: u32
  ctx_previous_time :: u32
  ctx_required_bits :: compact_target
  ctx_rules :: rules

definition context_new ::
    "height \<Rightarrow> u32 \<Rightarrow> u32 \<Rightarrow> compact_target \<Rightarrow> rules \<Rightarrow> ('e, block_context) res" where
  "context_new h mtp previous_time required_bits r =
     ensure (0 < h)
       (Ok \<lparr> ctx_height = h, ctx_median_time_past = mtp, ctx_previous_time = previous_time,
             ctx_required_bits = required_bits, ctx_rules = r \<rparr>)"

datatype header_error =
    InvalidTarget target_error
  | HighHash
  | BadDiffBits compact_target
  | TimeTooOld u32
  | Timewarp u32
  | BadVersion int int

definition check_header :: "(header \<Rightarrow> hash) \<Rightarrow> header \<Rightarrow> chain_params \<Rightarrow> (header_error, unit) res" where
  "check_header block_hash header params =
     and_then (map_err InvalidTarget (decode_target (hdr_bits header) (pow_limit params))) (\<lambda>target.
       if \<not> hash_meets_target (block_hash header) target then Err HighHash else Ok ())"

definition accept_header ::
    "header \<Rightarrow> chain_params \<Rightarrow> block_context \<Rightarrow> (header_error, unit) res" where
  "accept_header header params ctx =
     (if hdr_bits header \<noteq> ctx_required_bits ctx then Err (BadDiffBits (ctx_required_bits ctx))
      else let time = hdr_time header
      in if time \<le> ctx_median_time_past ctx then Err (TimeTooOld (ctx_median_time_past ctx))
      else and_then
        (if enforce_bip94 params then
           and_then (difficulty_adjustment_interval params) (\<lambda>interval.
           and_then (is_retarget_boundary (ctx_height ctx) interval) (\<lambda>boundary.
             if boundary then
               and_then (timespan_since time (ctx_previous_time ctx)) (\<lambda>gap.
                 if gap < - MAX_TIMEWARP then Err (Timewarp (ctx_previous_time ctx)) else Ok ())
             else Ok ()))
         else Ok ()) (\<lambda>_.
        let version = hdr_version header; floor = version_floor (ctx_rules ctx)
        in if version < floor then Err (BadVersion version floor) else Ok ()))"

section \<open>What the stages accept\<close>

text \<open>The proof-of-work predicate: \<open>nBits\<close> names a target the chain allows and the hash meets it.\<close>

definition proof_of_work :: "hash \<Rightarrow> compact_target \<Rightarrow> nat \<Rightarrow> bool" where
  "proof_of_work h bits limit \<longleftrightarrow> \<not> compact_negative bits \<and> 0 < compact_value bits \<and>
     compact_value bits \<le> limit \<and> bytes_val (rev h) \<le> compact_value bits"

lemma check_header_iff:
  assumes "length (pow_limit params) = 32" and "length (block_hash header) = 32"
  shows "(check_header block_hash header params = Ok () \<longleftrightarrow>
      proof_of_work (block_hash header) (hdr_bits header) (bytes_val (pow_limit params))) \<and>
    check_header block_hash header params \<noteq> Panic"
proof -
  have "bytes_val (pow_limit params) < 2 ^ 256"
    using bytes_val_less [of "pow_limit params"] assms(1) by simp
  then show ?thesis
    using decode_target_rel [OF assms(1), of "hdr_bits header"]
    by (auto simp: decode_rel_def check_header_def proof_of_work_def hash_meets_target_spec [OF assms(2)]
        simp del: and_then_eq_Ok split: if_splits)
qed

lemma accept_header_eq:
  assumes "difficulty_adjustment_interval params = (Ok interval :: (header_error, _) res)" and "0 < interval"
  shows "accept_header header params c =
    (if hdr_bits header \<noteq> ctx_required_bits c then Err (BadDiffBits (ctx_required_bits c))
     else if hdr_time header \<le> ctx_median_time_past c then Err (TimeTooOld (ctx_median_time_past c))
     else if enforce_bip94 params \<and> ctx_height c mod interval = 0 \<and>
             uint (hdr_time header) < uint (ctx_previous_time c) - 600 then Err (Timewarp (ctx_previous_time c))
     else if hdr_version header < version_floor (ctx_rules c)
          then Err (BadVersion (hdr_version header) (version_floor (ctx_rules c)))
     else Ok ())"
  using assms
  by (auto simp: accept_header_def Let_def is_retarget_boundary_def timespan_since_ok)

section \<open>Properties\<close>

text \<open>C7: the context-free header stage accepts exactly the headers whose \<open>nBits\<close> name a target
  between one and the chain's limit which the hash, read as a little-endian number, does not
  exceed; it never aborts.\<close>

theorem check_header_proof_of_work:
  assumes "length (pow_limit params) = 32" and "length (block_hash header) = 32"
  shows "check_header block_hash header params \<noteq> Panic \<and>
    (check_header block_hash header params = Ok () \<longleftrightarrow>
      \<not> compact_negative (hdr_bits header) \<and> 0 < compact_value (hdr_bits header) \<and>
      compact_value (hdr_bits header) \<le> bytes_val (pow_limit params) \<and>
      bytes_val (rev (block_hash header)) \<le> compact_value (hdr_bits header))"
  using check_header_iff [of params block_hash header] assms by (simp add: proof_of_work_def)

theorem check_header_proof_of_work_witness:
  "check_header (\<lambda>_. replicate 32 0) \<lparr> hdr_version = 1, prev_blockhash = [], merkle_root = [],
      hdr_time = 0, hdr_bits = 0x1d00ffff, hdr_nonce = 0 \<rparr> (mainnet_table (\<lambda>_. \<lparr> block_header =
      \<lparr> hdr_version = 1, prev_blockhash = [], merkle_root = [], hdr_time = 0, hdr_bits = 0, hdr_nonce = 0 \<rparr>,
      txdata = [] \<rparr>)) = Ok ()"
  using check_header_proof_of_work [of "mainnet_table (\<lambda>_. \<lparr> block_header =
      \<lparr> hdr_version = 1, prev_blockhash = [], merkle_root = [], hdr_time = 0, hdr_bits = 0, hdr_nonce = 0 \<rparr>,
      txdata = [] \<rparr>)" "\<lambda>_. replicate 32 0" "\<lparr> hdr_version = 1, prev_blockhash = [], merkle_root = [],
      hdr_time = 0, hdr_bits = 0x1d00ffff, hdr_nonce = 0 \<rparr>"]
  by (simp add: mainnet_table_def sample_period_facts pow_limit_values)



end
