(* ===== verification/Tx_Rules.thy ===== *)
theory Tx_Rules
  imports Sigops Header_Rules
begin

text \<open>
  \<^verbatim>\<open>crates/consensus/src/tx.rs\<close>: \<open>CheckTransaction\<close>, finality, and the rules over the coins a
  transaction spends. Satoshi amounts and counts are naturals with the checked \<open>u64\<close> additions
  written out. What the \<open>bitcoin\<close> crate computes on a transaction (its identifiers, its sizes,
  whether it is a coinbase, the order of outpoints) is the record \<open>tx_fns\<close>; \<open>tx_fns_ok\<close> states
  what its documentation says of them.
\<close>

section \<open>The model\<close>

abbreviation (input) WITNESS_SCALE_FACTOR :: nat where "WITNESS_SCALE_FACTOR \<equiv> 4"
abbreviation (input) MAX_BLOCK_WEIGHT :: nat where "MAX_BLOCK_WEIGHT \<equiv> 4000000"
abbreviation (input) MAX_BLOCK_SIGOPS_COST :: nat where "MAX_BLOCK_SIGOPS_COST \<equiv> 80000"
abbreviation (input) MAX_MONEY :: nat where "MAX_MONEY \<equiv> 2100000000000000"
abbreviation (input) TX_LOCKTIME_THRESHOLD :: u32 where "TX_LOCKTIME_THRESHOLD \<equiv> 500000000"
abbreviation (input) COINBASE_SCRIPT_SIG_SIZE_MIN :: nat where "COINBASE_SCRIPT_SIG_SIZE_MIN \<equiv> 2"
abbreviation (input) COINBASE_SCRIPT_SIG_SIZE_MAX :: nat where "COINBASE_SCRIPT_SIG_SIZE_MAX \<equiv> 100"
abbreviation (input) COINBASE_MATURITY :: nat where "COINBASE_MATURITY \<equiv> 100"
abbreviation (input) TX_SEQUENCE_FINAL :: u32 where "TX_SEQUENCE_FINAL \<equiv> 0xffffffff"
abbreviation (input) TX_SEQUENCE_LOCKTIME_DISABLE_FLAG :: u32 where "TX_SEQUENCE_LOCKTIME_DISABLE_FLAG \<equiv> 0x80000000"
abbreviation (input) TX_SEQUENCE_LOCKTIME_TYPE_FLAG :: u32 where "TX_SEQUENCE_LOCKTIME_TYPE_FLAG \<equiv> 0x400000"
abbreviation (input) TX_SEQUENCE_LOCKTIME_MASK :: u32 where "TX_SEQUENCE_LOCKTIME_MASK \<equiv> 0xffff"
abbreviation (input) SEQUENCE_LOCKTIME_GRANULARITY :: nat where "SEQUENCE_LOCKTIME_GRANULARITY \<equiv> 9"

record tx_fns =
  fn_is_coinbase :: "transaction \<Rightarrow> bool"
  fn_is_null :: "outpoint \<Rightarrow> bool"
  fn_base_size :: "transaction \<Rightarrow> nat"
  fn_total_size :: "transaction \<Rightarrow> nat"
  fn_outpoint_le :: "outpoint \<Rightarrow> outpoint \<Rightarrow> bool"
  fn_txid_le :: "hash \<Rightarrow> hash \<Rightarrow> bool"
  fn_txid :: "transaction \<Rightarrow> hash"
  fn_wtxid :: "transaction \<Rightarrow> hash"
  fn_block_hash :: "header \<Rightarrow> hash"
  fn_varint_size :: "nat \<Rightarrow> nat"

definition u64_add :: "nat \<Rightarrow> nat \<Rightarrow> ('e, nat) res" where
  "u64_add a b = ensure (a + b < 2 ^ 64) (Ok (a + b))"

definition u64_mul :: "nat \<Rightarrow> nat \<Rightarrow> ('e, nat) res" where
  "u64_mul a b = ensure (a * b < 2 ^ 64) (Ok (a * b))"

subsection \<open>Coins\<close>

record coin =
  coin_outpoint :: outpoint
  coin_output :: txout
  coin_height :: height
  coin_coinbase :: bool

definition is_unspendable :: "script \<Rightarrow> bool" where
  "is_unspendable bytes \<longleftrightarrow> get bytes 0 = Some 0x6a \<or> MAX_SCRIPT_SIZE < length bytes"

definition height_code :: "coin \<Rightarrow> u32" where
  "height_code c = push_bit 1 (word_of_nat (coin_height c)) OR (if coin_coinbase c then 1 else 0)"

definition hash_record :: "encoders \<Rightarrow> coin \<Rightarrow> ('e, bytes) res" where
  "hash_record enc c =
     ensure (\<not> is_unspendable (script_pubkey (coin_output c)))
       (let code = height_code c
        in ensure (drop_bit 1 code = word_of_nat (coin_height c))
          (let op = enc_outpoint enc (coin_outpoint c); out = enc_txout enc (coin_output c)
           in ensure (length op = 36)
             (let rec = op @ le_bytes 4 (unat code) @ out
              in ensure (length rec = 40 + length out) (Ok rec))))"

subsection \<open>The context-free rules\<close>

datatype tx_error =
    VinEmpty
  | VoutEmpty
  | Oversize nat
  | VoutNegative nat
  | VoutTooLarge nat
  | TxOutTotalTooLarge nat
  | InputsDuplicate outpoint
  | CoinbaseLength nat
  | PrevoutNull nat

definition base_size :: "tx_fns \<Rightarrow> transaction \<Rightarrow> ('e, nat) res" where
  "base_size f tx = ensure (fn_base_size f tx < 2 ^ 64) (Ok (fn_base_size f tx))"

fun output_values_loop :: "nat \<Rightarrow> nat \<Rightarrow> txout list \<Rightarrow> (tx_error, nat) res" where
  "output_values_loop index acc [] = Ok acc"
| "output_values_loop index acc (output # outs) =
     (let v = value_sat output
      in if v AND push_bit 63 1 \<noteq> 0 then Err (VoutNegative index)
      else if MAX_MONEY < unat v then Err (VoutTooLarge index)
      else and_then (u64_add acc (unat v)) (\<lambda>acc.
        if MAX_MONEY < acc then Err (TxOutTotalTooLarge index) else output_values_loop (index + 1) acc outs))"

definition check_output_values :: "transaction \<Rightarrow> (tx_error, unit) res" where
  "check_output_values tx =
     ensure (tx_output tx \<noteq> [])
       (and_then (output_values_loop 0 0 (tx_output tx)) (\<lambda>acc. ensure (acc \<le> MAX_MONEY) (Ok ())))"

text \<open>\<open>sort_unstable\<close> of the standard library, for an order given as a function. Equal outpoints are
  the same value, so that the sort is unstable cannot be seen.\<close>

fun insert_by :: "('a \<Rightarrow> 'a \<Rightarrow> bool) \<Rightarrow> 'a \<Rightarrow> 'a list \<Rightarrow> 'a list" where
  "insert_by le x [] = [x]"
| "insert_by le x (y # ys) = (if le x y then x # y # ys else y # insert_by le x ys)"

fun sort_by :: "('a \<Rightarrow> 'a \<Rightarrow> bool) \<Rightarrow> 'a list \<Rightarrow> 'a list" where
  "sort_by le [] = []"
| "sort_by le (x # xs) = insert_by le x (sort_by le xs)"

fun distinct_windows :: "(outpoint \<Rightarrow> outpoint \<Rightarrow> bool) \<Rightarrow> outpoint list \<Rightarrow> (tx_error, unit) res" where
  "distinct_windows le (first # second # rest) =
     ensure (le first second)
       (if first = second then Err (InputsDuplicate first) else distinct_windows le (second # rest))"
| "distinct_windows le _ = Ok ()"

definition check_inputs_distinct :: "tx_fns \<Rightarrow> transaction \<Rightarrow> (tx_error, unit) res" where
  "check_inputs_distinct f tx =
     ensure (tx_input tx \<noteq> [])
       (distinct_windows (fn_outpoint_le f) (sort_by (fn_outpoint_le f) (map previous_output (tx_input tx))))"

fun null_loop :: "tx_fns \<Rightarrow> nat \<Rightarrow> txin list \<Rightarrow> (tx_error, unit) res" where
  "null_loop f index [] = Ok ()"
| "null_loop f index (input # ins) =
     (if fn_is_null f (previous_output input) then Err (PrevoutNull index) else null_loop f (index + 1) ins)"

definition check_tx :: "tx_fns \<Rightarrow> transaction \<Rightarrow> (tx_error, unit) res" where
  "check_tx f tx =
     (if tx_input tx = [] then Err VinEmpty
      else if tx_output tx = [] then Err VoutEmpty
      else and_then (base_size f tx) (\<lambda>base.
        and_then (u64_mul base WITNESS_SCALE_FACTOR) (\<lambda>scaled.
        if MAX_BLOCK_WEIGHT < scaled then Err (Oversize base)
        else
          and_then (check_output_values tx) (\<lambda>_.
          and_then (check_inputs_distinct f tx) (\<lambda>_.
            if fn_is_coinbase f tx then
              and_then (expect (get (tx_input tx) 0)) (\<lambda>input.
                let size' = length (script_sig input)
                in if \<not> (COINBASE_SCRIPT_SIG_SIZE_MIN \<le> size' \<and> size' \<le> COINBASE_SCRIPT_SIG_SIZE_MAX)
                   then Err (CoinbaseLength size') else Ok ())
            else null_loop f 0 (tx_input tx))))))"

definition is_final :: "transaction \<Rightarrow> height \<Rightarrow> u32 \<Rightarrow> bool" where
  "is_final tx h cutoff =
     (let lock_time = tx_lock_time tx
      in if lock_time = 0 then True
      else let bound = (if lock_time < TX_LOCKTIME_THRESHOLD then h else unat cutoff)
      in if unat lock_time < bound then True
      else list_all (\<lambda>input. sequence_no input = TX_SEQUENCE_FINAL) (tx_input tx))"

fun sigop_sum :: "script list \<Rightarrow> nat \<Rightarrow> ('e, nat) res" where
  "sigop_sum [] count = Ok count"
| "sigop_sum (script # ss) count =
     and_then (sigop_count script Inaccurate) (\<lambda>n. and_then (u64_add count n) (\<lambda>count. sigop_sum ss count))"

definition legacy_sigop_count :: "tx_fns \<Rightarrow> transaction \<Rightarrow> ('e, nat) res" where
  "legacy_sigop_count f tx =
     and_then (sigop_sum (map script_sig (tx_input tx)) 0) (\<lambda>count.
     and_then (sigop_sum (map script_pubkey (tx_output tx)) count) (\<lambda>count.
     and_then (base_size f tx) (\<lambda>base.
     and_then (u64_mul 20 base) (\<lambda>limit. ensure (count \<le> limit) (Ok count)))))"

subsection \<open>The rules over the spent coins\<close>

datatype tx_inputs_error =
    PrematureCoinbaseSpend nat nat
  | InputValuesOutOfRange nat
  | InBelowOut nat nat

fun value_out_loop :: "txout list \<Rightarrow> nat \<Rightarrow> ('e, nat) res" where
  "value_out_loop [] acc = Ok acc"
| "value_out_loop (output # outs) acc =
     and_then (u64_add acc (unat (value_sat output))) (\<lambda>acc. ensure (acc \<le> MAX_MONEY) (value_out_loop outs acc))"

definition value_out :: "transaction \<Rightarrow> ('e, nat) res" where
  "value_out tx = value_out_loop (tx_output tx) 0"

fun inputs_loop :: "nat \<Rightarrow> (txin \<times> coin) list \<Rightarrow> height \<Rightarrow> nat \<Rightarrow> (tx_inputs_error, nat) res" where
  "inputs_loop input [] spend_height value_in = Ok value_in"
| "inputs_loop input ((txin, c) # rest) spend_height value_in =
     ensure (coin_outpoint c = previous_output txin) (ensure (coin_height c \<le> spend_height)
       (let depth = spend_height - coin_height c
        in if coin_coinbase c \<and> depth < COINBASE_MATURITY then Err (PrematureCoinbaseSpend input depth)
        else let v = unat (value_sat (coin_output c))
        in if MAX_MONEY < v then Err (InputValuesOutOfRange input)
        else and_then (u64_add value_in v) (\<lambda>value_in.
          if MAX_MONEY < value_in then Err (InputValuesOutOfRange input)
          else inputs_loop (input + 1) rest spend_height value_in)))"

definition check_tx_inputs :: "tx_fns \<Rightarrow> transaction \<Rightarrow> coin list \<Rightarrow> height \<Rightarrow> (tx_inputs_error, nat) res" where
  "check_tx_inputs f tx coins spend_height =
     ensure (\<not> fn_is_coinbase f tx) (ensure (length coins = length (tx_input tx))
       (and_then (inputs_loop 0 (zip (tx_input tx) coins) spend_height 0) (\<lambda>value_in.
        and_then (value_out tx) (\<lambda>out.
          if value_in < out then Err (InBelowOut value_in out)
          else let fee = value_in - out in ensure (fee \<le> MAX_MONEY) (Ok fee)))))"

record relative_lock_base =
  base_height :: height
  base_median_time_past :: "u32 option"

definition bip68_applies :: "transaction \<Rightarrow> bool" where
  "bip68_applies tx \<longleftrightarrow> 2 \<le> tx_version tx mod 2 ^ 32"

text \<open>The additions stay below \<open>2 ^ 63\<close>: a time or a height is below \<open>2 ^ 32\<close> and the shifted value
  below \<open>2 ^ 25\<close>.\<close>

fun sequence_lock_loop :: "(txin \<times> relative_lock_base) list \<Rightarrow> int \<Rightarrow> int \<Rightarrow> ('e, int \<times> int) res" where
  "sequence_lock_loop [] height_min time_min = Ok (height_min, time_min)"
| "sequence_lock_loop ((input, base) # rest) height_min time_min =
     (let sequence = sequence_no input
      in if sequence AND TX_SEQUENCE_LOCKTIME_DISABLE_FLAG \<noteq> 0 then sequence_lock_loop rest height_min time_min
      else let v = uint (sequence AND TX_SEQUENCE_LOCKTIME_MASK)
      in ensure (v \<le> 0xffff)
        (if sequence AND TX_SEQUENCE_LOCKTIME_TYPE_FLAG \<noteq> 0 then
           and_then (expect (base_median_time_past base)) (\<lambda>coin_time.
             let lock = uint coin_time + push_bit SEQUENCE_LOCKTIME_GRANULARITY v - 1
             in sequence_lock_loop rest height_min (max time_min lock))
         else let lock = int (base_height base) + v - 1
              in sequence_lock_loop rest (max height_min lock) time_min))"

definition sequence_locks_satisfied :: "transaction \<Rightarrow> relative_lock_base list \<Rightarrow> block_context \<Rightarrow> ('e, bool) res" where
  "sequence_locks_satisfied tx bases ctx =
     ensure (length bases = length (tx_input tx))
       (if \<not> bip68_applies tx \<or> \<not> csv_active (ctx_rules ctx) then Ok True
        else and_then (sequence_lock_loop (zip (tx_input tx) bases) (-1) (-1)) (\<lambda>(height_min, time_min).
          Ok (height_min < int (ctx_height ctx) \<and> time_min < uint (ctx_median_time_past ctx))))"

fun spend_cost_loop :: "(txin \<times> txout) list \<Rightarrow> script_flags \<Rightarrow> nat \<Rightarrow> ('e, nat) res" where
  "spend_cost_loop [] flags cost = Ok cost"
| "spend_cost_loop ((input, prevout) # rest) flags cost =
     and_then
       (if flags_contains flags FLAG_P2SH then
          and_then (p2sh_sigop_count (script_pubkey prevout) (script_sig input)) (\<lambda>n.
          and_then (u64_mul n WITNESS_SCALE_FACTOR) (\<lambda>n. u64_add cost n))
        else Ok cost) (\<lambda>cost.
     and_then (witness_sigop_count (script_sig input) (script_pubkey prevout) (witness input) flags) (\<lambda>n.
     and_then (u64_add cost n) (\<lambda>cost. spend_cost_loop rest flags cost)))"

definition sigop_cost :: "tx_fns \<Rightarrow> transaction \<Rightarrow> txout list \<Rightarrow> script_flags \<Rightarrow> ('e, nat) res" where
  "sigop_cost f tx prevouts flags =
     and_then (legacy_sigop_count f tx) (\<lambda>count.
     and_then (u64_mul count WITNESS_SCALE_FACTOR) (\<lambda>cost.
       if fn_is_coinbase f tx then ensure (prevouts = []) (Ok cost)
       else ensure (length prevouts = length (tx_input tx)) (spend_cost_loop (zip (tx_input tx) prevouts) flags cost)))"

section \<open>Documented behaviour of the parameters\<close>

definition linear_fn :: "('a \<Rightarrow> 'a \<Rightarrow> bool) \<Rightarrow> bool" where
  "linear_fn le \<longleftrightarrow> (\<forall>x y. le x y \<or> le y x) \<and> (\<forall>x y. le x y \<and> le y x \<longrightarrow> x = y) \<and> (\<forall>x y z. le x y \<and> le y z \<longrightarrow> le x z)"

text \<open>A coinbase has one input and that input is null; the serialized sizes count at least the fixed
  fields and the bytes of every script, and with witnesses also those; outpoints and identifiers
  are totally ordered.\<close>

definition tx_fns_ok :: "tx_fns \<Rightarrow> bool" where
  "tx_fns_ok f \<longleftrightarrow>
     (\<forall>tx. fn_is_coinbase f tx \<longleftrightarrow> length (tx_input tx) = 1 \<and> fn_is_null f (previous_output (hd (tx_input tx)))) \<and>
     (\<forall>tx. 10 + sum_list (map (\<lambda>i. 41 + length (script_sig i)) (tx_input tx)) +
        sum_list (map (\<lambda>out. 9 + length (script_pubkey out)) (tx_output tx)) \<le> fn_base_size f tx) \<and>
     (\<forall>tx. fn_base_size f tx + sum_list (map (\<lambda>i. sum_list (map length (witness i))) (tx_input tx)) \<le> fn_total_size f tx) \<and>
     linear_fn (fn_outpoint_le f) \<and> linear_fn (fn_txid_le f) \<and>
     (\<forall>n. 1 \<le> fn_varint_size f n \<and> fn_varint_size f n \<le> 9)"

section \<open>Sorting\<close>

lemma insert_by_set [simp]: "set (insert_by le x xs) = insert x (set xs)"
  by (induction xs) auto

lemma sort_by_set [simp]: "set (sort_by le xs) = set xs"
  by (induction xs) auto

lemma insert_by_distinct [simp]: "distinct (insert_by le x xs) \<longleftrightarrow> x \<notin> set xs \<and> distinct xs"
  by (induction xs) auto

lemma sort_by_distinct [simp]: "distinct (sort_by le xs) = distinct xs"
  by (induction xs) auto

lemma insert_by_length [simp]: "length (insert_by le x xs) = Suc (length xs)"
  by (induction xs) auto

lemma sort_by_length [simp]: "length (sort_by le xs) = length xs"
  by (induction xs) auto

lemma insert_by_sorted: "linear_fn le \<Longrightarrow> sorted_wrt le xs \<Longrightarrow> sorted_wrt le (insert_by le x xs)"
proof (induction xs)
  case (Cons y ys)
  then have ys: "sorted_wrt le (insert_by le x ys)" and le: "\<forall>z\<in>set ys. le y z" by simp_all
  show ?case
  proof (cases "le x y")
    case True
    then have "le x z" if "z \<in> set ys" for z using le that Cons.prems(1) unfolding linear_fn_def by blast
    with True Cons.prems(2) show ?thesis by simp
  next
    case False
    then have "le y x" using Cons.prems(1) unfolding linear_fn_def by blast
    with False ys le show ?thesis by simp
  qed
qed simp

lemma sort_by_sorted: "linear_fn le \<Longrightarrow> sorted_wrt le (sort_by le xs)"
  by (induction xs) (simp_all add: insert_by_sorted)

lemma sorted_head_distinct:
  assumes "linear_fn le" and "sorted_wrt le (x # y # ys)" and "x \<noteq> y"
  shows "x \<notin> set (y # ys)"
proof
  assume "x \<in> set (y # ys)"
  with assms(2,3) have "x \<in> set ys" "le y x" "le x y" by auto
  with assms(1,3) show False unfolding linear_fn_def by blast
qed

lemma distinct_windows_sorted:
  "linear_fn le \<Longrightarrow> sorted_wrt le xs \<Longrightarrow>
     distinct_windows le xs \<noteq> Panic \<and> (distinct_windows le xs = Ok () \<longleftrightarrow> distinct xs)"
proof (induction le xs rule: distinct_windows.induct)
  case (1 le x y rest)
  show ?case
  proof (cases "x = y")
    case False
    with 1 have "x \<notin> set (y # rest)" by (intro sorted_head_distinct)
    with 1 False show ?thesis by simp
  qed (use 1 in simp)
qed simp_all

section \<open>The context-free rules decided\<close>

lemma sign_bit_big: "v AND push_bit 63 1 \<noteq> 0 \<Longrightarrow> 2 ^ 63 \<le> unat (v :: u64)"
proof -
  assume a: "v AND push_bit 63 1 \<noteq> 0"
  have n: "bit (push_bit 63 1 :: u64) n \<longleftrightarrow> n = 63" for n
    unfolding bit_push_bit_iff bit_1_iff by auto
  have "bit v 63"
  proof (rule ccontr)
    assume "\<not> bit v 63"
    then have "v AND push_bit 63 1 = 0"
      by (intro bit_eqI) (metis bit_and_iff n bit_0_eq bot_apply bot_bool_def)
    with a show False by blast
  qed
  then have "bit (uint v) 63" by (simp add: bit_uint_iff)
  then have "uint v div 2 ^ 63 \<noteq> 0" by (metis bit_iff_odd even_zero)
  then have "\<not> uint v < 2 ^ 63" by (metis div_pos_pos_trivial uint_ge_0)
  then show ?thesis by (metis linorder_not_less of_nat_less_iff of_nat_numeral of_nat_power of_nat_unat)
qed

abbreviation outputs_total :: "txout list \<Rightarrow> nat" where
  "outputs_total outs \<equiv> sum_list (map (\<lambda>out. unat (value_sat out)) outs)"

lemma output_values_loop_spec:
  "acc \<le> MAX_MONEY \<Longrightarrow> output_values_loop index acc outs \<noteq> Panic \<and>
     (\<forall>n. output_values_loop index acc outs = Ok n \<longleftrightarrow> n = acc + outputs_total outs \<and> n \<le> MAX_MONEY)"
proof (induction outs arbitrary: index acc)
  case (Cons out outs)
  let ?v = "unat (value_sat out)"
  show ?case
  proof (cases "MAX_MONEY < ?v \<or> MAX_MONEY < acc + ?v")
    case True
    have "acc + ?v < 2 ^ 64" if "?v \<le> MAX_MONEY" using that Cons.prems by simp
    with True Cons.prems show ?thesis
      by (auto simp: Let_def u64_add_def ensure_def)
  next
    case False
    then have "value_sat out AND push_bit 63 1 = 0" using sign_bit_big [of "value_sat out"] by force
    with False Cons.prems Cons.IH [of "acc + ?v" "index + 1"] show ?thesis
      by (simp add: Let_def u64_add_def) (simp add: add.assoc)
  qed
qed auto

lemma check_output_values_spec:
  assumes "tx_output tx \<noteq> []"
  shows "check_output_values tx \<noteq> Panic" and "check_output_values tx = Ok () \<longleftrightarrow> outputs_total (tx_output tx) \<le> MAX_MONEY"
  using output_values_loop_spec [of 0 0 "tx_output tx"] assms
  by (auto simp: check_output_values_def and_then_eq_Panic ensure_def)

lemma null_loop_spec:
  "null_loop f index ins \<noteq> Panic \<and> (null_loop f index ins = Ok () \<longleftrightarrow> list_all (\<lambda>i. \<not> fn_is_null f (previous_output i)) ins)"
  by (induction f index ins rule: null_loop.induct) auto

definition valid_tx :: "tx_fns \<Rightarrow> transaction \<Rightarrow> bool" where
  "valid_tx f tx \<longleftrightarrow> tx_input tx \<noteq> [] \<and> tx_output tx \<noteq> [] \<and> fn_base_size f tx \<le> 1000000 \<and>
     outputs_total (tx_output tx) \<le> MAX_MONEY \<and> distinct (map previous_output (tx_input tx)) \<and>
     (if fn_is_coinbase f tx then 2 \<le> length (script_sig (hd (tx_input tx))) \<and> length (script_sig (hd (tx_input tx))) \<le> 100
      else list_all (\<lambda>i. \<not> fn_is_null f (previous_output i)) (tx_input tx))"

lemma check_tx_spec:
  assumes f: "tx_fns_ok f" and small: "fn_base_size f tx < 2 ^ 62"
  shows "check_tx f tx \<noteq> Panic \<and> (check_tx f tx = Ok () \<longleftrightarrow> valid_tx f tx)"
proof (cases "tx_input tx = [] \<or> tx_output tx = [] \<or> 1000000 < fn_base_size f tx")
  case True
  with small show ?thesis
    by (auto simp: check_tx_def valid_tx_def base_size_def u64_mul_def)
next
  case False
  then have ne: "tx_input tx \<noteq> []" "tx_output tx \<noteq> []" and le: "fn_base_size f tx \<le> 1000000" by auto
  have lin: "linear_fn (fn_outpoint_le f)" using f by (simp add: tx_fns_ok_def)
  note d = distinct_windows_sorted [OF lin sort_by_sorted [OF lin], of "map previous_output (tx_input tx)"]
  have c: "check_inputs_distinct f tx \<noteq> Panic" "check_inputs_distinct f tx = Ok () \<longleftrightarrow> distinct (map previous_output (tx_input tx))"
    using d ne by (simp_all add: check_inputs_distinct_def)
  have hd: "get (tx_input tx) 0 = Some (hd (tx_input tx))" using ne by (simp add: get_def hd_conv_nth)
  show ?thesis
    using ne le small c null_loop_spec [of f 0 "tx_input tx"] check_output_values_spec [OF ne(2)]
    by (auto simp: check_tx_def valid_tx_def base_size_def u64_mul_def and_then_eq_Panic hd Let_def ensure_def)
qed


section \<open>The rules over the coins decided\<close>

lemma value_out_loop_ok:
  "acc + outputs_total outs \<le> MAX_MONEY \<Longrightarrow> value_out_loop outs acc = (Ok (acc + outputs_total outs) :: ('e, _) res)"
proof (induction outs arbitrary: acc)
  case (Cons out outs)
  then show ?case using Cons.IH [of "acc + unat (value_sat out)"] by (simp add: u64_add_def add.assoc)
qed simp

lemma value_out_ok: "outputs_total (tx_output tx) \<le> MAX_MONEY \<Longrightarrow> value_out tx = (Ok (outputs_total (tx_output tx)) :: ('e, _) res)"
  using value_out_loop_ok [of 0 "tx_output tx", where 'e = 'e] by (simp add: value_out_def)

definition mature :: "height \<Rightarrow> coin \<Rightarrow> bool" where
  "mature spend_height c \<longleftrightarrow> (coin_coinbase c \<longrightarrow> coin_height c + 100 \<le> spend_height)"

abbreviation coins_total :: "coin list \<Rightarrow> nat" where
  "coins_total cs \<equiv> sum_list (map (\<lambda>c. unat (value_sat (coin_output c))) cs)"

lemma inputs_loop_spec:
  assumes "list_all2 (\<lambda>i c. coin_outpoint c = previous_output i \<and> coin_height c \<le> h) ins coins" and "acc \<le> MAX_MONEY"
  shows "inputs_loop index (zip ins coins) h acc \<noteq> Panic \<and>
     (\<forall>n. inputs_loop index (zip ins coins) h acc = Ok n \<longleftrightarrow> list_all (mature h) coins \<and> n = acc + coins_total coins \<and> n \<le> MAX_MONEY)"
  using assms
proof (induction ins coins arbitrary: index acc rule: list_all2_induct)
  case (Cons i ins c coins)
  let ?v = "unat (value_sat (coin_output c))"
  have m: "mature h c \<longleftrightarrow> \<not> (coin_coinbase c \<and> h - coin_height c < 100)"
    using Cons.hyps(1) by (auto simp: mature_def)
  have "acc + ?v < 2 ^ 64" if "?v \<le> MAX_MONEY" using that Cons.prems by simp
  with Cons.hyps(1) Cons.prems Cons.IH [of "acc + ?v" "index + 1"] m show ?case
    by (cases "acc + ?v \<le> MAX_MONEY") (auto simp: Let_def u64_add_def add.assoc)
qed auto

lemma check_tx_inputs_spec:
  assumes "\<not> fn_is_coinbase f tx" and "outputs_total (tx_output tx) \<le> MAX_MONEY"
    and "list_all2 (\<lambda>i c. coin_outpoint c = previous_output i \<and> coin_height c \<le> h) (tx_input tx) coins"
  shows "check_tx_inputs f tx coins h \<noteq> Panic \<and>
    (\<forall>fee. check_tx_inputs f tx coins h = Ok fee \<longleftrightarrow>
       list_all (mature h) coins \<and> coins_total coins \<le> MAX_MONEY \<and> outputs_total (tx_output tx) + fee = coins_total coins)"
proof -
  let ?r = "inputs_loop 0 (zip (tx_input tx) coins) h 0"
  have r: "?r \<noteq> Panic" "\<And>n. ?r = Ok n \<longleftrightarrow> list_all (mature h) coins \<and> n = coins_total coins \<and> n \<le> MAX_MONEY"
    using inputs_loop_spec [OF assms(3), of 0 0] by auto
  have len: "length coins = length (tx_input tx)" using assms(3) list_all2_lengthD by fastforce
  show ?thesis
  proof (cases ?r)
    case (Ok n)
    with r(2) have n: "n = coins_total coins" "n \<le> MAX_MONEY" "list_all (mature h) coins" by auto
    then show ?thesis
      using Ok assms(1,2) len by (auto simp: check_tx_inputs_def value_out_ok Let_def ensure_def)
  next
    case (Err e)
    then have "\<And>n. ?r \<noteq> Ok n" by simp
    with r(2) Err show ?thesis
      using assms(1) len by (auto simp: check_tx_inputs_def)
  qed (use r in simp)
qed

text \<open>BIP68, input by input: the lock is disabled, or the coin is old enough in blocks or in units of
  512 seconds.\<close>

definition time_locked :: "txin \<Rightarrow> bool" where
  "time_locked i \<longleftrightarrow> \<not> bit (sequence_no i) 31 \<and> bit (sequence_no i) 22"

definition relative_lock_ok :: "block_context \<Rightarrow> txin \<Rightarrow> relative_lock_base \<Rightarrow> bool" where
  "relative_lock_ok ctx i base \<longleftrightarrow> bit (sequence_no i) 31 \<or>
     (let v = unat (sequence_no i) mod 2 ^ 16
      in if bit (sequence_no i) 22 then unat (the (base_median_time_past base)) + 512 * v \<le> unat (ctx_median_time_past ctx)
         else base_height base + v \<le> ctx_height ctx)"

lemma and_flag_bit: "w AND push_bit n 1 \<noteq> 0 \<longleftrightarrow> bit (w :: u32) n"
  by (metis and_exp_eq_0_iff_not_bit push_bit_of_1)

lemma and_flag_bits:
  "sequence AND 0x80000000 \<noteq> 0 \<longleftrightarrow> bit (sequence :: u32) 31" "sequence AND 0x400000 \<noteq> 0 \<longleftrightarrow> bit sequence 22"
  using and_flag_bit [of sequence 31] and_flag_bit [of sequence 22] by simp_all

lemma and_mask_16: "uint (sequence AND 0xffff :: u32) = int (unat sequence mod 2 ^ 16)"
proof -
  have "sequence AND 0xffff = take_bit 16 sequence"
    by (simp add: take_bit_eq_mask mask_eq_exp_minus_1)
  then have "uint (sequence AND 0xffff) = take_bit 16 (uint sequence)"
    by (simp only: unsigned_take_bit_eq)
  moreover have "uint sequence = int (unat sequence)" by simp
  ultimately show ?thesis by (simp only: take_bit_eq_mod of_nat_mod of_nat_power of_nat_numeral)
qed

lemma lock_below: "max (m :: int) (int b + int v - 1) < int h \<longleftrightarrow> m < int h \<and> b + v \<le> h"
  by auto

lemma sequence_lock_loop_spec:
  assumes "\<And>i base. (i, base) \<in> set ps \<Longrightarrow> time_locked i \<Longrightarrow> base_median_time_past base \<noteq> None"
  shows "\<exists>a b. sequence_lock_loop ps hm tm = (Ok (a, b) :: ('e, _) res) \<and>
    (a < int (ctx_height ctx) \<and> b < uint (ctx_median_time_past ctx) \<longleftrightarrow>
     hm < int (ctx_height ctx) \<and> tm < uint (ctx_median_time_past ctx) \<and> list_all (\<lambda>(i, base). relative_lock_ok ctx i base) ps)"
  using assms
proof (induction ps arbitrary: hm tm)
  case (Cons p ps)
  obtain i base where p: "p = (i, base)" by (cases p)
  define v where "v = unat (sequence_no i) mod 2 ^ 16"
  have v: "uint (sequence_no i AND 0xffff) = int v" "int v \<le> 0xffff"
    unfolding v_def and_mask_16 using mod_less_divisor [of "2 ^ 16" "unat (sequence_no i)"] by simp_all
  have IH: "\<exists>a b. sequence_lock_loop ps hm tm = (Ok (a, b) :: ('e, _) res) \<and>
    (a < int (ctx_height ctx) \<and> b < uint (ctx_median_time_past ctx) \<longleftrightarrow>
     hm < int (ctx_height ctx) \<and> tm < uint (ctx_median_time_past ctx) \<and> list_all (\<lambda>(i, base). relative_lock_ok ctx i base) ps)" for hm tm
    using Cons.prems by (intro Cons.IH) auto
  consider "bit (sequence_no i) 31" | "\<not> bit (sequence_no i) 31" "\<not> bit (sequence_no i) 22" |
    "\<not> bit (sequence_no i) 31" "bit (sequence_no i) 22" by blast
  then show ?case
  proof cases
    case 1
    with IH [of hm tm] show ?thesis by (simp add: p and_flag_bits relative_lock_ok_def)
  next
    case 2
    then have "relative_lock_ok ctx i base \<longleftrightarrow> base_height base + v \<le> ctx_height ctx"
      by (simp add: relative_lock_ok_def v_def)
    with 2 IH [of "max hm (int (base_height base) + int v - 1)" tm] v show ?thesis
      unfolding lock_below by (simp add: p and_flag_bits Let_def conj_ac)
  next
    case 3
    then obtain t where t: "base_median_time_past base = Some t"
      using Cons.prems [of i base] by (auto simp: p time_locked_def)
    then have "relative_lock_ok ctx i base \<longleftrightarrow> unat t + 512 * v \<le> unat (ctx_median_time_past ctx)"
      using 3 by (simp add: relative_lock_ok_def v_def)
    moreover have "uint t + push_bit 9 (int v) - 1 = int (unat t) + int (512 * v) - 1" by (simp add: push_bit_eq_mult)
    moreover have "uint (ctx_median_time_past ctx) = int (unat (ctx_median_time_past ctx))" by simp
    ultimately show ?thesis
      using 3 t v IH [of hm "max tm (int (unat t) + int (512 * v) - 1)"] lock_below [of tm "unat t" "512 * v" "unat (ctx_median_time_past ctx)"]
      by (simp add: p and_flag_bits Let_def conj_ac del: of_nat_unat of_nat_mult)
  qed
qed simp

lemma sequence_locks_spec:
  assumes "length bases = length (tx_input tx)"
    and "\<And>i base. (i, base) \<in> set (zip (tx_input tx) bases) \<Longrightarrow> bip68_applies tx \<Longrightarrow> time_locked i \<Longrightarrow> base_median_time_past base \<noteq> None"
  shows "sequence_locks_satisfied tx bases ctx =
    (Ok (bip68_applies tx \<and> csv_active (ctx_rules ctx) \<longrightarrow> list_all2 (relative_lock_ok ctx) (tx_input tx) bases) :: ('e, _) res)"
proof (cases "bip68_applies tx \<and> csv_active (ctx_rules ctx)")
  case True
  then obtain a b where "sequence_lock_loop (zip (tx_input tx) bases) (-1) (-1) = (Ok (a, b) :: ('e, _) res)"
    "a < int (ctx_height ctx) \<and> b < uint (ctx_median_time_past ctx) \<longleftrightarrow>
     -1 < int (ctx_height ctx) \<and> -1 < uint (ctx_median_time_past ctx) \<and>
     list_all (\<lambda>(i, base). relative_lock_ok ctx i base) (zip (tx_input tx) bases)"
    using sequence_lock_loop_spec [of "zip (tx_input tx) bases" "-1" "-1" ctx, where 'e = 'e] assms(2) by blast
  moreover have "-1 < uint (ctx_median_time_past ctx)" using uint_ge_0 [of "ctx_median_time_past ctx"] by linarith
  moreover have "list_all2 (relative_lock_ok ctx) (tx_input tx) bases \<longleftrightarrow>
      list_all (\<lambda>(i, base). relative_lock_ok ctx i base) (zip (tx_input tx) bases)"
    using assms(1) by (simp add: list_all2_iff list_all_iff)
  ultimately show ?thesis
    using True assms(1) by (simp add: sequence_locks_satisfied_def)
qed (use assms(1) in \<open>auto simp: sequence_locks_satisfied_def\<close>)

section \<open>Signature operation cost\<close>

lemma holds_bind: "holds r P \<Longrightarrow> (\<And>a. P a \<Longrightarrow> holds (f a) Q) \<Longrightarrow> holds (and_then r f) Q"
  by (simp add: holds_and_then holds_mono)

abbreviation script_ops :: "script \<Rightarrow> nat" where
  "script_ops s \<equiv> scan_cost Inaccurate 0xff (opcodes_from (reader_new s))"

lemma sigop_sum_ok:
  assumes "acc + 20 * sum_list (map length ss) < 2 ^ 32"
  shows "sigop_sum ss acc = (Ok (acc + sum_list (map script_ops ss)) :: ('e, _) res) \<and>
    sum_list (map script_ops ss) \<le> 20 * sum_list (map length ss)"
  using assms
proof (induction ss arbitrary: acc)
  case (Cons s ss)
  then have l: "20 * length s < 2 ^ 32" by simp
  note s = sigop_count_ok(1) [OF l, of Inaccurate, where 'e = 'e] sigop_count_ok(2) [OF l, of Inaccurate]
  have "acc + script_ops s + 20 * sum_list (map length ss) < 2 ^ 32" using s(2) Cons.prems by simp
  note IH = Cons.IH [OF this]
  have "acc + script_ops s < 2 ^ 64" using s(2) Cons.prems by simp
  with IH s show ?case by (simp add: u64_add_def add.assoc)
qed simp

definition legacy_ops :: "transaction \<Rightarrow> nat" where
  "legacy_ops tx = sum_list (map script_ops (map script_sig (tx_input tx))) + sum_list (map script_ops (map script_pubkey (tx_output tx)))"

lemma sum_offset_le: "sum_list (map g xs) \<le> sum_list (map (\<lambda>x. (k :: nat) + g x) xs)"
  by (induction xs) auto

lemma script_bytes_le:
  assumes "tx_fns_ok f"
  shows "sum_list (map length (map script_sig (tx_input tx))) + sum_list (map length (map script_pubkey (tx_output tx))) \<le> fn_base_size f tx"
proof -
  have "10 + sum_list (map (\<lambda>i. 41 + length (script_sig i)) (tx_input tx)) +
      sum_list (map (\<lambda>out. 9 + length (script_pubkey out)) (tx_output tx)) \<le> fn_base_size f tx"
    using assms by (simp add: tx_fns_ok_def)
  then show ?thesis
    using sum_offset_le [of "\<lambda>i. length (script_sig i)" "tx_input tx" 41] sum_offset_le [of "\<lambda>out. length (script_pubkey out)" "tx_output tx" 9]
    by (simp add: o_def)
qed

lemma legacy_sigop_count_ok:
  assumes "tx_fns_ok f" and "fn_base_size f tx \<le> 4000000"
  shows "legacy_sigop_count f tx = (Ok (legacy_ops tx) :: ('e, _) res)" and "legacy_ops tx \<le> 20 * fn_base_size f tx"
proof -
  let ?i = "map script_sig (tx_input tx)" and ?o = "map script_pubkey (tx_output tx)"
  note b = script_bytes_le [OF assms(1), of tx]
  have "0 + 20 * sum_list (map length ?i) < 2 ^ 32" using b assms(2) by simp
  note i = sigop_sum_ok [OF this, where 'e = 'e]
  have "sum_list (map script_ops ?i) + 20 * sum_list (map length ?o) < 2 ^ 32" using i b assms(2) by simp
  note outs = sigop_sum_ok [OF this, where 'e = 'e]
  show le: "legacy_ops tx \<le> 20 * fn_base_size f tx"
    unfolding legacy_ops_def using i outs b by linarith
  have "sum_list (map script_ops ?i) + sum_list (map script_ops ?o) = legacy_ops tx" by (simp add: legacy_ops_def)
  with i outs le assms(2) show "legacy_sigop_count f tx = (Ok (legacy_ops tx) :: ('e, _) res)"
    by (simp add: legacy_sigop_count_def base_size_def u64_mul_def)
qed

lemma holds_u64_add [outcome]: "holds (u64_add a b) P \<longleftrightarrow> a + b < 2 ^ 64 \<and> P (a + b)"
  by (simp add: u64_add_def holds_ensure)

lemma holds_u64_mul [outcome]: "holds (u64_mul a b) P \<longleftrightarrow> a * b < 2 ^ 64 \<and> P (a * b)"
  by (simp add: u64_mul_def holds_ensure)

definition input_weight :: "txin \<Rightarrow> nat" where
  "input_weight i = 80 * length (script_sig i) + 20 * wit_max (witness i) + 1"

lemma spend_cost_loop_bound:
  assumes "flags_nested flags" and "\<And>i out. (i, out) \<in> set ps \<Longrightarrow> input_weight i < 2 ^ 32"
    and "cost + sum_list (map (input_weight \<circ> fst) ps) < 2 ^ 64"
  shows "holds (spend_cost_loop ps flags cost :: ('e, _) res) (\<lambda>n. n \<le> cost + sum_list (map (input_weight \<circ> fst) ps))"
  using assms(2,3)
proof (induction ps arbitrary: cost)
  case (Cons p ps)
  obtain i out where p: "p = (i, out)" by (cases p)
  have w: "input_weight i < 2 ^ 32" using Cons.prems(1) [of i out] by (simp add: p)
  have l: "20 * length (script_sig i) < 2 ^ 32" "length (script_sig i) < 2 ^ 32" "20 * wit_max (witness i) < 2 ^ 32"
    using w by (simp_all add: input_weight_def)
  have rest: "holds (spend_cost_loop ps flags c :: ('e, _) res) (\<lambda>n. n \<le> cost + sum_list (map (input_weight \<circ> fst) (p # ps)))"
    if "c \<le> cost + input_weight i" for c
    by (rule holds_mono [OF Cons.IH]) (use Cons.prems that in \<open>auto simp: p o_def\<close>)
  define K :: "nat \<Rightarrow> ('e, nat) res" where "K = (\<lambda>c. and_then (witness_sigop_count (script_sig i) (script_pubkey out) (witness i) flags) (\<lambda>n.
      and_then (u64_add c n) (\<lambda>c. spend_cost_loop ps flags c)))"
  have wit: "holds (K c) (\<lambda>n. n \<le> cost + sum_list (map (input_weight \<circ> fst) (p # ps)))"
    if "c \<le> cost + 80 * length (script_sig i)" for c
    unfolding K_def holds_and_then holds_u64_add
    by (rule holds_mono [OF witness_sigop_count_bound [OF l(2,3) assms(1)]])
      (use Cons.prems(2) that rest in \<open>auto simp: p input_weight_def\<close>)
  have "80 * length (script_sig i) + cost < 2 ^ 64" using Cons.prems(2) by (simp add: p input_weight_def)
  then have "holds (and_then (p2sh_sigop_count (script_pubkey out) (script_sig i)) (\<lambda>n.
      and_then (u64_mul n 4) (\<lambda>n. u64_add cost n)) :: ('e, _) res) (\<lambda>c. c \<le> cost + 80 * length (script_sig i))"
    unfolding holds_and_then holds_u64_mul holds_u64_add
    by (intro holds_mono [OF p2sh_sigop_count_bound [OF l(1)]]) auto
  then have "holds ((if flags_contains flags FLAG_P2SH then and_then (p2sh_sigop_count (script_pubkey out) (script_sig i)) (\<lambda>n.
      and_then (u64_mul n 4) (\<lambda>n. u64_add cost n)) else Ok cost) :: ('e, _) res) (\<lambda>c. c \<le> cost + 80 * length (script_sig i))"
    by simp
  from holds_bind [OF this wit] show ?case unfolding p spend_cost_loop.simps K_def .
qed simp

lemma wit_max_le: "wit_max wit \<le> sum_list (map length wit)"
  by (cases "wit = []") (auto simp: wit_max_def intro: member_le_sum_list)

lemma input_weight_total:
  assumes "tx_fns_ok f"
  shows "sum_list (map input_weight (tx_input tx)) \<le> 80 * fn_total_size f tx"
proof -
  have le: "input_weight i \<le> 80 * (41 + length (script_sig i)) + 80 * sum_list (map length (witness i))" for i
    using wit_max_le [of "witness i"] by (simp add: input_weight_def)
  have all: "sum_list (map input_weight xs) \<le>
      80 * sum_list (map (\<lambda>i. 41 + length (script_sig i)) xs) + 80 * sum_list (map (\<lambda>i. sum_list (map length (witness i))) xs)" for xs
  proof (induction xs)
    case (Cons i xs)
    then show ?case using le [of i] by simp
  qed simp
  have "10 + sum_list (map (\<lambda>i. 41 + length (script_sig i)) (tx_input tx)) +
      sum_list (map (\<lambda>out. 9 + length (script_pubkey out)) (tx_output tx)) \<le> fn_base_size f tx"
    "fn_base_size f tx + sum_list (map (\<lambda>i. sum_list (map length (witness i))) (tx_input tx)) \<le> fn_total_size f tx"
    using assms unfolding tx_fns_ok_def by blast+
  with all [of "tx_input tx"] show ?thesis by linarith
qed

lemma sigop_cost_ok:
  assumes f: "tx_fns_ok f" and total: "fn_total_size f tx \<le> 4000000" and "flags_nested flags"
    and "if fn_is_coinbase f tx then prevouts = [] else length prevouts = length (tx_input tx)"
  shows "holds (sigop_cost f tx prevouts flags :: ('e, _) res) (\<lambda>n. n \<le> 160 * fn_total_size f tx)"
proof -
  have bt: "fn_base_size f tx \<le> fn_total_size f tx" using f by (auto simp: tx_fns_ok_def dest: add_leE)
  then have b: "fn_base_size f tx \<le> 4000000" using total by linarith
  note l = legacy_sigop_count_ok(1) [OF f b, where 'e = 'e] legacy_sigop_count_ok(2) [OF f b]
  have w: "sum_list (map input_weight (tx_input tx)) \<le> 80 * fn_total_size f tx" by (rule input_weight_total [OF f])
  have each: "input_weight i < 2 ^ 32" if "i \<in> set (tx_input tx)" for i
    using member_le_sum_list [of "input_weight i" "map input_weight (tx_input tx)"] that w total by simp
  have "holds (spend_cost_loop (zip (tx_input tx) prevouts) flags (legacy_ops tx * 4) :: ('e, _) res)
      (\<lambda>n. n \<le> legacy_ops tx * 4 + sum_list (map input_weight (tx_input tx)))" if "length prevouts = length (tx_input tx)"
  proof -
    have "map (input_weight \<circ> fst) (zip (tx_input tx) prevouts) = map input_weight (tx_input tx)"
      using that by (metis map_fst_zip map_map)
    with spend_cost_loop_bound [OF assms(3), of "zip (tx_input tx) prevouts" "legacy_ops tx * 4", where 'e = 'e] that l(2) b w total
    show ?thesis using each by (auto dest: set_zip_leftD)
  qed
  with l assms(4) bt b w total show ?thesis
    by (auto simp: sigop_cost_def u64_mul_def elim!: holds_mono split: if_splits)
qed

section \<open>Coin records\<close>

text \<open>Consensus encodings name what they encode; an outpoint takes 36 bytes.\<close>

definition coin_encoders_ok :: "encoders \<Rightarrow> bool" where
  "coin_encoders_ok enc \<longleftrightarrow>
     (\<forall>a b. length (op_txid a) = 32 \<longrightarrow> length (op_txid b) = 32 \<longrightarrow>
        length (enc_outpoint enc a) = 36 \<and> (enc_outpoint enc a = enc_outpoint enc b \<longrightarrow> a = b)) \<and>
     inj (enc_txout enc)"

definition wf_coin :: "coin \<Rightarrow> bool" where
  "wf_coin c \<longleftrightarrow> length (op_txid (coin_outpoint c)) = 32 \<and> coin_height c \<le> HEIGHT_MAX \<and>
     \<not> is_unspendable (script_pubkey (coin_output c))"

lemma height_code_parts:
  assumes "coin_height c \<le> HEIGHT_MAX"
  shows "drop_bit 1 (height_code c) = word_of_nat (coin_height c)" and "bit (height_code c) 0 = coin_coinbase c"
proof -
  have "\<not> bit (word_of_nat (coin_height c) :: u32) 31"
    using assms by (simp add: bit_of_nat_iff) (simp add: bit_iff_odd)
  then have hi: "n < 31" if "bit (word_of_nat (coin_height c) :: u32) n" for n
    using that bit_imp_le_length [OF that] by (cases "n = 31") auto
  show "drop_bit 1 (height_code c) = word_of_nat (coin_height c)"
    by (rule bit_word_eqI, unfold height_code_def bit_drop_bit_eq bit_or_iff bit_push_bit_iff) (auto dest: hi)
  show "bit (height_code c) 0 = coin_coinbase c"
    unfolding height_code_def bit_or_iff bit_push_bit_iff by simp
qed

lemma hash_record_ok:
  assumes "coin_encoders_ok enc" and "wf_coin c"
  shows "hash_record enc c = (Ok (enc_outpoint enc (coin_outpoint c) @ le_bytes 4 (unat (height_code c)) @ enc_txout enc (coin_output c)) :: ('e, _) res)"
proof -
  have "drop_bit 1 (height_code c) = word_of_nat (coin_height c)" "length (enc_outpoint enc (coin_outpoint c)) = 36"
    "\<not> is_unspendable (script_pubkey (coin_output c))"
    using assms height_code_parts(1) [of c] by (auto simp: coin_encoders_ok_def wf_coin_def)
  then show ?thesis by (simp add: hash_record_def Let_def)
qed

lemma le_bytes_4_inj: "le_bytes 4 (unat a) = le_bytes 4 (unat (b :: u32)) \<Longrightarrow> a = b"
proof -
  assume "le_bytes 4 (unat a) = le_bytes 4 (unat b)"
  then have "unat a mod 256 ^ 4 = unat b mod 256 ^ 4" by (metis le_val_le_bytes)
  moreover have "unat w < 256 ^ 4" for w :: u32 using unsigned_less [of w, where 'a = nat] by simp
  ultimately show "a = b" by (simp add: word_unat_eq_iff)
qed

lemma le_bytes_8_inj: "le_bytes 8 (unat a) = le_bytes 8 (unat (b :: u64)) \<Longrightarrow> a = b"
proof -
  assume "le_bytes 8 (unat a) = le_bytes 8 (unat b)"
  then have "unat a mod 256 ^ 8 = unat b mod 256 ^ 8" by (metis le_val_le_bytes)
  moreover have "unat w < 256 ^ 8" for w :: u64 using unsigned_less [of w, where 'a = nat] by simp
  ultimately show "a = b" by (simp add: word_unat_eq_iff)
qed

lemma height_code_inj:
  assumes "coin_height c \<le> HEIGHT_MAX" and "coin_height d \<le> HEIGHT_MAX" and "height_code c = height_code d"
  shows "coin_height c = coin_height d \<and> coin_coinbase c = coin_coinbase d"
proof -
  have "(word_of_nat (coin_height c) :: u32) = word_of_nat (coin_height d)"
    using height_code_parts(1) assms by metis
  then have "unat (word_of_nat (coin_height c) :: u32) = unat (word_of_nat (coin_height d) :: u32)" by simp
  then have "coin_height c = coin_height d" using assms(1,2) by (simp add: unat_of_nat)
  with height_code_parts(2) assms show ?thesis by metis
qed

lemma hash_record_inj:
  assumes enc: "coin_encoders_ok enc" and c: "wf_coin c" and d: "wf_coin d"
    and eq: "hash_record enc c = (hash_record enc d :: ('e, _) res)"
  shows "c = d"
proof -
  let ?op = "\<lambda>c. enc_outpoint enc (coin_outpoint c)" and ?code = "\<lambda>c. le_bytes 4 (unat (height_code c))"
  have l: "length (?op c) = 36" "length (?op d) = 36" using enc c d by (auto simp: coin_encoders_ok_def wf_coin_def)
  have "?op c @ ?code c @ enc_txout enc (coin_output c) = ?op d @ ?code d @ enc_txout enc (coin_output d)"
    using eq by (simp add: hash_record_ok [OF enc c] hash_record_ok [OF enc d])
  with l have parts: "?op c = ?op d" "?code c = ?code d" "enc_txout enc (coin_output c) = enc_txout enc (coin_output d)"
    by simp_all
  have "coin_outpoint c = coin_outpoint d" using parts(1) enc c d by (auto simp: coin_encoders_ok_def wf_coin_def)
  moreover have "coin_output c = coin_output d" using parts(3) enc by (simp add: coin_encoders_ok_def inj_eq)
  moreover have "coin_height c = coin_height d \<and> coin_coinbase c = coin_coinbase d"
    using height_code_inj le_bytes_4_inj [OF parts(2)] c d by (simp add: wf_coin_def)
  ultimately show ?thesis by simp
qed

section \<open>A concrete instance of the parameters\<close>

definition sample_fns :: tx_fns where
  "sample_fns = \<lparr>
     fn_is_coinbase = (\<lambda>tx. length (tx_input tx) = 1 \<and> previous_output (hd (tx_input tx)) = \<lparr> op_txid = replicate 32 0, op_vout = 0xffffffff \<rparr>),
     fn_is_null = (\<lambda>p. p = \<lparr> op_txid = replicate 32 0, op_vout = 0xffffffff \<rparr>),
     fn_base_size = (\<lambda>tx. 10 + sum_list (map (\<lambda>i. 41 + length (script_sig i)) (tx_input tx)) +
       sum_list (map (\<lambda>out. 9 + length (script_pubkey out)) (tx_output tx))),
     fn_total_size = (\<lambda>tx. 10 + sum_list (map (\<lambda>i. 41 + length (script_sig i)) (tx_input tx)) +
       sum_list (map (\<lambda>out. 9 + length (script_pubkey out)) (tx_output tx)) +
       sum_list (map (\<lambda>i. sum_list (map length (witness i))) (tx_input tx))),
     fn_outpoint_le = (\<lambda>a b. if op_txid a = op_txid b then op_vout a \<le> op_vout b else lexordp_eq (op_txid a) (op_txid b)),
     fn_txid_le = lexordp_eq,
     fn_txid = (\<lambda>tx. take 32 (concat (map (\<lambda>i. op_txid (previous_output i)) (tx_input tx)) @ replicate 32 1)),
     fn_wtxid = (\<lambda>tx. replicate 32 2),
     fn_block_hash = (\<lambda>hdr. merkle_root hdr),
     fn_varint_size = (\<lambda>n. 1) \<rparr>"

lemma linear_lexordp: "linear_fn (lexordp_eq :: bytes \<Rightarrow> bytes \<Rightarrow> bool)"
  unfolding linear_fn_def using lexordp_eq_linear lexordp_eq_antisym lexordp_eq_trans by blast

lemma linear_outpoint:
  "linear_fn (\<lambda>a b. if op_txid a = op_txid b then op_vout a \<le> op_vout b else lexordp_eq (op_txid a) (op_txid (b :: outpoint)))"
proof -
  have l: "lexordp_eq x y \<or> lexordp_eq y x" "lexordp_eq x y \<and> lexordp_eq y x \<longrightarrow> x = y"
    "lexordp_eq x y \<and> lexordp_eq y z \<longrightarrow> lexordp_eq x z" for x y z :: bytes
    using linear_lexordp unfolding linear_fn_def by blast+
  show ?thesis
    unfolding linear_fn_def
  proof (intro conjI allI impI)
    fix a b c :: outpoint
    let ?le = "\<lambda>a b :: outpoint. if op_txid a = op_txid b then op_vout a \<le> op_vout b else lexordp_eq (op_txid a) (op_txid b)"
    show "?le a b \<or> ?le b a" using l(1) [of "op_txid a" "op_txid b"] by auto
    show "a = b" if "?le a b \<and> ?le b a" using that l(2) [of "op_txid a" "op_txid b"] by (auto split: if_splits intro: outpoint.equality)
    show "?le a c" if "?le a b \<and> ?le b c"
      using that l(2) [of "op_txid a" "op_txid b"] l(3) [of "op_txid a" "op_txid b" "op_txid c"]
      by (cases "op_txid a = op_txid b"; cases "op_txid b = op_txid c"; cases "op_txid a = op_txid c") auto
  qed
qed

lemma sample_fns_ok: "tx_fns_ok sample_fns"
proof -
  have lin: "linear_fn (fn_outpoint_le sample_fns)"
    unfolding sample_fns_def tx_fns.simps by (rule linear_outpoint)
  show ?thesis
    unfolding tx_fns_ok_def using lin linear_lexordp by (simp add: sample_fns_def)
qed

section \<open>Properties\<close>

text \<open>C5: \<open>check_tx\<close> never aborts and accepts exactly the well-formed transactions: inputs and outputs
  present, a base size within a block's, output values that sum to at most 21 million coins, no
  outpoint spent twice, and a coinbase script of 2 to 100 bytes or else no null outpoint.\<close>

theorem check_tx_verdict:
  assumes "tx_fns_ok f" and "fn_base_size f tx < 2 ^ 62"
  shows "check_tx f tx \<noteq> Panic \<and> (check_tx f tx = Ok () \<longleftrightarrow> valid_tx f tx)"
  by (rule check_tx_spec [OF assms])

definition sample_spend :: transaction where
  "sample_spend = sample_tx [sample_txin [0x51] 5] [\<lparr> value_sat = 30, script_pubkey = [0x51] \<rparr>]"

definition sample_coin :: coin where
  "sample_coin = \<lparr> coin_outpoint = previous_output (sample_txin [0x51] 5), coin_output = \<lparr> value_sat = 50, script_pubkey = [0x51] \<rparr>,
     coin_height = 7, coin_coinbase = True \<rparr>"

theorem check_tx_verdict_witness: "check_tx sample_fns sample_spend \<noteq> Panic \<and> valid_tx sample_fns sample_spend \<and> check_tx sample_fns sample_spend = Ok ()"
proof -
  have "valid_tx sample_fns sample_spend"
    by (simp add: valid_tx_def sample_fns_def sample_spend_def sample_tx_def sample_txin_def)
  moreover have "fn_base_size sample_fns sample_spend < 2 ^ 62"
    by (simp add: sample_fns_def sample_spend_def sample_tx_def sample_txin_def)
  ultimately show ?thesis using check_tx_verdict [OF sample_fns_ok] by blast
qed

text \<open>C2: the fee is conserved value: over one coin per input that exists at the spending height,
  \<open>check_tx_inputs\<close> never aborts, and it returns a fee exactly when every coinbase coin is a hundred
  blocks deep, the inputs sum to at most 21 million coins and inputs equal outputs plus the fee.\<close>

theorem fee_is_conserved:
  assumes "tx_fns_ok f" and "check_tx f tx = Ok ()" and "fn_base_size f tx < 2 ^ 62" and "\<not> fn_is_coinbase f tx"
    and "list_all2 (\<lambda>i c. coin_outpoint c = previous_output i \<and> coin_height c \<le> h) (tx_input tx) coins"
  shows "check_tx_inputs f tx coins h \<noteq> Panic \<and>
    (\<forall>fee. check_tx_inputs f tx coins h = Ok fee \<longleftrightarrow>
       list_all (mature h) coins \<and> coins_total coins \<le> MAX_MONEY \<and> outputs_total (tx_output tx) + fee = coins_total coins)"
  using check_tx_spec [OF assms(1,3)] assms(2) by (intro check_tx_inputs_spec assms(4,5)) (simp add: valid_tx_def)

theorem fee_is_conserved_witness:
  "check_tx_inputs sample_fns sample_spend [sample_coin] 107 = Ok 20 \<and> check_tx_inputs sample_fns sample_spend [sample_coin] 106 \<noteq> Ok 20"
proof -
  have v: "valid_tx sample_fns sample_spend" "fn_base_size sample_fns sample_spend < 2 ^ 62" "\<not> fn_is_coinbase sample_fns sample_spend"
    by (simp_all add: valid_tx_def sample_fns_def sample_spend_def sample_tx_def sample_txin_def)
  then have "check_tx sample_fns sample_spend = Ok ()" using check_tx_spec [OF sample_fns_ok] by blast
  note fee = fee_is_conserved [OF sample_fns_ok this v(2,3)]
  have "list_all2 (\<lambda>i c. coin_outpoint c = previous_output i \<and> coin_height c \<le> h) (tx_input sample_spend) [sample_coin]" if "100 \<le> h" for h
    using that by (simp add: sample_spend_def sample_tx_def sample_coin_def)
  with fee [of 107 "[sample_coin]"] fee [of 106 "[sample_coin]"] show ?thesis
    by (simp add: mature_def sample_coin_def sample_spend_def sample_tx_def)
qed

text \<open>C16: BIP68: with one base per input and a median time past wherever an input is time-locked,
  \<open>sequence_locks_satisfied\<close> never aborts and holds exactly when BIP68 does not apply or every
  input's coin is old enough, in blocks or in units of 512 seconds.\<close>

theorem sequence_locks_verdict:
  assumes "length bases = length (tx_input tx)"
    and "\<And>i base. (i, base) \<in> set (zip (tx_input tx) bases) \<Longrightarrow> bip68_applies tx \<Longrightarrow> time_locked i \<Longrightarrow> base_median_time_past base \<noteq> None"
  shows "sequence_locks_satisfied tx bases ctx =
    (Ok (bip68_applies tx \<and> csv_active (ctx_rules ctx) \<longrightarrow> list_all2 (relative_lock_ok ctx) (tx_input tx) bases) :: ('e, _) res)"
  by (rule sequence_locks_spec [OF assms])

theorem sequence_locks_verdict_witness:
  "sequence_locks_satisfied (sample_spend \<lparr> tx_version := 2 \<rparr>) [\<lparr> base_height = 7, base_median_time_past = None \<rparr>]
     \<lparr> ctx_height = 11, ctx_median_time_past = 0, ctx_previous_time = 0, ctx_required_bits = 0,
       ctx_rules = \<lparr> rl_script_flags = 0, version_floor = 1, bip34_active = True, csv_active = True, segwit_active = True,
         rl_bip30 = Enforce, subsidy = 0 \<rparr> \<rparr> = (Ok False :: (unit, _) res)"
  by (subst sequence_locks_verdict)
    (simp_all add: time_locked_def relative_lock_ok_def bip68_applies_def sample_spend_def sample_tx_def sample_txin_def)

text \<open>C23: the record the UTXO hash takes of a coin never aborts for a spendable coin at a valid height
  and names the coin: two coins with the same record are the same, height and coinbase flag included.\<close>

theorem coin_record_injective:
  assumes "coin_encoders_ok enc" and "wf_coin c" and "wf_coin d"
  shows "hash_record enc c \<noteq> (Panic :: ('e, _) res) \<and> (hash_record enc c = (hash_record enc d :: ('e, _) res) \<longleftrightarrow> c = d)"
  using hash_record_ok [OF assms(1,2), where 'e = 'e] hash_record_inj [OF assms, where 'e = 'e] by auto

definition sample_coin_encoders :: encoders where
  "sample_coin_encoders = sample_encoders \<lparr> enc_outpoint := (\<lambda>p. op_txid p @ le_bytes 4 (unat (op_vout p))),
     enc_txout := (\<lambda>out. le_bytes 8 (unat (value_sat out)) @ script_pubkey out) \<rparr>"

lemma sample_coin_encoders_ok: "coin_encoders_ok sample_coin_encoders"
proof -
  have v: "le_bytes 8 (unat a) = le_bytes 8 (unat b) \<Longrightarrow> a = b" for a b :: u64
    by (metis le_bytes_8_inj)
  show ?thesis
    unfolding coin_encoders_ok_def sample_coin_encoders_def
    by (auto simp: inj_def dest: v le_bytes_4_inj intro: outpoint.equality txout.equality)
qed

definition sample_stored_coin :: "bool \<Rightarrow> coin" where
  "sample_stored_coin cb = sample_coin \<lparr> coin_outpoint := \<lparr> op_txid = replicate 32 7, op_vout = 0 \<rparr>, coin_coinbase := cb \<rparr>"

theorem coin_record_injective_witness:
  "hash_record sample_coin_encoders (sample_stored_coin True) \<noteq> (Panic :: (unit, _) res) \<and>
   hash_record sample_coin_encoders (sample_stored_coin True) \<noteq> (hash_record sample_coin_encoders (sample_stored_coin False) :: (unit, _) res)"
proof -
  have "wf_coin (sample_stored_coin cb)" for cb
    by (simp add: wf_coin_def sample_stored_coin_def sample_coin_def is_unspendable_def get_def)
  moreover have "sample_stored_coin True \<noteq> sample_stored_coin False" by (simp add: sample_stored_coin_def sample_coin_def)
  ultimately show ?thesis using coin_record_injective [OF sample_coin_encoders_ok] by blast
qed

end
