(* ===== verification/Spec2Isabelle.thy ===== *)
theory Spec2Isabelle
  imports Interpreter_Results Tx_Rules
begin

text \<open>
  bitmigo is a full Bitcoin node with its own consensus implementation.
\<close>

end
